(* ===== verification/CF_Prelude.thy ===== *)
theory CF_Prelude
  imports Main "HOL-Library.Word" "HOL-Library.Monad_Syntax" "HOL-Library.AList"
    "HOL-Library.Signed_Division"
begin

text \<open>
  Shared vocabulary of the development: the names of the model's types, the collections that
  carry the component proofs, and generic lemmas on lists, association lists and
  option-valued loops.

  An operation of the program is a function into \<open>option\<close> where the C++ code can run into
  undefined behaviour (an invalid iterator, \<open>back()\<close> of an empty list, a signed
  overflow): \<open>None\<close> is "undefined behaviour". A C++ \<open>std::optional\<close> result is a
  second, inner \<open>option\<close>.
\<close>

type_synonym size_t = "64 word"
type_synonym time_point = int
type_synonym node = nat
type_synonym fd = int

named_theorems inv_intros \<open>preservation of the component invariants\<close>

subsection \<open>Loops over a list whose body may be undefined\<close>

fun foldM :: "('a \<Rightarrow> 's \<Rightarrow> 's option) \<Rightarrow> 'a list \<Rightarrow> 's \<Rightarrow> 's option" where
  "foldM f [] s = Some s"
| "foldM f (x # xs) s = (case f x s of None \<Rightarrow> None | Some s' \<Rightarrow> foldM f xs s')"

lemma foldM_append:
  "foldM f (xs @ ys) s = (case foldM f xs s of None \<Rightarrow> None | Some s' \<Rightarrow> foldM f ys s')"
  by (induction xs arbitrary: s) (auto split: option.splits)

lemma foldM_snoc: "foldM f (xs @ [x]) s = (case foldM f xs s of None \<Rightarrow> None | Some s' \<Rightarrow> f x s')"
  by (simp add: foldM_append split: option.splits)

text \<open>A body that never fails on good states, and keeps them good, gives a loop that does.\<close>

lemma foldM_total:
  assumes "\<And>x s. x \<in> set xs \<Longrightarrow> I s \<Longrightarrow> \<exists>s'. f x s = Some s' \<and> I s'" and "I s"
  shows "\<exists>s'. foldM f xs s = Some s' \<and> I s'"
  using assms
proof (induction xs arbitrary: s)
  case Nil
  then show ?case by simp
next
  case (Cons x xs)
  from Cons.prems(1) [of x s] Cons.prems(2) obtain s1 where "f x s = Some s1" "I s1" by auto
  with Cons.IH [of s1] Cons.prems(1) show ?case by fastforce
qed

lemma foldM_invariant:
  assumes "\<And>x s s'. x \<in> set xs \<Longrightarrow> I s \<Longrightarrow> f x s = Some s' \<Longrightarrow> I s'"
    and "I s" and "foldM f xs s = Some s'"
  shows "I s'"
  using assms
proof (induction xs arbitrary: s)
  case Nil
  then show ?case by simp
next
  case (Cons x xs)
  from Cons.prems(3) obtain s1 where s1: "f x s = Some s1" and rest: "foldM f xs s1 = Some s'"
    by (auto split: option.splits)
  have "I s1" by (rule Cons.prems(1) [OF _ Cons.prems(2) s1]) simp
  show ?case
  proof (rule Cons.IH [OF _ \<open>I s1\<close> rest])
    fix y t t'
    assume "y \<in> set xs" and "I t" and "f y t = Some t'"
    then show "I t'" by (intro Cons.prems(1) [of y t t']) simp_all
  qed
qed

subsection \<open>Association lists\<close>

lemma keys_update: "fst ` set (AList.update k v al) = insert k (fst ` set al)"
  by (induction al) auto

lemma keys_delete [simp]: "fst ` set (AList.delete k al) = fst ` set al - {k}"
  by (induction al) auto

lemma length_delete_mem:
  "distinct (map fst al) \<Longrightarrow> k \<in> fst ` set al \<Longrightarrow> Suc (length (AList.delete k al)) = length al"
proof (induction al)
  case (Cons p al)
  show ?case
  proof (cases "fst p = k")
    case True
    with Cons.prems have "k \<notin> fst ` set al" by (force simp: image_iff)
    with True show ?thesis by (cases p) (simp add: AList.delete_idem)
  next
    case False
    with Cons show ?thesis by (cases p) auto
  qed
qed simp

lemma length_update_new:
  "k \<notin> fst ` set al \<Longrightarrow> length (AList.update k v al) = Suc (length al)"
  by (induction al) auto

lemma length_update_old:
  "k \<in> fst ` set al \<Longrightarrow> length (AList.update k v al) = length al"
  by (induction al) auto

subsection \<open>Lists\<close>

lemma last_not_in_butlast: "distinct xs \<Longrightarrow> xs \<noteq> [] \<Longrightarrow> last xs \<notin> set (butlast xs)"
  by (metis append_butlast_last_id distinct_append not_distinct_conv_prefix)

lemma remove1_last: "distinct xs \<Longrightarrow> xs \<noteq> [] \<Longrightarrow> remove1 (last xs) xs = butlast xs"
  by (metis append_butlast_last_id last_not_in_butlast remove1.simps(2) remove1_append self_append_conv)

end
