(* ===== verification/Cpp_Std.thy ===== *)
theory Cpp_Std
  imports CF_Prelude
begin

text \<open>
  The part of the C and C++ standard library that the program calls: character
  classification in the "C" locale, number printing and parsing (\<open>std::to_string\<close>,
  \<open>std::stoll\<close>, \<open>std::stoi\<close>, \<open>std::atoi\<close>), checked 64-bit arithmetic on
  \<open>steady_clock\<close> time points, line splitting as \<open>std::getline\<close> does it, and
  \<open>std::list\<close> with its node iterators. A \<open>char\<close> is one byte.
\<close>

subsection \<open>Characters\<close>

definition isspace :: "char \<Rightarrow> bool" where
  "isspace c \<longleftrightarrow> c \<in> {CHR '' '', CHR 0x09, CHR 0x0A, CHR 0x0B, CHR 0x0C, CHR 0x0D}"

definition isdigit :: "char \<Rightarrow> bool" where
  "isdigit c \<longleftrightarrow> 48 \<le> (of_char c :: nat) \<and> (of_char c :: nat) \<le> 57"

definition toupper :: "char \<Rightarrow> char" where
  "toupper c = (let n = (of_char c :: nat) in if 97 \<le> n \<and> n \<le> 122 then char_of (n - 32) else c)"

abbreviation dquote :: char where "dquote \<equiv> CHR 0x22"
abbreviation backslash :: char where "backslash \<equiv> CHR 0x5C"
abbreviation newline :: char where "newline \<equiv> CHR 0x0A"
abbreviation carriage_return :: char where "carriage_return \<equiv> CHR 0x0D"

lemma isspace_simps [simp]:
  "isspace CHR '' ''" "isspace newline" "isspace carriage_return" "isspace CHR 0x09"
  "\<not> isspace dquote" "\<not> isspace backslash"
  by (simp_all add: isspace_def)

lemma digit_not_space: "isdigit c \<Longrightarrow> \<not> isspace c"
  by (auto simp: isspace_def isdigit_def)

lemma toupper_idem [simp]: "toupper (toupper c) = toupper c"
proof -
  have "(n::nat) - 32 < 256" if "n < 256" for n using that by simp
  moreover have "(of_char c :: nat) < 256" by simp
  ultimately show ?thesis by (auto simp: toupper_def Let_def)
qed

subsection \<open>Printing and parsing integers\<close>

definition digit_char :: "nat \<Rightarrow> char" where
  "digit_char d = char_of (48 + d)"

definition digit_val :: "char \<Rightarrow> nat" where
  "digit_val c = of_char c - 48"

fun string_of_nat :: "nat \<Rightarrow> string" where
  "string_of_nat n = (if n < 10 then [digit_char n]
     else string_of_nat (n div 10) @ [digit_char (n mod 10)])"

declare string_of_nat.simps [simp del]

definition to_string :: "int \<Rightarrow> string" where
  "to_string x = (if x < 0 then CHR ''-'' # string_of_nat (nat (- x)) else string_of_nat (nat x))"

definition nat_of_digits :: "string \<Rightarrow> nat" where
  "nat_of_digits ds = foldl (\<lambda>a c. 10 * a + digit_val c) 0 ds"

definition int64_ok :: "int \<Rightarrow> bool" where
  "int64_ok x \<longleftrightarrow> - (2 ^ 63) \<le> x \<and> x < 2 ^ 63"

definition int32_ok :: "int \<Rightarrow> bool" where
  "int32_ok x \<longleftrightarrow> - (2 ^ 31) \<le> x \<and> x < 2 ^ 31"

datatype conv_error = InvalidArgument | OutOfRange

text \<open>The scan that \<open>strtol\<close> performs in base 10: leading white space, an optional sign,
  the longest run of digits; what follows is ignored.\<close>

definition strtol :: "string \<Rightarrow> int option" where
  "strtol s = (let s1 = dropWhile isspace s;
       (neg, s2) = (case s1 of [] \<Rightarrow> (False, [])
          | c # cs \<Rightarrow> if c = CHR ''-'' then (True, cs)
                     else if c = CHR ''+'' then (False, cs) else (False, s1));
       ds = takeWhile isdigit s2
     in if ds = [] then None
        else Some (if neg then - int (nat_of_digits ds) else int (nat_of_digits ds)))"

definition stoll :: "string \<Rightarrow> conv_error + int" where
  "stoll s = (case strtol s of None \<Rightarrow> Inl InvalidArgument
     | Some v \<Rightarrow> if int64_ok v then Inr v else Inl OutOfRange)"

definition stoi :: "string \<Rightarrow> conv_error + int" where
  "stoi s = (case strtol s of None \<Rightarrow> Inl InvalidArgument
     | Some v \<Rightarrow> if int32_ok v then Inr v else Inl OutOfRange)"

text \<open>\<open>atoi\<close> of a value that does not fit an \<open>int\<close> is undefined.\<close>

definition atoi :: "string \<Rightarrow> int option" where
  "atoi s = (case strtol s of None \<Rightarrow> Some 0 | Some v \<Rightarrow> if int32_ok v then Some v else None)"

lemma isdigit_digit_char: "d < 10 \<Longrightarrow> isdigit (digit_char d)"
  by (simp add: isdigit_def digit_char_def)

lemma digit_val_char: "d < 10 \<Longrightarrow> digit_val (digit_char d) = d"
  by (simp add: digit_val_def digit_char_def)

lemma string_of_nat_digits: "\<forall>c\<in>set (string_of_nat n). isdigit c"
proof (induction n rule: string_of_nat.induct)
  case (1 n)
  then show ?case
    by (subst string_of_nat.simps) (auto simp: isdigit_digit_char)
qed

lemma string_of_nat_nonempty [simp]: "string_of_nat n \<noteq> []"
  by (subst string_of_nat.simps) simp

lemma nat_of_digits_string_of_nat: "nat_of_digits (string_of_nat n) = n"
proof (induction n rule: string_of_nat.induct)
  case (1 n)
  show ?case
  proof (cases "n < 10")
    case True
    then show ?thesis
      by (subst string_of_nat.simps) (simp add: nat_of_digits_def digit_val_char)
  next
    case False
    with 1 show ?thesis
      by (subst string_of_nat.simps) (simp add: nat_of_digits_def digit_val_char)
  qed
qed

lemma takeWhile_digits: "takeWhile isdigit (string_of_nat n) = string_of_nat n"
  using string_of_nat_digits by simp

lemma hd_string_of_nat: "isdigit (hd (string_of_nat n))"
  using string_of_nat_digits [of n] by (cases "string_of_nat n") auto

lemma sign_not_digit: "\<not> isdigit CHR ''-''" "\<not> isdigit CHR ''+''" "\<not> isspace CHR ''-''"
  by (simp_all add: isdigit_def isspace_def)

lemma strtol_to_string: "strtol (to_string x) = Some x"
proof (cases "x < 0")
  case True
  then show ?thesis
    by (simp add: strtol_def to_string_def sign_not_digit takeWhile_digits
        nat_of_digits_string_of_nat)
next
  case False
  obtain c cs where s: "string_of_nat (nat x) = c # cs"
    by (cases "string_of_nat (nat x)") auto
  have d: "isdigit c" using hd_string_of_nat [of "nat x"] s by simp
  then have "\<not> isspace c" "c \<noteq> CHR ''-''" "c \<noteq> CHR ''+''"
    using digit_not_space sign_not_digit by auto
  with False s show ?thesis
    using takeWhile_digits [of "nat x"] nat_of_digits_string_of_nat [of "nat x"]
    by (simp add: strtol_def to_string_def)
qed

lemma stoll_to_string: "int64_ok x \<Longrightarrow> stoll (to_string x) = Inr x"
  by (simp add: stoll_def strtol_to_string)

lemma stoll_range: "stoll s = Inr v \<Longrightarrow> int64_ok v"
  by (auto simp: stoll_def split: option.splits if_splits)

lemma to_string_chars: "c \<in> set (to_string x) \<Longrightarrow> isdigit c \<or> c = CHR ''-''"
  using string_of_nat_digits by (auto simp: to_string_def split: if_splits)

lemma to_string_nonempty [simp]: "to_string x \<noteq> []"
  by (simp add: to_string_def)

lemma to_string_no_space: "\<forall>c\<in>set (to_string x). \<not> isspace c"
  using to_string_chars digit_not_space sign_not_digit by blast

lemma to_string_inj: "to_string x = to_string y \<Longrightarrow> x = y"
  by (metis option.inject strtol_to_string)

subsection \<open>Clock arithmetic\<close>

text \<open>A \<open>steady_clock::time_point\<close> counts nanoseconds in a signed 64-bit integer. Adding
  \<open>std::chrono::seconds\<close> converts to nanoseconds first; an overflow of either step is
  undefined.\<close>

abbreviation ns_per_s :: int where "ns_per_s \<equiv> 1000000000"

definition time_add_seconds :: "time_point \<Rightarrow> int \<Rightarrow> time_point option" where
  "time_add_seconds t s =
     (if int64_ok (s * ns_per_s) \<and> int64_ok (t + s * ns_per_s) then Some (t + s * ns_per_s) else None)"

definition time_diff :: "time_point \<Rightarrow> time_point \<Rightarrow> int option" where
  "time_diff a b = (if int64_ok (a - b) then Some (a - b) else None)"

text \<open>\<open>duration_cast<seconds>\<close> truncates towards zero.\<close>

definition to_seconds :: "int \<Rightarrow> int" where
  "to_seconds d = d sdiv ns_per_s"

lemma to_seconds_nonneg: "0 \<le> d \<Longrightarrow> to_seconds d = d div ns_per_s"
  by (cases "d = 0") (simp_all add: to_seconds_def signed_divide_int_def)

lemma to_seconds_neg: "d < 0 \<Longrightarrow> to_seconds d \<le> 0"
  by (simp add: to_seconds_def signed_divide_int_def)

subsection \<open>Lines of a text stream\<close>

text \<open>\<open>while (std::getline(file, line))\<close>: the pieces between newlines; the text after the
  last newline is a line unless it is empty.\<close>

fun lines_from :: "string \<Rightarrow> string \<Rightarrow> string list" where
  "lines_from acc [] = (if acc = [] then [] else [acc])"
| "lines_from acc (c # cs) = (if c = newline then acc # lines_from [] cs else lines_from (acc @ [c]) cs)"

definition getlines :: "string \<Rightarrow> string list" where
  "getlines s = lines_from [] s"

lemma lines_from_line:
  "newline \<notin> set l \<Longrightarrow> lines_from acc (l @ newline # rest) = (acc @ l) # lines_from [] rest"
  by (induction l arbitrary: acc) auto

lemma getlines_concat:
  "\<forall>l\<in>set ls. newline \<notin> set l \<Longrightarrow> getlines (concat (map (\<lambda>l. l @ [newline]) ls)) = ls"
proof (induction ls)
  case (Cons l ls)
  then show ?case using lines_from_line [of l "[]"] by (simp add: getlines_def)
qed (simp add: getlines_def)

subsection \<open>\<open>std::list\<close> with stable iterators\<close>

text \<open>
  A list of nodes; an iterator is the identity of a node and stays valid until that node is
  erased, however the list is reordered. Using an iterator whose node is gone, or
  \<open>back()\<close>/\<open>pop_back()\<close> of an empty list, is undefined. A new node gets an identity
  that no live node has, so identities of erased nodes may come back, as addresses do.
\<close>

type_synonym 'a node_list = "(node \<times> 'a) list"

definition fresh_node :: "'a node_list \<Rightarrow> node" where
  "fresh_node xs = Suc (foldr max (map fst xs) 0)"

definition list_push_front :: "'a \<Rightarrow> 'a node_list \<Rightarrow> 'a node_list" where
  "list_push_front x xs = (fresh_node xs, x) # xs"

definition list_erase :: "node \<Rightarrow> 'a node_list \<Rightarrow> 'a node_list option" where
  "list_erase n xs = (case map_of xs n of None \<Rightarrow> None | Some _ \<Rightarrow> Some (AList.delete n xs))"

definition list_splice_front :: "node \<Rightarrow> 'a node_list \<Rightarrow> 'a node_list option" where
  "list_splice_front n xs =
     (case map_of xs n of None \<Rightarrow> None | Some x \<Rightarrow> Some ((n, x) # AList.delete n xs))"

definition list_back :: "'a node_list \<Rightarrow> 'a option" where
  "list_back xs = (if xs = [] then None else Some (snd (last xs)))"

definition list_pop_back :: "'a node_list \<Rightarrow> 'a node_list option" where
  "list_pop_back xs = (if xs = [] then None else Some (butlast xs))"

lemma foldr_max_ge: "x \<in> set xs \<Longrightarrow> x \<le> foldr max xs (0::nat)"
  by (induction xs) auto

lemma fresh_node_fresh: "fresh_node xs \<notin> fst ` set xs"
proof
  assume "fresh_node xs \<in> fst ` set xs"
  then have "fresh_node xs \<le> foldr max (map fst xs) 0" by (intro foldr_max_ge) simp
  then show False by (simp add: fresh_node_def)
qed

end
