(* ===== verification/Command_Parser.thy ===== *)
theory Command_Parser
  imports Cpp_Std
begin

text \<open>
  The protocol parser, \<open>src/protocol/parser.cpp\<close> with the types of
  \<open>include/protocol/parser.h\<close>. An index \<open>i\<close> into the input view is represented by the
  rest of the input from \<open>i\<close> on; the inner loops of \<open>tokenize\<close> are functions of their
  own that return the token read so far and the rest.
\<close>

datatype CommandType = PING | SET | GET | DEL | EXPIRE | TTL | STATS | UNKNOWN

record Command =
  cmd_type :: CommandType
  args :: "string list"

definition toUpper :: "string \<Rightarrow> string" where
  "toUpper str = map toupper str"

text \<open>The loop over a quoted token, entered after the opening quote; it stops at the closing
  quote or at the end of the input. A backslash that is not the last character makes the
  next character literal.\<close>

fun scan_quoted :: "string \<Rightarrow> string \<Rightarrow> string \<times> string" where
  "scan_quoted token [] = (token, [])"
| "scan_quoted token [c] = (if c = dquote then (token, [c]) else (token @ [c], []))"
| "scan_quoted token (c # d # ds) =
     (if c = dquote then (token, c # d # ds)
      else if c = backslash then scan_quoted (token @ [d]) ds
      else scan_quoted (token @ [c]) (d # ds))"

fun scan_unquoted :: "string \<Rightarrow> string \<Rightarrow> string \<times> string" where
  "scan_unquoted token [] = (token, [])"
| "scan_unquoted token (c # cs) =
     (if isspace c then (token, c # cs) else scan_unquoted (token @ [c]) cs)"

lemma scan_quoted_length: "length (snd (scan_quoted token s)) \<le> length s"
  by (induction token s rule: scan_quoted.induct) auto

lemma scan_unquoted_length: "length (snd (scan_unquoted token s)) \<le> length s"
  by (induction token s rule: scan_unquoted.induct) auto

text \<open>One round of the outer loop at a character that is no white space: the token and the rest.\<close>

definition next_token :: "string \<Rightarrow> string \<times> string" where
  "next_token s = (case s of [] \<Rightarrow> ([], [])
     | c # cs \<Rightarrow>
        if c = dquote then (let (token, rest) = scan_quoted [] cs in (token, drop 1 rest))
        else scan_unquoted [] s)"

lemma next_token_length:
  assumes "s \<noteq> []" and "\<not> isspace (hd s)"
  shows "length (snd (next_token s)) < length s"
proof -
  obtain c cs where s: "s = c # cs" using assms(1) by (cases s) auto
  show ?thesis
  proof (cases "c = dquote")
    case True
    have "length (drop 1 (snd (scan_quoted [] cs))) \<le> length cs"
      using scan_quoted_length [of "[]" cs] by simp
    with True s show ?thesis by (simp add: next_token_def case_prod_beta)
  next
    case False
    have "length (snd (scan_unquoted [] (c # cs))) \<le> length cs"
      using assms(2) s scan_unquoted_length [of "[c]" cs] by simp
    with False s show ?thesis by (simp add: next_token_def)
  qed
qed

lemma next_token_rest:
  assumes "dropWhile isspace input \<noteq> []"
    and "next_token (dropWhile isspace input) = (token, rest)"
  shows "length rest < length input"
proof -
  have "length rest < length (dropWhile isspace input)"
    using next_token_length [OF assms(1) hd_dropWhile [OF assms(1)]] assms(2) by simp
  then show ?thesis using length_dropWhile_le [of isspace input] by linarith
qed

function tokenize :: "string \<Rightarrow> string list" where
  "tokenize input =
     (let s = dropWhile isspace input
      in if s = [] then []
         else let (token, rest) = next_token s
              in if token = [] then tokenize rest else token # tokenize rest)"
  by pat_completeness auto
termination
  by (relation "measure length") (auto intro: next_token_rest [OF _ sym] simp del: dropWhile_eq_Nil_conv)

declare tokenize.simps [simp del]

definition trimCommand :: "string \<Rightarrow> string" where
  "trimCommand input = rev (dropWhile isspace (rev (dropWhile isspace input)))"

text \<open>The chain of comparisons on the upper-cased first token; \<open>tokens\<close> is not empty.\<close>

definition command_of_tokens :: "string list \<Rightarrow> Command" where
  "command_of_tokens tokens =
     (let cmd = \<lparr>cmd_type = UNKNOWN, args = []\<rparr>; cmdName = toUpper (tokens ! 0) in
        if cmdName = ''PING'' then cmd\<lparr>cmd_type := PING\<rparr>
        else if cmdName = ''SET'' then
          (if length tokens \<ge> 3 then \<lparr>cmd_type = SET, args = [tokens ! 1, tokens ! 2]\<rparr>
           else cmd\<lparr>cmd_type := SET\<rparr>)
        else if cmdName = ''GET'' then
          (if length tokens \<ge> 2 then \<lparr>cmd_type = GET, args = [tokens ! 1]\<rparr>
           else cmd\<lparr>cmd_type := GET\<rparr>)
        else if cmdName = ''DEL'' then
          (if length tokens \<ge> 2 then \<lparr>cmd_type = DEL, args = [tokens ! 1]\<rparr>
           else cmd\<lparr>cmd_type := DEL\<rparr>)
        else if cmdName = ''EXPIRE'' then
          (if length tokens \<ge> 3 then \<lparr>cmd_type = EXPIRE, args = [tokens ! 1, tokens ! 2]\<rparr>
           else cmd\<lparr>cmd_type := EXPIRE\<rparr>)
        else if cmdName = ''TTL'' then
          (if length tokens \<ge> 2 then \<lparr>cmd_type = TTL, args = [tokens ! 1]\<rparr>
           else cmd\<lparr>cmd_type := TTL\<rparr>)
        else if cmdName = ''STATS'' then cmd\<lparr>cmd_type := STATS\<rparr>
        else cmd)"

definition parseCommand :: "string \<Rightarrow> Command" where
  "parseCommand input =
     (let cmd = \<lparr>cmd_type = UNKNOWN, args = []\<rparr>; trimmed = trimCommand input
      in if trimmed = [] then cmd
      else let tokens = tokenize trimmed
      in if tokens = [] then cmd
      else command_of_tokens tokens)"

text \<open>What every parsed command looks like: the number of arguments its type allows, and no
  empty argument.\<close>

definition wf_command :: "Command \<Rightarrow> bool" where
  "wf_command cmd \<longleftrightarrow>
     (case cmd_type cmd of
        SET \<Rightarrow> length (args cmd) \<in> {0, 2} | EXPIRE \<Rightarrow> length (args cmd) \<in> {0, 2}
      | GET \<Rightarrow> length (args cmd) \<in> {0, 1} | DEL \<Rightarrow> length (args cmd) \<in> {0, 1}
      | TTL \<Rightarrow> length (args cmd) \<in> {0, 1} | _ \<Rightarrow> args cmd = [])
     \<and> [] \<notin> set (args cmd)"

subsection \<open>White space and tokens\<close>

lemma isspace_code: "isspace c \<longleftrightarrow> (of_char c :: nat) \<in> {9, 10, 11, 12, 13, 32}"
proof -
  note e = of_char_eq_iff [where ?'a = nat, of c, symmetric]
  show ?thesis unfolding isspace_def insert_iff empty_iff e by (simp; blast)
qed

lemma toupper_code:
  "(of_char (toupper c) :: nat) =
     (if 97 \<le> (of_char c :: nat) \<and> (of_char c :: nat) \<le> 122 then of_char c - 32 else of_char c)"
proof -
  have "(n - 32) mod 256 = n - 32" if "n \<le> 122" for n :: nat using that by simp
  from this [of "of_char c"] show ?thesis by (auto simp: toupper_def Let_def)
qed

lemma isspace_toupper [simp]: "isspace (toupper c) = isspace c"
proof (cases "97 \<le> (of_char c :: nat) \<and> (of_char c :: nat) \<le> 122")
  case True
  then have le: "97 \<le> (of_char c :: nat)" "(of_char c :: nat) \<le> 122" by simp_all
  then have "\<not> isspace c" by (auto simp: isspace_code)
  moreover have "65 \<le> (of_char (toupper c) :: nat) \<and> (of_char (toupper c) :: nat) \<le> 90"
    unfolding toupper_code using True le by simp linarith
  then have "\<not> isspace (toupper c)" by (auto simp: isspace_code)
  ultimately show ?thesis by simp
next
  case False
  then have "toupper c = c" by (auto simp: toupper_def Let_def)
  then show ?thesis by simp
qed

lemma toupper_dquote [simp]: "toupper c = dquote \<longleftrightarrow> c = dquote"
proof -
  have e: "x = dquote \<longleftrightarrow> (of_char x :: nat) = 34" for x :: char
    using of_char_eq_iff [of x dquote, where ?'a = nat] by simp
  show ?thesis unfolding e toupper_code by arith
qed

lemma tokenize_Nil [simp]: "tokenize [] = []"
  by (subst tokenize.simps) simp

lemma tokenize_dropWhile: "tokenize (dropWhile isspace s) = tokenize s"
  by (simp add: tokenize.simps [of s] tokenize.simps [of "dropWhile isspace s"])

lemma tokenize_space [simp]: "isspace c \<Longrightarrow> tokenize (c # s) = tokenize s"
  by (simp add: tokenize.simps [of s] tokenize.simps [of "c # s"])

lemma tokenize_spaces: "\<forall>c\<in>set ws. isspace c \<Longrightarrow> tokenize (ws @ s) = tokenize s"
  by (induction ws) auto

lemma tokenize_token:
  assumes "s \<noteq> []" and "\<not> isspace (hd s)" and "next_token s = (t, rest)" and "t \<noteq> []"
  shows "tokenize s = t # tokenize rest"
proof -
  have "dropWhile isspace s = s" using assms(1,2) by (cases s) auto
  then show ?thesis using assms by (simp add: tokenize.simps [of s])
qed

lemma scan_unquoted_word:
  "\<forall>c\<in>set w. \<not> isspace c \<Longrightarrow> rest = [] \<or> isspace (hd rest) \<Longrightarrow>
     scan_unquoted t (w @ rest) = (t @ w, rest)"
proof (induction w arbitrary: t)
  case Nil
  then show ?case by (cases rest) auto
qed simp

lemma tokenize_word:
  assumes "w \<noteq> []" and "\<forall>c\<in>set w. \<not> isspace c" and "hd w \<noteq> dquote"
    and "rest = [] \<or> isspace (hd rest)"
  shows "tokenize (w @ rest) = w # tokenize rest"
proof (rule tokenize_token)
  obtain c cs where w: "w = c # cs" using assms(1) by (cases w) auto
  show "w @ rest \<noteq> []" "\<not> isspace (hd (w @ rest))" "w \<noteq> []" using assms(2) w by auto
  have "scan_unquoted [] (w @ rest) = (w, rest)"
    using scan_unquoted_word [OF assms(2,4), of "[]"] by simp
  then show "next_token (w @ rest) = (w, rest)"
    using w assms(3) by (simp add: next_token_def)
qed

lemma tokenize_nonempty: "[] \<notin> set (tokenize s)"
proof (induction s rule: tokenize.induct)
  case (1 s)
  then show ?case
    by (subst tokenize.simps) (auto simp: Let_def split: prod.splits)
qed

subsection \<open>Trimming\<close>

lemma rtrim_keep:
  assumes "w \<noteq> []" and "\<not> isspace (last w)"
  shows "rev (dropWhile isspace (rev (w @ r))) = w @ rev (dropWhile isspace (rev r))"
proof -
  have "dropWhile isspace (rev w) = rev w"
    using assms by (cases w rule: rev_cases) auto
  then show ?thesis by (auto simp: dropWhile_append)
qed

lemma trimCommand_surround:
  assumes "\<forall>c\<in>set ws. isspace c" and "\<forall>c\<in>set ws'. isspace c"
  shows "trimCommand (ws @ s @ ws') = trimCommand s"
proof (cases "\<forall>c\<in>set s. isspace c")
  case True
  then have "dropWhile isspace s = []" "dropWhile isspace (ws @ s @ ws') = []"
    using assms by auto
  then show ?thesis by (simp only: trimCommand_def)
next
  case False
  then have "dropWhile isspace (ws @ s @ ws') = dropWhile isspace s @ ws'"
    using assms(1) by (auto simp: dropWhile_append)
  moreover have "dropWhile isspace (rev ws' @ xs) = dropWhile isspace xs" for xs
    using assms(2) by (auto simp: dropWhile_append)
  ultimately show ?thesis by (simp add: trimCommand_def)
qed

lemma trimCommand_word:
  assumes "w \<noteq> []" and "\<forall>c\<in>set w. \<not> isspace c"
  shows "trimCommand (w @ r) = w @ rev (dropWhile isspace (rev r))"
proof -
  have "dropWhile isspace (w @ r) = w @ r" using assms by (cases w) auto
  then show ?thesis using assms rtrim_keep [of w r] by (simp add: trimCommand_def)
qed

lemma rtrim_hd:
  assumes "r = [] \<or> isspace (hd r)"
  shows "rev (dropWhile isspace (rev r)) = [] \<or> isspace (hd (rev (dropWhile isspace (rev r))))"
proof (cases "dropWhile isspace (rev r) = []")
  case False
  have "r = rev (takeWhile isspace (rev r) @ dropWhile isspace (rev r))" by simp
  then have "r = rev (dropWhile isspace (rev r)) @ rev (takeWhile isspace (rev r))"
    by (simp only: rev_append)
  with False assms show ?thesis by (metis hd_append2 append_is_Nil_conv rev_is_Nil_conv)
qed simp

subsection \<open>Parsing\<close>

lemma parse_wf_tokens:
  assumes "tokens \<noteq> []" and "[] \<notin> set tokens"
  shows "wf_command (command_of_tokens tokens)"
proof -
  have ne: "[] \<noteq> tokens ! i" if "i < length tokens" for i
    using assms(2) nth_mem [OF that] by metis
  have "[] \<noteq> tokens ! Suc 0" if "2 \<le> length tokens" using ne that by simp
  moreover have "[] \<noteq> tokens ! Suc 0" "[] \<noteq> tokens ! 2" if "3 \<le> length tokens"
    using ne that by simp_all
  ultimately show ?thesis by (auto simp: wf_command_def command_of_tokens_def Let_def)
qed

lemma command_of_tokens_upper:
  "toUpper a = toUpper b \<Longrightarrow> command_of_tokens (a # ts) = command_of_tokens (b # ts)"
  by (simp add: command_of_tokens_def Let_def)

lemma parseCommand_word:
  assumes "w \<noteq> []" and "\<forall>c\<in>set w. \<not> isspace c" and "hd w \<noteq> dquote"
    and "rest = [] \<or> isspace (hd rest)"
  shows "parseCommand (w @ rest) =
    command_of_tokens (w # tokenize (rev (dropWhile isspace (rev rest))))"
proof -
  have "trimCommand (w @ rest) = w @ rev (dropWhile isspace (rev rest))"
    by (rule trimCommand_word [OF assms(1,2)])
  moreover have "tokenize (w @ rev (dropWhile isspace (rev rest))) =
      w # tokenize (rev (dropWhile isspace (rev rest)))"
    by (rule tokenize_word [OF assms(1,2,3) rtrim_hd [OF assms(4)]])
  ultimately show ?thesis using assms(1) by (simp add: parseCommand_def Let_def)
qed

text \<open>C24. Whatever bytes a client sends, the parsed command has the number of arguments its type
  allows (none when too few tokens were given) and no argument is the empty string.\<close>

theorem parseCommand_wf: "wf_command (parseCommand input)"
proof -
  have "wf_command \<lparr>cmd_type = UNKNOWN, args = []\<rparr>" by (simp add: wf_command_def)
  then show ?thesis
    using parse_wf_tokens tokenize_nonempty by (simp add: parseCommand_def Let_def)
qed

text \<open>White space around a line (a trailing carriage return in particular) does not change
  the parsed command.\<close>

theorem parseCommand_surround:
  assumes "\<forall>c\<in>set ws. isspace c" and "\<forall>c\<in>set ws'. isspace c"
  shows "parseCommand (ws @ s @ ws') = parseCommand s"
  using trimCommand_surround [OF assms] by (simp add: parseCommand_def)

theorem parseCommand_surround_witness:
  "parseCommand (''  '' @ ''PING'' @ [CHR '' '', carriage_return, newline]) = parseCommand ''PING''"
  by (rule parseCommand_surround) simp_all

text \<open>The command word is matched without regard to case: two spellings with the same
  upper-case form give the same command, whatever follows.\<close>

theorem parseCommand_case_insensitive:
  assumes "w \<noteq> []" and "\<forall>c\<in>set w. \<not> isspace c" and "hd w \<noteq> dquote"
    and "toUpper w' = toUpper w" and "rest = [] \<or> isspace (hd rest)"
  shows "parseCommand (w' @ rest) = parseCommand (w @ rest)"
proof -
  have len: "length w' = length w" using assms(4) by (metis length_map toUpper_def)
  have nth: "toupper (w' ! i) = toupper (w ! i)" if "i < length w" for i
    using assms(4) that len by (metis nth_map toUpper_def)
  have sp: "\<forall>c\<in>set w'. \<not> isspace c"
    using assms(2) nth len by (metis in_set_conv_nth isspace_toupper nth_mem)
  have ne: "w' \<noteq> []" using assms(1) len by auto
  have q: "hd w' \<noteq> dquote"
    using assms(1,3) nth [of 0] ne by (metis hd_conv_nth length_greater_0_conv toupper_dquote)
  show ?thesis
    unfolding parseCommand_word [OF assms(1-3,5)] parseCommand_word [OF ne sp q assms(5)]
    by (rule command_of_tokens_upper [OF assms(4)])
qed

theorem parseCommand_case_insensitive_witness:
  "parseCommand (''sEt'' @ '' k v'') = parseCommand (''SET'' @ '' k v'')
   \<and> cmd_type (parseCommand ''SET k v'') = SET"
proof
  show "parseCommand (''sEt'' @ '' k v'') = parseCommand (''SET'' @ '' k v'')"
  proof (rule parseCommand_case_insensitive)
    show "toUpper ''sEt'' = toUpper ''SET''" by code_simp
  qed (simp_all add: isspace_def)
  show "cmd_type (parseCommand ''SET k v'') = SET" by code_simp
qed

end
