(* ===== verification/AOF_Codec.thy ===== *)
theory AOF_Codec
  imports Command_Parser
begin

text \<open>
  The text format of the append-only file: the lines that \<open>AOFWriter::logSet\<close>,
  \<open>logDel\<close> and \<open>logExpire\<close> build (\<open>src/storage/aof_writer.cpp\<close>) and their reading by
  \<open>std::getline\<close> and \<open>parseCommand\<close> in \<open>src/storage/aof_replay.cpp\<close>. The contract
  between writer and reader is the locale \<open>line_codec\<close>; its interpretation shows that a
  file of logged commands reads back as the same commands.
\<close>

definition needs_quote :: "string \<Rightarrow> bool" where
  "needs_quote s \<longleftrightarrow> (\<exists>c\<in>set s. c \<in> {CHR '' '', CHR 0x09, dquote, backslash})"

definition escape_char :: "char \<Rightarrow> string" where
  "escape_char c = (if c = dquote \<or> c = backslash then [backslash, c] else [c])"

definition quoteIfNeeded :: "string \<Rightarrow> string" where
  "quoteIfNeeded s =
     (if \<not> needs_quote s then s
      else [dquote] @ concat (map escape_char s) @ [dquote])"

datatype LogRecord = LogSet string string | LogDel string | LogExpire string int

fun log_line :: "LogRecord \<Rightarrow> string" where
  "log_line (LogSet key val) = ''SET '' @ quoteIfNeeded key @ '' '' @ quoteIfNeeded val"
| "log_line (LogDel key) = ''DEL '' @ quoteIfNeeded key"
| "log_line (LogExpire key seconds) = ''EXPIRE '' @ quoteIfNeeded key @ '' '' @ to_string seconds"

text \<open>The command a record stands for.\<close>

fun log_command :: "LogRecord \<Rightarrow> Command" where
  "log_command (LogSet key val) = \<lparr>cmd_type = SET, args = [key, val]\<rparr>"
| "log_command (LogDel key) = \<lparr>cmd_type = DEL, args = [key]\<rparr>"
| "log_command (LogExpire key seconds) = \<lparr>cmd_type = EXPIRE, args = [key, to_string seconds]\<rparr>"

text \<open>The strings the format can carry: not empty, no newline, and no other white space than
  space and tab unless something else makes the string quoted.\<close>

definition loggable :: "string \<Rightarrow> bool" where
  "loggable s \<longleftrightarrow> s \<noteq> [] \<and> newline \<notin> set s \<and> (needs_quote s \<or> (\<forall>c\<in>set s. \<not> isspace c))"

fun log_valid :: "LogRecord \<Rightarrow> bool" where
  "log_valid (LogSet key val) \<longleftrightarrow> loggable key \<and> loggable val"
| "log_valid (LogDel key) \<longleftrightarrow> loggable key"
| "log_valid (LogExpire key seconds) \<longleftrightarrow> loggable key \<and> int64_ok seconds"

subsection \<open>The contract of a line format\<close>

text \<open>The file after writing a sequence of records, each line ended by a newline.\<close>

definition file_of :: "('r \<Rightarrow> string) \<Rightarrow> 'r list \<Rightarrow> string" where
  "file_of encode rs = concat (map (\<lambda>r. encode r @ [newline]) rs)"

lemma file_of_append [simp]: "file_of encode (rs @ rs') = file_of encode rs @ file_of encode rs'"
  by (simp add: file_of_def)

locale line_codec =
  fixes valid :: "'r \<Rightarrow> bool"
    and encode :: "'r \<Rightarrow> string"
    and decode :: "string \<Rightarrow> 'c"
    and meaning :: "'r \<Rightarrow> 'c"
  assumes decode_encode: "valid r \<Longrightarrow> decode (encode r) = meaning r"
    and encode_line: "valid r \<Longrightarrow> newline \<notin> set (encode r) \<and> encode r \<noteq> []"
begin

lemma file_lines:
  assumes "\<forall>r\<in>set rs. valid r"
  shows "getlines (file_of encode rs) = map encode rs"
proof -
  have "file_of encode rs = concat (map (\<lambda>l. l @ [newline]) (map encode rs))"
    by (simp add: file_of_def comp_def)
  then show ?thesis using getlines_concat [of "map encode rs"] assms encode_line by simp
qed

lemma file_decode:
  assumes "\<forall>r\<in>set rs. valid r"
  shows "map decode (getlines (file_of encode rs)) = map meaning rs"
  using assms by (simp add: file_lines decode_encode)

lemma file_no_blank: "\<forall>r\<in>set rs. valid r \<Longrightarrow> [] \<notin> set (getlines (file_of encode rs))"
  using encode_line by (fastforce simp: file_lines)

end

subsection \<open>Quoting is undone by the tokenizer\<close>

lemma scan_quoted_escape:
  "scan_quoted t (concat (map escape_char s) @ dquote # rest) = (t @ s, dquote # rest)"
proof (induction s arbitrary: t)
  case Nil
  show ?case by (cases rest) simp_all
next
  case (Cons c s)
  obtain d ds where X: "concat (map escape_char s) @ dquote # rest = d # ds"
    by (cases "concat (map escape_char s) @ dquote # rest") auto
  show ?case
  proof (cases "c = dquote \<or> c = backslash")
    case True
    then show ?thesis using Cons [of "t @ [c]"] by (auto simp: escape_char_def [of c])
  next
    case False
    then show ?thesis using Cons [of "t @ [c]"] X by (simp add: escape_char_def [of c])
  qed
qed

lemma tokenize_quoteIfNeeded:
  assumes "loggable s" and "rest = [] \<or> isspace (hd rest)"
  shows "tokenize (quoteIfNeeded s @ rest) = s # tokenize rest"
proof (cases "needs_quote s")
  case True
  have "tokenize (dquote # concat (map escape_char s) @ dquote # rest) = s # tokenize rest"
  proof (rule tokenize_token)
    show "next_token (dquote # concat (map escape_char s) @ dquote # rest) = (s, rest)"
      by (simp add: next_token_def scan_quoted_escape)
  qed (use assms(1) in \<open>simp_all add: loggable_def\<close>)
  with True show ?thesis by (simp add: quoteIfNeeded_def)
next
  case False
  with assms(1) have "s \<noteq> []" "\<forall>c\<in>set s. \<not> isspace c" by (auto simp: loggable_def)
  moreover from this False have "hd s \<noteq> dquote"
    by (cases s) (auto simp: needs_quote_def)
  ultimately show ?thesis using False assms(2) tokenize_word by (simp add: quoteIfNeeded_def)
qed

lemma quoteIfNeeded_ends:
  assumes "loggable s"
  shows "quoteIfNeeded s \<noteq> []" "\<not> isspace (last (quoteIfNeeded s))" "newline \<notin> set (quoteIfNeeded s)"
  using assms by (auto simp: quoteIfNeeded_def loggable_def escape_char_def split: if_splits)

lemma rtrim_last: "r \<noteq> [] \<Longrightarrow> \<not> isspace (last r) \<Longrightarrow> rev (dropWhile isspace (rev r)) = r"
  using rtrim_keep [of r "[]"] by simp

text \<open>A command word followed by a space and a text that ends in no space.\<close>

lemma parseCommand_line:
  assumes "w \<noteq> []" and "\<forall>c\<in>set w. \<not> isspace c" and "hd w \<noteq> dquote"
    and "r \<noteq> []" and "\<not> isspace (last r)"
  shows "parseCommand (w @ CHR '' '' # r) = command_of_tokens (w # tokenize r)"
proof -
  have "rev (dropWhile isspace (rev (CHR '' '' # r))) = CHR '' '' # r"
    using assms(4,5) by (intro rtrim_last) simp_all
  then show ?thesis
    using parseCommand_word [OF assms(1-3), of "CHR '' '' # r"] by simp
qed

lemma tokenize_to_string: "tokenize (to_string n) = [to_string n]"
proof -
  have "hd (to_string n) \<noteq> dquote"
    using to_string_chars [of "hd (to_string n)" n] by (auto simp: isdigit_def)
  then show ?thesis using tokenize_word [of "to_string n" "[]"] to_string_no_space by simp
qed

lemma parse_log_line: "log_valid r \<Longrightarrow> parseCommand (log_line r) = log_command r"
proof (cases r)
  case (LogSet k v)
  assume "log_valid r"
  with LogSet have ok: "loggable k" "loggable v" by simp_all
  note q = quoteIfNeeded_ends [OF ok(2)]
  have "tokenize (quoteIfNeeded k @ '' '' @ quoteIfNeeded v) = [k, v]"
    using tokenize_quoteIfNeeded [OF ok(1), of "'' '' @ quoteIfNeeded v"]
      tokenize_quoteIfNeeded [OF ok(2), of "[]"] by simp
  then show ?thesis
    using LogSet q parseCommand_line [of "''SET''" "quoteIfNeeded k @ '' '' @ quoteIfNeeded v"]
    by (simp add: command_of_tokens_def toUpper_def toupper_def isspace_def)
next
  case (LogDel k)
  assume "log_valid r"
  with LogDel have ok: "loggable k" by simp_all
  then show ?thesis
    using LogDel quoteIfNeeded_ends [OF ok] tokenize_quoteIfNeeded [OF ok, of "[]"]
      parseCommand_line [of "''DEL''" "quoteIfNeeded k"]
    by (simp add: command_of_tokens_def toUpper_def toupper_def isspace_def)
next
  case (LogExpire k n)
  assume "log_valid r"
  with LogExpire have ok: "loggable k" by simp_all
  have "tokenize (quoteIfNeeded k @ '' '' @ to_string n) = [k, to_string n]"
    using tokenize_quoteIfNeeded [OF ok, of "'' '' @ to_string n"] tokenize_to_string by simp
  moreover have "\<not> isspace (last (to_string n))"
    using to_string_no_space [of n] by simp
  ultimately show ?thesis
    using LogExpire parseCommand_line [of "''EXPIRE''" "quoteIfNeeded k @ '' '' @ to_string n"]
    by (simp add: command_of_tokens_def toUpper_def toupper_def isspace_def)
qed

lemma log_line_shape: "log_valid r \<Longrightarrow> newline \<notin> set (log_line r) \<and> log_line r \<noteq> []"
  using quoteIfNeeded_ends(3) to_string_no_space by (cases r) fastforce+

interpretation aof_codec: line_codec log_valid log_line parseCommand log_command
  by unfold_locales (simp_all add: parse_log_line log_line_shape)

text \<open>C15. Round trip of the log format. A file that holds the lines of any sequence of logged
  commands reads back, line by line through the command parser, as the same commands, when
  every key and value is one the format can carry.\<close>

theorem aof_file_roundtrip:
  assumes "\<forall>r\<in>set rs. log_valid r"
  shows "map parseCommand (getlines (file_of log_line rs)) = map log_command rs"
  by (rule aof_codec.file_decode [OF assms])

theorem aof_file_roundtrip_witness:
  "map parseCommand (getlines (file_of log_line
      [LogSet ''k'' [CHR ''a'', dquote, CHR '' '', backslash], LogExpire ''k k'' 30]))
   = [\<lparr>cmd_type = SET, args = [''k'', [CHR ''a'', dquote, CHR '' '', backslash]]\<rparr>,
      \<lparr>cmd_type = EXPIRE, args = [''k k'', ''30'']\<rparr>]"
proof -
  have s: "to_string 30 = ''30''" by code_simp
  have "\<forall>r\<in>set [LogSet ''k'' [CHR ''a'', dquote, CHR '' '', backslash], LogExpire ''k k'' 30]. log_valid r"
    by (simp add: loggable_def needs_quote_def isspace_def int64_ok_def)
  from aof_file_roundtrip [OF this] show ?thesis by (simp add: s)
qed

text \<open>C25. The format's gap. \<open>quoteIfNeeded\<close> quotes for space and tab only, while the tokenizer
  splits at every white-space character: for any two words without such characters, a value
  that joins them by a carriage return, vertical tab or form feed is written unquoted and
  reads back cut off after the first word.\<close>

theorem aof_splits_other_spaces:
  assumes "loggable key" and "loggable a" and "\<not> needs_quote a" and "loggable b" and "\<not> needs_quote b"
    and "sep \<in> {carriage_return, CHR 0x0B, CHR 0x0C}"
  shows "parseCommand (log_line (LogSet key (a @ [sep] @ b))) = \<lparr>cmd_type = SET, args = [key, a]\<rparr>"
proof -
  have sp: "isspace sep" and nq: "\<not> needs_quote (a @ [sep] @ b)"
    using assms(3,5,6) by (auto simp: needs_quote_def isspace_def)
  have qa: "quoteIfNeeded a = a" and qb: "quoteIfNeeded b = b"
    using assms(3,5) by (simp_all add: quoteIfNeeded_def)
  have "tokenize (a @ sep # b) = [a, b]"
    using tokenize_quoteIfNeeded [OF assms(2), of "sep # b"] sp qa qb
      tokenize_quoteIfNeeded [OF assms(4), of "[]"] by simp
  then have "tokenize (quoteIfNeeded key @ '' '' @ a @ sep # b) = [key, a, b]"
    using tokenize_quoteIfNeeded [OF assms(1), of "'' '' @ a @ sep # b"] by simp
  moreover have "b \<noteq> []" "\<not> isspace (last b)"
    using quoteIfNeeded_ends [OF assms(4)] qb by simp_all
  ultimately show ?thesis
    using nq parseCommand_line [of "''SET''" "quoteIfNeeded key @ '' '' @ a @ sep # b"]
    by (simp add: quoteIfNeeded_def [of "a @ sep # b"] command_of_tokens_def toUpper_def toupper_def
        isspace_def)
qed

theorem aof_splits_other_spaces_witness:
  "parseCommand (log_line (LogSet ''k'' (''a'' @ [carriage_return] @ ''b''))) =
     \<lparr>cmd_type = SET, args = [''k'', ''a'']\<rparr>"
  by (rule aof_splits_other_spaces) (simp_all add: loggable_def needs_quote_def isspace_def)

end
