(* ===== verification/Event_System.thy ===== *)
theory Event_System
  imports CF_Prelude
begin

text \<open>
  Components with several threads (the log writer, the thread pool, the server) are modelled as
  event systems: \<open>step e s\<close> is the state after event \<open>e\<close>, or \<open>None\<close> when \<open>e\<close>
  cannot happen in \<open>s\<close>; a run is a list of events. The locale \<open>event_system\<close> carries
  invariants along runs of \<open>fine\<close> events; \<open>fifo_system\<close> is the contract of a component that consumes in order
  and without loss what is handed to it.
\<close>

abbreviation run :: "('e \<Rightarrow> 's \<Rightarrow> 's option) \<Rightarrow> 'e list \<Rightarrow> 's \<Rightarrow> 's option" where
  "run step \<equiv> foldM step"

lemma run_append_Some:
  "run step (es @ es') s = Some s'' \<longleftrightarrow> (\<exists>s'. run step es s = Some s' \<and> run step es' s' = Some s'')"
  by (auto simp: foldM_append split: option.splits)

locale event_system =
  fixes step :: "'e \<Rightarrow> 's \<Rightarrow> 's option"
    and fine :: "'e \<Rightarrow> bool"
    and inv :: "'s \<Rightarrow> bool"
  assumes inv_step: "inv s \<Longrightarrow> fine e \<Longrightarrow> step e s = Some s' \<Longrightarrow> inv s'"
begin

lemma inv_run:
  assumes "inv s" and "\<forall>e\<in>set es. fine e" and "run step es s = Some s'"
  shows "inv s'"
  by (rule foldM_invariant [where I = inv, OF _ assms(1,3)]) (use assms(2) inv_step in blast)

end

text \<open>\<open>total\<close> is everything consumed so far followed by everything still waiting; an event
  that hands over new items appends them, and no event changes it otherwise.\<close>

locale fifo_system = event_system step fine inv
  for step :: "'e \<Rightarrow> 's \<Rightarrow> 's option" and fine :: "'e \<Rightarrow> bool" and inv :: "'s \<Rightarrow> bool" +
  fixes total :: "'s \<Rightarrow> 'a list"
    and added :: "'e \<Rightarrow> 'a list"
  assumes total_step: "inv s \<Longrightarrow> fine e \<Longrightarrow> step e s = Some s' \<Longrightarrow> total s' = total s @ added e"
begin

lemma total_run:
  assumes "inv s" and "\<forall>e\<in>set es. fine e" and "run step es s = Some s'"
  shows "total s' = total s @ concat (map added es)"
  using assms
proof (induction es arbitrary: s)
  case (Cons e es)
  then obtain s1 where s1: "step e s = Some s1" "run step es s1 = Some s'"
    by (auto split: option.splits)
  have "inv s1" by (rule inv_step [OF Cons.prems(1) _ s1(1)]) (simp add: Cons.prems(2))
  with Cons.IH [of s1] Cons.prems s1 total_step [of s e s1] show ?case by simp
qed simp

end

end
