(* ===== verification/AOF_Writer.thy ===== *)
theory AOF_Writer
  imports AOF_Codec Event_System
begin

text \<open>
  The append-only-file writer, \<open>src/storage/aof_writer.cpp\<close> with
  \<open>include/storage/aof_writer.h\<close>: client threads push lines on a queue, one background
  thread takes the whole queue and writes it to the file. The state below is the object
  together with the writer thread's program counter and the file stream; the events are the
  atomic steps of the threads. \<open>enqueue\<close> is two events, because its test of \<open>stopped_\<close> is
  made before the mutex is taken: a thread between the two is \<open>in_flight\<close>.

  The stream records the bytes handed to it and how many of them have been flushed. A write
  can fail part-way; \<open>WroteSome n\<close> says how many bytes got out. Standard streams do not throw
  unless asked to, so the \<open>catch\<close> clause of the loop is never entered.
\<close>

datatype writer_pc = NotStarted | Waiting | HasBatch "string list" | Finished

datatype write_outcome = WroteAll | WroteSome nat

record FileStream =
  is_open :: bool
  stream_good :: bool
  contents :: string
  flushed :: nat

record AOFWriter =
  enabled :: bool
  stopped :: bool
  aof_stop_requested :: bool
  queue :: "string list"
  in_flight :: "string list"
  written_count :: size_t
  last_fsync :: time_point
  fsync_interval :: int
  aof_file :: FileStream
  pc :: writer_pc

definition new_AOFWriter :: "time_point \<Rightarrow> int \<Rightarrow> AOFWriter" where
  "new_AOFWriter now interval =
     \<lparr>enabled = True, stopped = False, aof_stop_requested = False, queue = [], in_flight = [],
      written_count = 0, last_fsync = now, fsync_interval = interval,
      aof_file = \<lparr>is_open = False, stream_good = True, contents = [], flushed = 0\<rparr>, pc = NotStarted\<rparr>"

text \<open>\<open>start\<close> opens the file for appending (\<open>existing\<close> is what it holds already) or throws.\<close>

datatype aof_error = OpenFailed

definition aof_start :: "bool \<Rightarrow> string \<Rightarrow> AOFWriter \<Rightarrow> aof_error + AOFWriter" where
  "aof_start opens existing w =
     (if \<not> opens then Inl OpenFailed
      else Inr (w\<lparr>aof_file := \<lparr>is_open = True, stream_good = True, contents = existing, flushed = length existing\<rparr>,
                  pc := Waiting\<rparr>))"

definition setEnabled :: "bool \<Rightarrow> AOFWriter \<Rightarrow> AOFWriter" where
  "setEnabled b w = w\<lparr>enabled := b\<rparr>"

definition isEnabled :: "AOFWriter \<Rightarrow> bool" where
  "isEnabled w = enabled w"

definition pendingCount :: "AOFWriter \<Rightarrow> nat" where
  "pendingCount w = length (queue w)"

definition writtenCount :: "AOFWriter \<Rightarrow> size_t" where
  "writtenCount w = written_count w"

text \<open>The two halves of \<open>enqueue\<close>: the test of \<open>stopped_\<close>, and the push under the mutex.\<close>

definition enqueue_test :: "string \<Rightarrow> AOFWriter \<Rightarrow> AOFWriter" where
  "enqueue_test cmd w = (if stopped w then w else w\<lparr>in_flight := cmd # in_flight w\<rparr>)"

definition enqueue_push :: "string \<Rightarrow> AOFWriter \<Rightarrow> AOFWriter option" where
  "enqueue_push cmd w =
     (if cmd \<in> set (in_flight w)
      then Some (w\<lparr>in_flight := remove1 cmd (in_flight w), queue := queue w @ [cmd]\<rparr>) else None)"

definition enqueue :: "string \<Rightarrow> AOFWriter \<Rightarrow> AOFWriter" where
  "enqueue cmd w = (if stopped w then w else w\<lparr>queue := queue w @ [cmd]\<rparr>)"

text \<open>\<open>logSet\<close>, \<open>logDel\<close> and \<open>logExpire\<close>: the guard on \<open>enabled_\<close>, the line, \<open>enqueue\<close>.\<close>

definition aof_log :: "LogRecord \<Rightarrow> AOFWriter \<Rightarrow> AOFWriter" where
  "aof_log r w = (if \<not> enabled w then w else enqueue (log_line r) w)"

definition logSet :: "string \<Rightarrow> string \<Rightarrow> AOFWriter \<Rightarrow> AOFWriter" where
  "logSet key val = aof_log (LogSet key val)"

definition logDel :: "string \<Rightarrow> AOFWriter \<Rightarrow> AOFWriter" where
  "logDel key = aof_log (LogDel key)"

definition logExpire :: "string \<Rightarrow> int \<Rightarrow> AOFWriter \<Rightarrow> AOFWriter" where
  "logExpire key seconds = aof_log (LogExpire key seconds)"

subsection \<open>The writer thread\<close>

text \<open>Leaving the wait (the queue is not empty, a stop is requested, or the interval is over) with
  the mutex held: return, or take the whole queue.\<close>

definition writer_wake :: "AOFWriter \<Rightarrow> AOFWriter option" where
  "writer_wake w =
     (if pc w \<noteq> Waiting then None
      else if aof_stop_requested w \<and> queue w = [] then Some (w\<lparr>pc := Finished\<rparr>)
      else Some (w\<lparr>pc := HasBatch (queue w), queue := []\<rparr>))"

text \<open>Writing to a stream: a stream in a bad state takes nothing.\<close>

definition stream_write :: "write_outcome \<Rightarrow> string \<Rightarrow> FileStream \<Rightarrow> FileStream" where
  "stream_write out bytes f =
     (if \<not> stream_good f then f
      else case out of
        WroteAll \<Rightarrow> f\<lparr>contents := contents f @ bytes\<rparr>
      | WroteSome n \<Rightarrow> f\<lparr>contents := contents f @ take n bytes, stream_good := False\<rparr>)"

definition stream_flush :: "FileStream \<Rightarrow> FileStream" where
  "stream_flush f = (if stream_good f then f\<lparr>flushed := length (contents f)\<rparr> else f)"

text \<open>The loop over the batch; \<open>outs\<close> is what the writes do, and a missing element is a
  complete write.\<close>

fun write_batch :: "write_outcome list \<Rightarrow> string list \<Rightarrow> AOFWriter \<Rightarrow> AOFWriter" where
  "write_batch outs [] w = w"
| "write_batch outs (cmd # batch) w =
     (let out = (case outs of [] \<Rightarrow> WroteAll | x # _ \<Rightarrow> x);
          f = stream_write out (cmd @ [newline]) (aof_file w)
      in if \<not> stream_good f then w\<lparr>aof_file := f\<rparr>
         else write_batch (tl outs) batch (w\<lparr>aof_file := f, written_count := written_count w + 1\<rparr>))"

definition writer_write :: "write_outcome list \<Rightarrow> time_point \<Rightarrow> AOFWriter \<Rightarrow> AOFWriter option" where
  "writer_write outs now w = (case pc w of
      HasBatch batch \<Rightarrow>
        if \<not> is_open (aof_file w) then Some (w\<lparr>pc := Waiting\<rparr>)
        else let w1 = write_batch outs batch w in
          if batch \<noteq> [] \<or> now - last_fsync w1 \<ge> fsync_interval w1
          then Some (w1\<lparr>aof_file := stream_flush (aof_file w1), last_fsync := now, pc := Waiting\<rparr>)
          else Some (w1\<lparr>pc := Waiting\<rparr>)
    | _ \<Rightarrow> None)"

text \<open>\<open>stop\<close>: the requests, then, once the thread has returned and is joined, the final flush
  and close.\<close>

definition stop_request :: "AOFWriter \<Rightarrow> AOFWriter" where
  "stop_request w = w\<lparr>stopped := True, aof_stop_requested := (pc w \<noteq> NotStarted)\<rparr>"

definition stop_finish :: "AOFWriter \<Rightarrow> AOFWriter option" where
  "stop_finish w =
     (if pc w = Finished \<or> pc w = NotStarted
      then Some (if is_open (aof_file w) then w\<lparr>aof_file := (stream_flush (aof_file w))\<lparr>is_open := False\<rparr>\<rparr> else w)
      else None)"

datatype aof_event =
    EvLog LogRecord
  | EvPush string
  | EvWake
  | EvWrite "write_outcome list" time_point
  | EvSetEnabled bool
  | EvStop
  | EvJoined

definition aof_step :: "aof_event \<Rightarrow> AOFWriter \<Rightarrow> AOFWriter option" where
  "aof_step e w = (case e of
      EvLog r \<Rightarrow> Some (if \<not> enabled w then w else enqueue_test (log_line r) w)
    | EvPush cmd \<Rightarrow> enqueue_push cmd w
    | EvWake \<Rightarrow> writer_wake w
    | EvWrite outs now \<Rightarrow> writer_write outs now w
    | EvSetEnabled b \<Rightarrow> Some (setEnabled b w)
    | EvStop \<Rightarrow> Some (stop_request w)
    | EvJoined \<Rightarrow> if stopped w then stop_finish w else None)"

subsection \<open>First in, first out, nothing lost\<close>

text \<open>The lines the writer thread holds, and everything handed over so far: the bytes in the file
  and the lines still to be written.\<close>

definition pending :: "AOFWriter \<Rightarrow> string list" where
  "pending w = (case pc w of HasBatch b \<Rightarrow> b | _ \<Rightarrow> [])"

definition aof_total :: "AOFWriter \<Rightarrow> string" where
  "aof_total w = contents (aof_file w) @ file_of id (pending w @ queue w)"

definition pushed :: "aof_event \<Rightarrow> string list" where
  "pushed e = (case e of EvPush cmd \<Rightarrow> [cmd] | _ \<Rightarrow> [])"

text \<open>An event is fine when it is no failed write.\<close>

definition write_fine :: "aof_event \<Rightarrow> bool" where
  "write_fine e = (case e of EvWrite outs now \<Rightarrow> \<forall>x\<in>set outs. x = WroteAll | _ \<Rightarrow> True)"

definition aof_ok :: "AOFWriter \<Rightarrow> bool" where
  "aof_ok w \<longleftrightarrow> pc w \<noteq> NotStarted \<and> (pc w \<noteq> Finished \<longrightarrow> is_open (aof_file w))
     \<and> stream_good (aof_file w) \<and> flushed (aof_file w) = length (contents (aof_file w))
     \<and> (pc w = Finished \<longrightarrow> stopped w)
     \<and> (aof_stop_requested w \<longrightarrow> stopped w)"

lemma write_batch_fine:
  assumes "\<forall>x\<in>set outs. x = WroteAll" and "stream_good (aof_file w)"
  shows "write_batch outs batch w = w\<lparr>aof_file := (aof_file w)\<lparr>contents :=
      contents (aof_file w) @ file_of id batch\<rparr>, written_count := written_count w + of_nat (length batch)\<rparr>"
  using assms
proof (induction outs batch w rule: write_batch.induct)
  case (1 outs w)
  show ?case by (simp add: file_of_def)
next
  case (2 outs cmd batch w)
  have out: "(case outs of [] \<Rightarrow> WroteAll | x # _ \<Rightarrow> x) = WroteAll"
    using 2(2) by (cases outs) simp_all
  have "\<forall>x\<in>set (tl outs). x = WroteAll" using 2(2) by (cases outs) simp_all
  with 2 out show ?case by (simp add: stream_write_def file_of_def algebra_simps)
qed

lemmas aof_step_defs = aof_step_def enqueue_test_def enqueue_push_def writer_wake_def writer_write_def
  setEnabled_def stop_request_def stop_finish_def stream_flush_def Let_def

interpretation aof_fifo: fifo_system aof_step write_fine aof_ok aof_total "\<lambda>e. file_of id (pushed e)"
proof (unfold_locales, goal_cases)
  case (1 w e w')
  then show ?case
    by (auto simp: aof_step_defs aof_ok_def write_fine_def write_batch_fine file_of_def
        split: aof_event.splits if_splits writer_pc.splits)
next
  case (2 w e w')
  then show ?case
    by (auto simp: aof_step_defs aof_ok_def write_fine_def write_batch_fine aof_total_def pushed_def
        pending_def file_of_def split: aof_event.splits if_splits writer_pc.splits)
qed

lemma aof_start_ok:
  assumes "aof_start True existing (new_AOFWriter t0 interval) = Inr w"
  shows "aof_ok w" and "aof_total w = existing"
  using assms
  by (auto simp: aof_start_def new_AOFWriter_def aof_ok_def aof_total_def pending_def file_of_def)

lemma file_of_pushed: "concat (map (\<lambda>e. file_of id (pushed e)) evs) = file_of id (concat (map pushed evs))"
  by (induction evs) (simp_all add: file_of_def)

text \<open>C13. Order and completeness of the log. Whatever the interleaving of logging clients, the
  writer thread, \<open>setEnabled\<close> and \<open>stop\<close>, as long as no write fails, the file holds what it
  held at start followed by pushed lines in the order of their pushes, each once and whole;
  what is missing is exactly what the writer holds and the queue; and everything written has
  been flushed.\<close>

theorem aof_log_in_order:
  assumes "aof_start True existing (new_AOFWriter t0 interval) = Inr w"
    and "run aof_step evs w = Some w'" and "\<forall>e\<in>set evs. write_fine e"
  shows "contents (aof_file w') @ file_of id (pending w' @ queue w')
      = existing @ file_of id (concat (map pushed evs))
    \<and> flushed (aof_file w') = length (contents (aof_file w'))"
proof -
  note st = aof_start_ok [OF assms(1)]
  have "aof_total w' = existing @ file_of id (concat (map pushed evs))"
    using aof_fifo.total_run [OF st(1) assms(3,2)] st(2) file_of_pushed [of evs] by simp
  moreover have "aof_ok w'" by (rule aof_fifo.inv_run [OF st(1) assms(3,2)])
  ultimately show ?thesis by (simp add: aof_total_def aof_ok_def)
qed

theorem aof_log_in_order_witness:
  "\<exists>w w'. aof_start True [] (new_AOFWriter 0 100) = Inr w
    \<and> run aof_step [EvLog (LogDel ''a''), EvLog (LogDel ''b''), EvPush ''DEL b'', EvWake, EvPush ''DEL a'',
        EvWrite [] 5] w = Some w'
    \<and> contents (aof_file w') = ''DEL b'' @ [newline] \<and> queue w' = [''DEL a'']
    \<and> contents (aof_file w') @ file_of id (pending w' @ queue w') = file_of id [''DEL b'', ''DEL a'']"
proof -
  let ?evs = "[EvLog (LogDel ''a''), EvLog (LogDel ''b''), EvPush ''DEL b'', EvWake, EvPush ''DEL a'',
        EvWrite [] 5]"
  obtain w where w: "aof_start True [] (new_AOFWriter 0 100) = Inr w" by (simp add: aof_start_def)
  then have "\<exists>w'. run aof_step ?evs w = Some w' \<and> contents (aof_file w') = ''DEL b'' @ [newline]
      \<and> queue w' = [''DEL a'']"
    by (auto simp: aof_start_def new_AOFWriter_def aof_step_defs quoteIfNeeded_def needs_quote_def
        stream_write_def)
  then obtain w' where w': "run aof_step ?evs w = Some w'"
    "contents (aof_file w') = ''DEL b'' @ [newline]" "queue w' = [''DEL a'']" by blast
  have "\<forall>e\<in>set ?evs. write_fine e" by (simp add: write_fine_def)
  from aof_log_in_order [OF w w'(1) this] w w' show ?thesis
    by (intro exI [of _ w] exI [of _ w'] conjI) (simp_all add: pushed_def)
qed

text \<open>The writer's own steps after \<open>stop\<close> has asked it to finish.\<close>

lemma writer_drains_waiting:
  assumes ok: "aof_ok w" and "aof_stop_requested w" and "pc w = Waiting"
  shows "\<exists>ws w'. set ws \<subseteq> {EvWake, EvWrite [] now} \<and> length ws \<le> 3
    \<and> run aof_step ws w = Some w' \<and> pc w' = Finished \<and> queue w' = [] \<and> stopped w'"
proof (cases "queue w = []")
  case True
  with assms have "run aof_step [EvWake] w = Some (w\<lparr>pc := Finished\<rparr>)" "stopped w"
    by (auto simp: aof_step_def writer_wake_def aof_ok_def)
  with True show ?thesis by (intro exI [of _ "[EvWake]"]) simp
next
  case False
  let ?ws = "[EvWake, EvWrite [] now, EvWake]"
  have "\<exists>w'. run aof_step ?ws w = Some w' \<and> pc w' = Finished \<and> queue w' = [] \<and> stopped w'"
    using assms False by (auto simp: aof_step_defs aof_ok_def write_batch_fine)
  then show ?thesis by (intro exI [of _ ?ws]) simp
qed

lemma writer_drains:
  assumes ok: "aof_ok w" and "aof_stop_requested w" and "pc w \<noteq> Finished"
  shows "\<exists>ws w'. set ws \<subseteq> {EvWake, EvWrite [] now} \<and> length ws \<le> 4
    \<and> run aof_step ws w = Some w' \<and> pc w' = Finished \<and> queue w' = [] \<and> stopped w'"
proof (cases "pc w = Waiting")
  case True
  then show ?thesis using writer_drains_waiting [OF ok assms(2), of now] by force
next
  case False
  with assms obtain b where b: "pc w = HasBatch b" by (cases "pc w") (auto simp: aof_ok_def)
  with ok have "\<exists>w1. aof_step (EvWrite [] now) w = Some w1 \<and> pc w1 = Waiting
      \<and> aof_stop_requested w1 = aof_stop_requested w"
    by (simp add: aof_step_defs aof_ok_def write_batch_fine)
  then obtain w1 where w1: "aof_step (EvWrite [] now) w = Some w1" "pc w1 = Waiting"
    "aof_stop_requested w1 = aof_stop_requested w" by blast
  have "aof_ok w1" by (rule aof_fifo.inv_step [OF ok _ w1(1)]) (simp add: write_fine_def)
  with writer_drains_waiting [of w1 now] w1 assms(2) obtain ws w' where
    ws: "set ws \<subseteq> {EvWake, EvWrite [] now}" "length ws \<le> 3" "run aof_step ws w1 = Some w'"
      "pc w' = Finished" "queue w' = []" "stopped w'" by auto
  with w1 show ?thesis by (intro exI [of _ "EvWrite [] now # ws"]) auto
qed

lemma stop_drains:
  assumes ok: "aof_ok w'" and "aof_stop_requested w'" and "pc w' \<noteq> Finished"
  shows "\<exists>ws w''. set ws \<subseteq> {EvWake, EvWrite [] now} \<and> length ws \<le> 4
    \<and> run aof_step (ws @ [EvJoined]) w' = Some w'' \<and> contents (aof_file w'') = aof_total w'
    \<and> flushed (aof_file w'') = length (contents (aof_file w'')) \<and> \<not> is_open (aof_file w'')"
proof -
  from writer_drains [OF assms] obtain ws w1 where
    ws: "set ws \<subseteq> {EvWake, EvWrite [] now}" "length ws \<le> 4" "run aof_step ws w' = Some w1"
      and w1: "pc w1 = Finished" "queue w1 = []" "stopped w1" by blast
  have fine: "\<forall>e\<in>set ws. write_fine e" using ws(1) by (auto simp: write_fine_def)
  have ok1: "aof_ok w1" by (rule aof_fifo.inv_run [OF ok fine ws(3)])
  have none: "concat (map (\<lambda>e. file_of id (pushed e)) ws) = []"
    using ws(1) by (auto simp: pushed_def file_of_def)
  have c: "contents (aof_file w1) = aof_total w'"
    using aof_fifo.total_run [OF ok fine ws(3)] none w1
    by (simp add: aof_total_def pending_def file_of_def)
  have "\<exists>w''. aof_step EvJoined w1 = Some w'' \<and> contents (aof_file w'') = contents (aof_file w1)
    \<and> flushed (aof_file w'') = length (contents (aof_file w'')) \<and> \<not> is_open (aof_file w'')"
    using w1 ok1 by (auto simp: aof_step_defs aof_ok_def)
  then show ?thesis using ws c by (intro exI [of _ ws]) (auto simp: foldM_append)
qed

text \<open>C14. Shutdown. Once \<open>stop\<close> has been called, a writer that has not returned yet needs at
  most four steps of its own to do so; \<open>stop\<close> then joins it and closes the file, which holds
  every line pushed until then, flushed.\<close>

theorem aof_stop_writes_everything:
  assumes "aof_start True existing (new_AOFWriter t0 interval) = Inr w"
    and "run aof_step evs w = Some w'" and "\<forall>e\<in>set evs. write_fine e"
    and "aof_stop_requested w'" and "pc w' \<noteq> Finished"
  shows "\<exists>ws w''. set ws \<subseteq> {EvWake, EvWrite [] now} \<and> length ws \<le> 4
    \<and> run aof_step (ws @ [EvJoined]) w' = Some w''
    \<and> contents (aof_file w'') = existing @ file_of id (concat (map pushed evs))
    \<and> flushed (aof_file w'') = length (contents (aof_file w'')) \<and> \<not> is_open (aof_file w'')"
proof -
  note st = aof_start_ok [OF assms(1)]
  have "aof_ok w'" by (rule aof_fifo.inv_run [OF st(1) assms(3,2)])
  moreover have "aof_total w' = existing @ file_of id (concat (map pushed evs))"
    using aof_fifo.total_run [OF st(1) assms(3,2)] st(2) file_of_pushed [of evs] by simp
  ultimately show ?thesis using stop_drains [OF _ assms(4,5), of now] by metis
qed

theorem aof_stop_writes_everything_witness:
  "\<exists>ws w''. length ws \<le> 4 \<and> run aof_step
      ([EvLog (LogDel ''a''), EvPush ''DEL a'', EvStop] @ ws @ [EvJoined])
      (new_AOFWriter 0 100\<lparr>aof_file := \<lparr>is_open = True, stream_good = True, contents = [], flushed = 0\<rparr>,
        pc := Waiting\<rparr>) = Some w''
    \<and> contents (aof_file w'') = ''DEL a'' @ [newline]"
proof -
  let ?evs = "[EvLog (LogDel ''a''), EvPush ''DEL a'', EvStop]"
  let ?w = "new_AOFWriter 0 100\<lparr>aof_file := \<lparr>is_open = True, stream_good = True, contents = [], flushed = 0\<rparr>,
        pc := Waiting\<rparr>"
  have w: "aof_start True [] (new_AOFWriter 0 100) = Inr ?w" by (simp add: aof_start_def)
  have "\<exists>w'. run aof_step ?evs ?w = Some w' \<and> aof_stop_requested w' \<and> pc w' \<noteq> Finished"
    by (simp add: new_AOFWriter_def aof_step_defs quoteIfNeeded_def needs_quote_def)
  then obtain w' where w': "run aof_step ?evs ?w = Some w'" "aof_stop_requested w'" "pc w' \<noteq> Finished"
    by blast
  have "\<forall>e\<in>set ?evs. write_fine e" by (simp add: write_fine_def)
  from aof_stop_writes_everything [OF w w'(1) this w'(2,3), of 9] obtain ws w'' where
    ws: "length ws \<le> 4" "run aof_step (ws @ [EvJoined]) w' = Some w''"
    "contents (aof_file w'') = [] @ file_of id (concat (map pushed ?evs))" by blast
  have "run aof_step (?evs @ ws @ [EvJoined]) ?w = Some w''"
    unfolding run_append_Some [of _ ?evs] using w'(1) ws(2) by blast
  with ws show ?thesis
    by (intro exI [of _ ws] exI [of _ w''] conjI) (simp_all add: pushed_def file_of_def)
qed

text \<open>The late push. After the writer thread has returned, the file never changes again: a
  line whose client passed the test of \<open>stopped_\<close> before \<open>stop\<close> but pushed it afterwards
  stays in the queue for good.\<close>

theorem aof_late_push_lost:
  assumes "pc w = Finished" and "run aof_step evs w = Some w'"
  shows "contents (aof_file w') = contents (aof_file w) \<and> pc w' = Finished
    \<and> queue w' = queue w @ concat (map pushed evs)"
  using assms
proof (induction evs arbitrary: w)
  case (Cons e evs)
  then obtain w1 where w1: "aof_step e w = Some w1" "run aof_step evs w1 = Some w'"
    by (auto split: option.splits)
  from w1(1) Cons.prems(1) have "contents (aof_file w1) = contents (aof_file w) \<and> pc w1 = Finished
      \<and> queue w1 = queue w @ pushed e"
    by (auto simp: aof_step_defs pushed_def split: aof_event.splits if_splits)
  with Cons.IH [OF _ w1(2)] show ?case by simp
qed simp

theorem aof_late_push_lost_witness:
  "\<exists>w w'. run aof_step [EvLog (LogDel ''a''), EvStop, EvWake]
      (new_AOFWriter 0 100\<lparr>aof_file := \<lparr>is_open = True, stream_good = True, contents = [], flushed = 0\<rparr>,
        pc := Waiting\<rparr>) = Some w
    \<and> run aof_step [EvPush ''DEL a'', EvJoined] w = Some w'
    \<and> contents (aof_file w') = [] \<and> queue w' = [''DEL a'']"
proof -
  let ?w0 = "new_AOFWriter 0 100\<lparr>aof_file := \<lparr>is_open = True, stream_good = True, contents = [], flushed = 0\<rparr>,
        pc := Waiting\<rparr>"
  have "\<exists>w w'. run aof_step [EvLog (LogDel ''a''), EvStop, EvWake] ?w0 = Some w \<and> pc w = Finished
      \<and> contents (aof_file w) = [] \<and> queue w = [] \<and> run aof_step [EvPush ''DEL a'', EvJoined] w = Some w'"
    by (simp add: new_AOFWriter_def aof_step_defs quoteIfNeeded_def needs_quote_def)
  then obtain w w' where w: "run aof_step [EvLog (LogDel ''a''), EvStop, EvWake] ?w0 = Some w"
    "pc w = Finished" "contents (aof_file w) = []" "queue w = []"
    "run aof_step [EvPush ''DEL a'', EvJoined] w = Some w'" by blast
  from aof_late_push_lost [OF w(2,5)] w show ?thesis
    by (intro exI [of _ w] exI [of _ w']) (simp add: pushed_def)
qed

end
