(* ===== verification/KV_Store.thy ===== *)
theory KV_Store
  imports Cpp_Std
begin

text \<open>
  The contract between the storage and its clients (the dispatcher and the log replay): a
  store shows each key's value and deadline through \<open>seen\<close>; a key past its deadline
  counts as absent; every operation is defined on good states and keeps them good. Storing a
  key may make other keys disappear (eviction) but never changes them. The contract is a
  locale, interpreted by one shard (theory \<open>LRU_Shard\<close>) and by the whole sharded storage
  (theory \<open>Sharded_Storage\<close>); what clients need is proved here once.
\<close>

type_synonym seen_value = "(string \<times> time_point option) option"

definition live :: "time_point \<Rightarrow> seen_value \<Rightarrow> bool" where
  "live now x = (case x of None \<Rightarrow> False
     | Some (_, ex) \<Rightarrow> (case ex of None \<Rightarrow> True | Some d \<Rightarrow> now < d))"

definition stale :: "time_point \<Rightarrow> seen_value \<Rightarrow> bool" where
  "stale now x \<longleftrightarrow> x \<noteq> None \<and> \<not> live now x"

text \<open>The remaining seconds that \<open>ttl\<close> reports: -2 absent, -1 no deadline.\<close>

definition remaining :: "time_point \<Rightarrow> time_point \<Rightarrow> seen_value \<Rightarrow> int" where
  "remaining now now' x =
     (if live now x then (case x of Some (_, Some d) \<Rightarrow> max 0 ((d - now') div ns_per_s) | _ \<Rightarrow> -1)
      else -2)"

lemma live_simps [simp]:
  "\<not> live now None" "live now (Some (v, None))" "live now (Some (v, Some d)) \<longleftrightarrow> now < d"
  "\<not> stale now None" "\<not> stale now (Some (v, None))" "stale now (Some (v, Some d)) \<longleftrightarrow> d \<le> now"
  by (auto simp: live_def stale_def)

lemma live_antimono: "live t' x \<Longrightarrow> t \<le> t' \<Longrightarrow> live t x"
  by (auto simp: live_def split: option.splits)

text \<open>Stored deadlines fit the clock's 64 bits; clock readings are non-negative and fit too.\<close>

definition deadline_ok :: "time_point option \<Rightarrow> bool" where
  "deadline_ok ex = (case ex of None \<Rightarrow> True | Some d \<Rightarrow> int64_ok d)"

definition clock_ok :: "time_point \<Rightarrow> bool" where
  "clock_ok t \<longleftrightarrow> 0 \<le> t \<and> int64_ok t"

lemma deadline_ok_simps [simp]: "deadline_ok None" "deadline_ok (Some d) \<longleftrightarrow> int64_ok d"
  by (simp_all add: deadline_ok_def)

lemma time_add_ok: "time_add_seconds t n = Some d \<Longrightarrow> int64_ok d"
  by (auto simp: time_add_seconds_def split: if_splits)

lemma time_diff_fits: "clock_ok t \<Longrightarrow> clock_ok t' \<Longrightarrow> int64_ok d \<Longrightarrow> t < d \<Longrightarrow> int64_ok (d - t')"
  by (auto simp: clock_ok_def int64_ok_def)

locale kv_store =
  fixes good :: "'s \<Rightarrow> bool"
    and seen :: "'s \<Rightarrow> string \<Rightarrow> seen_value"
    and put :: "string \<Rightarrow> string \<Rightarrow> time_point option \<Rightarrow> 's \<Rightarrow> 's option"
    and fetch :: "time_point \<Rightarrow> string \<Rightarrow> 's \<Rightarrow> ('s \<times> string option) option"
    and remove :: "time_point \<Rightarrow> string \<Rightarrow> 's \<Rightarrow> ('s \<times> bool) option"
    and expire_in :: "time_point \<Rightarrow> time_point \<Rightarrow> string \<Rightarrow> int \<Rightarrow> 's \<Rightarrow> ('s \<times> bool) option"
    and ttl_of :: "time_point \<Rightarrow> time_point \<Rightarrow> string \<Rightarrow> 's \<Rightarrow> ('s \<times> int) option"
  assumes put_law: "good s \<Longrightarrow> deadline_ok ex \<Longrightarrow>
      \<exists>s'. put k v ex s = Some s' \<and> good s' \<and> seen s' k = Some (v, ex)
      \<and> (\<forall>k'. k' \<noteq> k \<longrightarrow> seen s' k' = seen s k' \<or> seen s' k' = None)"
    and fetch_law: "good s \<Longrightarrow>
      \<exists>s'. fetch t k s = Some (s', if live t (seen s k) then map_option fst (seen s k) else None)
        \<and> good s' \<and> seen s' = (if live t (seen s k) then seen s else (seen s)(k := None))"
    and remove_law: "good s \<Longrightarrow> \<exists>s'. remove t k s = Some (s', live t (seen s k)) \<and> good s'
      \<and> seen s' = (seen s)(k := None)"
    and expire_law: "good s \<Longrightarrow> 0 \<le> n \<Longrightarrow> time_add_seconds t' n = Some d \<Longrightarrow>
      \<exists>s'. expire_in t t' k n s = Some (s', live t (seen s k)) \<and> good s'
        \<and> seen s' = (seen s)(k := if live t (seen s k)
              then map_option (\<lambda>(v, _). (v, Some d)) (seen s k) else None)"
    and expire_neg: "n < 0 \<Longrightarrow> expire_in t t' k n s = Some (s, False)"
    and ttl_law: "good s \<Longrightarrow> clock_ok t \<Longrightarrow> clock_ok t' \<Longrightarrow>
      \<exists>s'. ttl_of t t' k s = Some (s', remaining t t' (seen s k)) \<and> good s'
        \<and> seen s' = (if live t (seen s k) then seen s else (seen s)(k := None))"
begin

lemma put_fetch:
  assumes "good s"
  shows "\<exists>s1 s2. put k v None s = Some s1 \<and> fetch t k s1 = Some (s2, Some v) \<and> good s2"
proof -
  obtain s1 where s1: "put k v None s = Some s1" "good s1" "seen s1 k = Some (v, None)"
    using put_law [OF assms, of None k v] by auto
  then show ?thesis using fetch_law [OF s1(2), of t k] by auto
qed

lemma put_frame:
  assumes "good s" and "deadline_ok ex" and "put k v ex s = Some s'" and "k' \<noteq> k"
  shows "seen s' k' = seen s k' \<or> seen s' k' = None"
  using put_law [OF assms(1,2), of k v] assms(3,4) by auto

lemma remove_fetch:
  assumes "good s"
  shows "\<exists>s1 s2. remove t k s = Some (s1, live t (seen s k)) \<and> fetch t' k s1 = Some (s2, None)"
proof -
  obtain s1 where s1: "remove t k s = Some (s1, live t (seen s k))" "good s1"
    "seen s1 = (seen s)(k := None)"
    using remove_law [OF assms] by blast
  then show ?thesis using fetch_law [OF s1(2), of t' k] by auto
qed

lemma fetch_keeps_others:
  assumes "good s" and "fetch t k s = Some (s', r)" and "k' \<noteq> k"
  shows "seen s' k' = seen s k'"
  using fetch_law [OF assms(1), of t k] assms(2,3) by (auto split: if_splits)

text \<open>A live key given \<open>n\<close> seconds at time \<open>t'\<close> is found before its deadline and not after.\<close>

lemma expire_fetch:
  assumes "good s" and "seen s k = Some (v, ex)" and "live t (seen s k)" and "0 \<le> n"
    and "time_add_seconds t' n = Some d"
  shows "\<exists>s1 s2. expire_in t t' k n s = Some (s1, True)
    \<and> fetch t'' k s1 = Some (s2, if t'' < d then Some v else None)"
proof -
  obtain s1 where s1: "expire_in t t' k n s = Some (s1, live t (seen s k))" "good s1"
    and v: "seen s1 = (seen s)(k := if live t (seen s k)
              then map_option (\<lambda>(v, _). (v, Some d)) (seen s k) else None)"
    using expire_law [OF assms(1,4,5)] by blast
  from v assms(2,3) have "seen s1 k = Some (v, Some d)" by simp
  then show ?thesis using s1 assms(3) fetch_law [OF s1(2), of t'' k] by auto
qed

text \<open>After \<open>expire\<close> with \<open>n\<close> seconds, \<open>ttl\<close> reports the whole seconds left.\<close>

lemma expire_ttl:
  assumes "good s" and "live t (seen s k)" and "0 \<le> n" and d: "time_add_seconds t' n = Some d"
    and "u < d" and clk: "clock_ok u" "clock_ok u'"
  shows "\<exists>s1 s2. expire_in t t' k n s = Some (s1, True)
    \<and> ttl_of u u' k s1 = Some (s2, max 0 ((t' + n * ns_per_s - u') div ns_per_s))"
proof -
  obtain v ex where vx: "seen s k = Some (v, ex)"
    using assms(2) by (cases "seen s k") auto
  obtain s1 where s1: "expire_in t t' k n s = Some (s1, live t (seen s k))" "good s1"
    and v: "seen s1 = (seen s)(k := if live t (seen s k)
              then map_option (\<lambda>(v, _). (v, Some d)) (seen s k) else None)"
    using expire_law [OF assms(1,3) d] by blast
  from v vx assms(2) have k: "seen s1 k = Some (v, Some d)" by simp
  have "d = t' + n * ns_per_s" using d by (auto simp: time_add_seconds_def split: if_splits)
  with k s1 assms(2,5) show ?thesis
    using ttl_law [OF s1(2) clk, of k] by (auto simp: remaining_def)
qed

text \<open>Once its deadline has passed a key is gone for every operation, whatever the later time.\<close>

lemma stale_is_absent:
  assumes "good s" and "stale t (seen s k)" and "t \<le> t'" and clk: "clock_ok t'" "clock_ok t''"
  shows "\<exists>s1. fetch t' k s = Some (s1, None) \<and> seen s1 k = None"
    and "\<exists>s1. remove t' k s = Some (s1, False) \<and> seen s1 k = None"
    and "\<exists>s1. ttl_of t' t'' k s = Some (s1, -2) \<and> seen s1 k = None"
proof -
  have dead: "\<not> live t' (seen s k)"
    using assms(2,3) live_antimono by (auto simp: stale_def)
  show "\<exists>s1. fetch t' k s = Some (s1, None) \<and> seen s1 k = None"
    using fetch_law [OF assms(1), of t' k] dead by auto
  show "\<exists>s1. remove t' k s = Some (s1, False) \<and> seen s1 k = None"
    using remove_law [OF assms(1), of t' k] dead by auto
  show "\<exists>s1. ttl_of t' t'' k s = Some (s1, -2) \<and> seen s1 k = None"
    using ttl_law [OF assms(1) clk, of k] dead by (auto simp: remaining_def)
qed

end

end
