(* ===== verification/LRU_Shard.thy ===== *)
theory LRU_Shard
  imports KV_Store
begin

text \<open>
  One shard of \<open>ShardedStorage\<close> (\<open>include/storage/sharded_storage.h\<close> and the shard part
  of \<open>src/storage/sharded_storage.cpp\<close>): the hash map \<open>data\<close>, the recency list
  \<open>lru_order\<close> (front is most recently used), and in every entry an iterator into that
  list. Every operation runs with the shard's mutex held, so it is one atomic function on the
  shard and the two atomic counters. \<open>data\<close> is an association list: its order carries no
  meaning (the sweep takes the hash map's iteration order as an argument). An iterator into
  \<open>data\<close> is the key it points at.

  The invariant \<open>shard_ok\<close> says that the map and the list describe the same keys and that
  every stored iterator is valid and points at its own key. The operations are shown to be
  free of undefined behaviour under it and to implement an abstract LRU cache.
\<close>

record Entry =
  entry_value :: string
  expires_at :: "time_point option"
  lru_iter :: node

record Shard =
  data :: "(string \<times> Entry) list"
  lru_order :: "string node_list"

record Metrics =
  expired_keys :: size_t
  evicted_keys :: size_t

type_synonym shard_st = "Shard \<times> Metrics"

definition isExpired :: "time_point \<Rightarrow> Entry \<Rightarrow> bool" where
  "isExpired now entry = (case expires_at entry of None \<Rightarrow> False | Some d \<Rightarrow> now \<ge> d)"

definition removeExpiredEntry :: "string \<Rightarrow> shard_st \<Rightarrow> shard_st option" where
  "removeExpiredEntry key = (\<lambda>(shard, m). do {
     it \<leftarrow> map_of (data shard) key;
     lru \<leftarrow> list_erase (lru_iter it) (lru_order shard);
     Some (shard\<lparr>data := AList.delete key (data shard), lru_order := lru\<rparr>,
           m\<lparr>expired_keys := expired_keys m + 1\<rparr>)
   })"

text \<open>The eviction loop: \<open>back()\<close> and \<open>pop_back()\<close> of an empty list are undefined.\<close>

function evictIfNeeded :: "nat \<Rightarrow> shard_st \<Rightarrow> shard_st option" where
  "evictIfNeeded max_keys_per_shard (shard, m) =
     (if length (data shard) \<ge> max_keys_per_shard then
        (case list_back (lru_order shard) of None \<Rightarrow> None
         | Some lru_key \<Rightarrow>
            (case list_pop_back (lru_order shard) of None \<Rightarrow> None
             | Some lru \<Rightarrow> evictIfNeeded max_keys_per_shard
                 (shard\<lparr>data := AList.delete lru_key (data shard), lru_order := lru\<rparr>,
                  m\<lparr>evicted_keys := evicted_keys m + 1\<rparr>)))
      else Some (shard, m))"
  by pat_completeness auto
termination
  by (relation "measure (\<lambda>(c, shard, m). length (lru_order shard))")
     (auto simp: list_back_def list_pop_back_def split: if_splits)

declare evictIfNeeded.simps [simp del]

definition insertOrUpdate ::
  "nat \<Rightarrow> string \<Rightarrow> string \<Rightarrow> time_point option \<Rightarrow> shard_st \<Rightarrow> shard_st option" where
  "insertOrUpdate max_keys_per_shard key val expires st =
     (case map_of (data (fst st)) key of
        Some it \<Rightarrow> do {
          lru \<leftarrow> list_splice_front (lru_iter it) (lru_order (fst st));
          Some ((fst st)\<lparr>data := AList.update key (it\<lparr>entry_value := val, expires_at := expires\<rparr>)
                            (data (fst st)),
                         lru_order := lru\<rparr>, snd st) }
      | None \<Rightarrow> do {
          (shard, m) \<leftarrow> evictIfNeeded max_keys_per_shard st;
          let lru = list_push_front key (lru_order shard);
          Some (shard\<lparr>data := AList.update key
                           \<lparr>entry_value = val, expires_at = expires, lru_iter = fst (hd lru)\<rparr>
                           (data shard),
                      lru_order := lru\<rparr>, m) })"

text \<open>The bodies of the public operations, from the lookup on (the shard is already chosen and
  locked). \<open>now\<close> is what \<open>steady_clock::now()\<close> returns in \<open>isExpired\<close>, \<open>now'\<close> what
  a second call in the same body returns.\<close>

definition shard_set :: "nat \<Rightarrow> string \<Rightarrow> string \<Rightarrow> shard_st \<Rightarrow> shard_st option" where
  "shard_set cap key val st = insertOrUpdate cap key val None st"

definition shard_setWithTTL ::
  "nat \<Rightarrow> time_point \<Rightarrow> string \<Rightarrow> string \<Rightarrow> int \<Rightarrow> shard_st \<Rightarrow> shard_st option" where
  "shard_setWithTTL cap now key val seconds st =
     (if seconds < 0 then insertOrUpdate cap key val None st
      else do { d \<leftarrow> time_add_seconds now seconds; insertOrUpdate cap key val (Some d) st })"

definition shard_get ::
  "time_point \<Rightarrow> string \<Rightarrow> shard_st \<Rightarrow> (shard_st \<times> string option) option" where
  "shard_get now key st =
     (case map_of (data (fst st)) key of
        None \<Rightarrow> Some (st, None)
      | Some it \<Rightarrow>
          if isExpired now it then do { st' \<leftarrow> removeExpiredEntry key st; Some (st', None) }
          else do {
            lru \<leftarrow> list_splice_front (lru_iter it) (lru_order (fst st));
            Some (((fst st)\<lparr>lru_order := lru\<rparr>, snd st), Some (entry_value it)) })"

definition shard_del :: "time_point \<Rightarrow> string \<Rightarrow> shard_st \<Rightarrow> (shard_st \<times> bool) option" where
  "shard_del now key st =
     (case map_of (data (fst st)) key of
        None \<Rightarrow> Some (st, False)
      | Some it \<Rightarrow>
          if isExpired now it then do { st' \<leftarrow> removeExpiredEntry key st; Some (st', False) }
          else do {
            lru \<leftarrow> list_erase (lru_iter it) (lru_order (fst st));
            Some (((fst st)\<lparr>data := AList.delete key (data (fst st)), lru_order := lru\<rparr>, snd st),
                  True) })"

definition shard_expire ::
  "time_point \<Rightarrow> time_point \<Rightarrow> string \<Rightarrow> int \<Rightarrow> shard_st \<Rightarrow> (shard_st \<times> bool) option" where
  "shard_expire now now' key seconds st =
     (if seconds < 0 then Some (st, False)
      else case map_of (data (fst st)) key of
        None \<Rightarrow> Some (st, False)
      | Some it \<Rightarrow>
          if isExpired now it then do { st' \<leftarrow> removeExpiredEntry key st; Some (st', False) }
          else do {
            d \<leftarrow> time_add_seconds now' seconds;
            Some (((fst st)\<lparr>data := AList.update key (it\<lparr>expires_at := Some d\<rparr>) (data (fst st))\<rparr>,
                   snd st), True) })"

definition shard_ttl ::
  "time_point \<Rightarrow> time_point \<Rightarrow> string \<Rightarrow> shard_st \<Rightarrow> (shard_st \<times> int) option" where
  "shard_ttl now now' key st =
     (case map_of (data (fst st)) key of
        None \<Rightarrow> Some (st, -2)
      | Some it \<Rightarrow>
          if isExpired now it then do { st' \<leftarrow> removeExpiredEntry key st; Some (st', -2) }
          else (case expires_at it of
              None \<Rightarrow> Some (st, -1)
            | Some d \<Rightarrow> do {
                diff \<leftarrow> time_diff d now';
                let remaining = to_seconds diff;
                Some (st, if remaining > 0 then remaining else 0) }))"

text \<open>The background sweep of one shard. \<open>order\<close> is the hash map's iteration order (erasing
  an element keeps the order of the others); at most \<open>MAX_SCAN_PER_SWEEP\<close> elements are
  looked at, always from the start.\<close>

definition MAX_SCAN_PER_SWEEP :: nat where
  "MAX_SCAN_PER_SWEEP = 100"

definition sweep_entry :: "time_point \<Rightarrow> string \<Rightarrow> shard_st \<Rightarrow> shard_st option" where
  "sweep_entry now key = (\<lambda>(shard, m). do {
     it \<leftarrow> map_of (data shard) key;
     (if isExpired now it then do {
        lru \<leftarrow> list_erase (lru_iter it) (lru_order shard);
        Some (shard\<lparr>data := AList.delete key (data shard), lru_order := lru\<rparr>,
              m\<lparr>expired_keys := expired_keys m + 1\<rparr>) }
      else Some (shard, m)) })"

definition sweepShard :: "time_point \<Rightarrow> string list \<Rightarrow> shard_st \<Rightarrow> shard_st option" where
  "sweepShard now order st = foldM (sweep_entry now) (take MAX_SCAN_PER_SWEEP order) st"

definition empty_shard :: Shard where
  "empty_shard = \<lparr>data = [], lru_order = []\<rparr>"

lemmas shard_op_defs = shard_set_def shard_setWithTTL_def shard_get_def shard_del_def
  shard_expire_def shard_ttl_def insertOrUpdate_def removeExpiredEntry_def

subsection \<open>The invariant\<close>

definition lru_ok :: "(string \<times> Entry) list \<Rightarrow> string node_list \<Rightarrow> bool" where
  "lru_ok d l \<longleftrightarrow>
     distinct (map fst d) \<and> distinct (map fst l) \<and> distinct (map snd l)
     \<and> set (map snd l) = set (map fst d)
     \<and> (\<forall>(k, e) \<in> set d. (lru_iter e, k) \<in> set l)"

definition deadlines_ok :: "(string \<times> Entry) list \<Rightarrow> bool" where
  "deadlines_ok d \<longleftrightarrow> (\<forall>e \<in> snd ` set d. deadline_ok (expires_at e))"

definition shard_ok :: "nat \<Rightarrow> Shard \<Rightarrow> bool" where
  "shard_ok cap s \<longleftrightarrow> lru_ok (data s) (lru_order s) \<and> length (data s) \<le> cap \<and> 1 \<le> cap
     \<and> deadlines_ok (data s)"

lemma deadlines_ok_delete: "deadlines_ok d \<Longrightarrow> deadlines_ok (AList.delete k d)"
  by (auto simp: deadlines_ok_def AList.delete_eq)

lemma deadlines_ok_update:
  "deadlines_ok d \<Longrightarrow> deadline_ok (expires_at e) \<Longrightarrow> deadlines_ok (AList.update k e d)"
  by (induction d) (auto simp: deadlines_ok_def)

lemma lru_ok_distinct:
  assumes "lru_ok d l"
  shows "distinct (map fst d)" "distinct (map fst l)" "distinct (map snd l)"
    "snd ` set l = fst ` set d"
  using assms by (simp_all add: lru_ok_def)

lemma lru_ok_mem: "lru_ok d l \<Longrightarrow> (k, e) \<in> set d \<Longrightarrow> (lru_iter e, k) \<in> set l"
  by (auto simp: lru_ok_def)

lemma lru_okI:
  assumes "distinct (map fst d)" "distinct (map fst l)" "distinct (map snd l)"
    "snd ` set l = fst ` set d" "\<And>k e. (k, e) \<in> set d \<Longrightarrow> (lru_iter e, k) \<in> set l"
  shows "lru_ok d l"
  using assms by (auto simp: lru_ok_def)

lemma lru_ok_iter:
  assumes "lru_ok d l" and "map_of d k = Some e"
  shows "map_of l (lru_iter e) = Some k"
proof -
  have "(lru_iter e, k) \<in> set l" by (rule lru_ok_mem [OF assms(1) map_of_SomeD [OF assms(2)]])
  then show ?thesis by (rule map_of_is_SomeI [OF lru_ok_distinct(2) [OF assms(1)]])
qed

lemma lru_ok_length:
  assumes "lru_ok d l"
  shows "length l = length d"
proof -
  note dis = lru_ok_distinct [OF assms]
  have "card (snd ` set l) = length l" using distinct_card [OF dis(3)] by simp
  moreover have "card (fst ` set d) = length d" using distinct_card [OF dis(1)] by simp
  ultimately show ?thesis using dis(4) by simp
qed

text \<open>In a list without repeated elements, deleting a node removes exactly its element.\<close>

lemma snd_delete:
  assumes "distinct (map fst l)" and "distinct (map snd l)" and "(n, k) \<in> set l"
  shows "map snd (AList.delete n l) = remove1 k (map snd l)"
  using assms
proof (induction l)
  case (Cons p l)
  show ?case
  proof (cases "p = (n, k)")
    case True
    with Cons.prems have "AList.delete n l = l" by (auto simp: AList.delete_idem)
    with True show ?thesis by simp
  next
    case False
    with Cons.prems have mem: "(n, k) \<in> set l" by simp
    then have "n \<in> fst ` set l" "k \<in> snd ` set l" by (metis fst_conv snd_conv imageI)+
    with Cons.prems(1,2) have "fst p \<noteq> n" "snd p \<noteq> k" by auto
    with Cons mem show ?thesis by simp
  qed
qed simp

lemma delete_snoc: "n \<notin> fst ` set xs \<Longrightarrow> fst p = n \<Longrightarrow> AList.delete n (xs @ [p]) = xs"
  by (induction xs) auto

lemma mem_delete: "(a, b) \<in> set (AList.delete n l) \<longleftrightarrow> (a, b) \<in> set l \<and> a \<noteq> n"
  by (auto simp: AList.delete_eq)

lemma lru_ok_remove:
  assumes ok: "lru_ok d l" and e: "map_of d k = Some e"
  shows "lru_ok (AList.delete k d) (AList.delete (lru_iter e) l)"
proof (rule lru_okI)
  note dis = lru_ok_distinct [OF ok]
  have n: "(lru_iter e, k) \<in> set l" by (rule lru_ok_mem [OF ok map_of_SomeD [OF e]])
  have snd: "map snd (AList.delete (lru_iter e) l) = remove1 k (map snd l)"
    by (rule snd_delete [OF dis(2,3) n])
  show "distinct (map fst (AList.delete k d))" "distinct (map fst (AList.delete (lru_iter e) l))"
    using dis by (simp_all add: AList.distinct_delete)
  show "distinct (map snd (AList.delete (lru_iter e) l))"
    unfolding snd by (rule distinct_remove1 [OF dis(3)])
  have "set (map snd (AList.delete (lru_iter e) l)) = set (map snd l) - {k}"
    unfolding snd by (rule set_remove1_eq [OF dis(3)])
  then show "snd ` set (AList.delete (lru_iter e) l) = fst ` set (AList.delete k d)"
    using dis(4) by simp
  fix k' e'
  assume "(k', e') \<in> set (AList.delete k d)"
  then have d: "(lru_iter e', k') \<in> set l" "k' \<noteq> k"
    using lru_ok_mem [OF ok] by (auto simp: mem_delete)
  with n dis(2) have "lru_iter e' \<noteq> lru_iter e" by (metis eq_key_imp_eq_value)
  with d show "(lru_iter e', k') \<in> set (AList.delete (lru_iter e) l)" by (simp add: mem_delete)
qed

lemma lru_ok_touch:
  assumes ok: "lru_ok d l" and n: "(n, k) \<in> set l"
  shows "lru_ok d ((n, k) # AList.delete n l)"
proof (rule lru_okI)
  note dis = lru_ok_distinct [OF ok]
  have snd: "map snd (AList.delete n l) = remove1 k (map snd l)"
    by (rule snd_delete [OF dis(2,3) n])
  show "distinct (map fst d)" by (rule dis)
  show "distinct (map fst ((n, k) # AList.delete n l))"
    using dis(2) by (simp add: AList.distinct_delete)
  show "distinct (map snd ((n, k) # AList.delete n l))"
    using dis(3) by (simp add: snd)
  have "set (map snd (AList.delete n l)) = set (map snd l) - {k}"
    unfolding snd by (rule set_remove1_eq [OF dis(3)])
  moreover have "k \<in> snd ` set l" using n by force
  ultimately show "snd ` set ((n, k) # AList.delete n l) = fst ` set d"
    using dis(4) by auto
  fix k' e'
  assume "(k', e') \<in> set d"
  then have "(lru_iter e', k') \<in> set l" by (rule lru_ok_mem [OF ok])
  with n dis(2) show "(lru_iter e', k') \<in> set ((n, k) # AList.delete n l)"
    by (auto simp: mem_delete dest: eq_key_imp_eq_value)
qed

lemma lru_ok_update:
  assumes ok: "lru_ok d l" and e: "map_of d k = Some e" and "lru_iter e' = lru_iter e"
  shows "lru_ok (AList.update k e' d) l"
proof (rule lru_okI)
  note dis = lru_ok_distinct [OF ok]
  show d: "distinct (map fst (AList.update k e' d))"
    using dis(1) by (rule AList.distinct_update)
  show "distinct (map fst l)" "distinct (map snd l)" by (rule dis)+
  have "k \<in> fst ` set d" using e by (force dest: map_of_SomeD)
  then show "snd ` set l = fst ` set (AList.update k e' d)"
    using dis(4) by (auto simp: keys_update)
  fix k' x
  assume "(k', x) \<in> set (AList.update k e' d)"
  then have "map_of (AList.update k e' d) k' = Some x" by (rule map_of_is_SomeI [OF d])
  then have "k' = k \<and> x = e' \<or> map_of d k' = Some x"
    by (simp add: AList.update_conv split: if_splits)
  then show "(lru_iter x, k') \<in> set l"
    using lru_ok_mem [OF ok] map_of_SomeD [OF e] assms(3) by (auto dest: map_of_SomeD)
qed

lemma lru_ok_insert:
  assumes ok: "lru_ok d l" and k: "k \<notin> fst ` set d" and "n \<notin> fst ` set l" and "lru_iter e = n"
  shows "lru_ok (AList.update k e d) ((n, k) # l)"
proof (rule lru_okI)
  note dis = lru_ok_distinct [OF ok]
  show d: "distinct (map fst (AList.update k e d))"
    using dis(1) by (rule AList.distinct_update)
  show "distinct (map fst ((n, k) # l))" using dis(2) assms(3) by simp
  show "distinct (map snd ((n, k) # l))" using dis(3,4) k by simp
  show "snd ` set ((n, k) # l) = fst ` set (AList.update k e d)"
    using dis(4) by (simp add: keys_update)
  fix k' x
  assume "(k', x) \<in> set (AList.update k e d)"
  then have "map_of (AList.update k e d) k' = Some x" by (rule map_of_is_SomeI [OF d])
  then have "k' = k \<and> x = e \<or> map_of d k' = Some x"
    by (simp add: AList.update_conv split: if_splits)
  then show "(lru_iter x, k') \<in> set ((n, k) # l)"
    using lru_ok_mem [OF ok] assms(4) by (auto dest: map_of_SomeD)
qed

text \<open>The last node of the list belongs to the entry of its key.\<close>

lemma lru_ok_last:
  assumes ok: "lru_ok d l" and "l \<noteq> []"
  obtains e where "map_of d (snd (last l)) = Some e" and "lru_iter e = fst (last l)"
    and "AList.delete (lru_iter e) l = butlast l"
proof -
  note dis = lru_ok_distinct [OF ok]
  have mem: "(fst (last l), snd (last l)) \<in> set l" using assms(2) by simp
  then have "snd (last l) \<in> fst ` set d" using dis(4) by force
  then obtain e where e: "map_of d (snd (last l)) = Some e"
    by (metis map_of_eq_None_iff not_None_eq)
  have "(lru_iter e, snd (last l)) \<in> set l" by (rule lru_ok_mem [OF ok map_of_SomeD [OF e]])
  moreover have "inj_on snd (set l)" using dis(3) by (simp add: distinct_map)
  ultimately have "(lru_iter e, snd (last l)) = (fst (last l), snd (last l))"
    using mem by (metis inj_onD snd_conv)
  then have iter: "lru_iter e = fst (last l)" by (rule Pair_inject)
  have l: "butlast l @ [last l] = l" using assms(2) by simp
  have "distinct (map fst (butlast l @ [last l]))" using dis(2) by (simp only: l)
  then have "AList.delete (fst (last l)) (butlast l @ [last l]) = butlast l"
    by (intro delete_snoc) auto
  then have "AList.delete (lru_iter e) l = butlast l" by (simp only: iter l)
  then show thesis by (rule that [OF e iter])
qed

subsection \<open>The abstract cache\<close>

text \<open>What a shard promises: a finite map with a recency order. A key whose deadline has passed
  counts as absent, and is dropped by the operation that meets it.\<close>

record Cache =
  cmap :: "string \<Rightarrow> seen_value"
  recency :: "string list"

definition cache_remove :: "string \<Rightarrow> Cache \<Rightarrow> Cache" where
  "cache_remove k c = c\<lparr>cmap := (cmap c)(k := None), recency := remove1 k (recency c)\<rparr>"

definition cache_touch :: "string \<Rightarrow> Cache \<Rightarrow> Cache" where
  "cache_touch k c = c\<lparr>recency := k # remove1 k (recency c)\<rparr>"

definition cache_evict :: "nat \<Rightarrow> Cache \<Rightarrow> Cache" where
  "cache_evict cap c = (if length (recency c) \<ge> cap then cache_remove (last (recency c)) c else c)"

definition cache_put ::
  "nat \<Rightarrow> string \<Rightarrow> string \<Rightarrow> time_point option \<Rightarrow> Cache \<Rightarrow> Cache" where
  "cache_put cap k v ex c =
     (let c' = (if cmap c k = None then cache_evict cap c else c)
      in \<lparr>cmap = (cmap c')(k \<mapsto> (v, ex)), recency = k # remove1 k (recency c')\<rparr>)"

definition cache_get :: "time_point \<Rightarrow> string \<Rightarrow> Cache \<Rightarrow> Cache \<times> string option" where
  "cache_get now k c =
     (if live now (cmap c k) then (cache_touch k c, map_option fst (cmap c k))
      else (cache_remove k c, None))"

definition cache_del :: "time_point \<Rightarrow> string \<Rightarrow> Cache \<Rightarrow> Cache \<times> bool" where
  "cache_del now k c = (cache_remove k c, live now (cmap c k))"

definition cache_expire :: "time_point \<Rightarrow> string \<Rightarrow> time_point \<Rightarrow> Cache \<Rightarrow> Cache \<times> bool" where
  "cache_expire now k d c =
     (if live now (cmap c k)
      then (c\<lparr>cmap := (cmap c)(k := map_option (\<lambda>(v, _). (v, Some d)) (cmap c k))\<rparr>, True)
      else (cache_remove k c, False))"

definition cache_ttl :: "time_point \<Rightarrow> time_point \<Rightarrow> string \<Rightarrow> Cache \<Rightarrow> Cache \<times> int" where
  "cache_ttl now now' k c =
     (if live now (cmap c k)
      then (c, remaining now now' (cmap c k)) else (cache_remove k c, remaining now now' (cmap c k)))"

lemmas cache_defs = cache_remove_def cache_touch_def cache_get_def cache_del_def
  cache_expire_def cache_ttl_def

definition view :: "Shard \<Rightarrow> string \<Rightarrow> seen_value" where
  "view s k = map_option (\<lambda>e. (entry_value e, expires_at e)) (map_of (data s) k)"

definition abs_shard :: "Shard \<Rightarrow> Cache" where
  "abs_shard s = \<lparr>cmap = view s, recency = map snd (lru_order s)\<rparr>"

definition add_expired :: "bool \<Rightarrow> Metrics \<Rightarrow> Metrics" where
  "add_expired b m = (if b then m\<lparr>expired_keys := expired_keys m + 1\<rparr> else m)"

definition add_evicted :: "bool \<Rightarrow> Metrics \<Rightarrow> Metrics" where
  "add_evicted b m = (if b then m\<lparr>evicted_keys := evicted_keys m + 1\<rparr> else m)"

lemma add_metrics_simps [simp]:
  "add_expired False m = m" "add_expired True m = m\<lparr>expired_keys := expired_keys m + 1\<rparr>"
  "add_evicted False m = m" "add_evicted True m = m\<lparr>evicted_keys := evicted_keys m + 1\<rparr>"
  by (simp_all add: add_expired_def add_evicted_def)

lemma live_entry: "map_of (data s) k = Some e \<Longrightarrow> live now (view s k) = (\<not> isExpired now e)"
  by (auto simp: live_def view_def isExpired_def split: option.splits)

lemma view_None: "view s k = None \<longleftrightarrow> map_of (data s) k = None"
  by (simp add: view_def)

lemma abs_simps [simp]: "cmap (abs_shard s) = view s" "recency (abs_shard s) = map snd (lru_order s)"
  by (simp_all add: abs_shard_def)

lemma remove1_notin: "x \<notin> set xs \<Longrightarrow> remove1 x xs = xs"
  by (rule remove1_idem)

text \<open>Dropping an entry and moving one to the front, in the code and in the cache.\<close>

definition drop_entry :: "string \<Rightarrow> Entry \<Rightarrow> Shard \<Rightarrow> Shard" where
  "drop_entry k e s =
     s\<lparr>data := AList.delete k (data s), lru_order := AList.delete (lru_iter e) (lru_order s)\<rparr>"

definition touch_entry :: "string \<Rightarrow> Entry \<Rightarrow> Shard \<Rightarrow> Shard" where
  "touch_entry k e s = s\<lparr>lru_order := (lru_iter e, k) # AList.delete (lru_iter e) (lru_order s)\<rparr>"

lemma shard_okD:
  assumes "shard_ok cap s"
  shows "lru_ok (data s) (lru_order s)" "length (data s) \<le> cap" "1 \<le> cap"
    "length (lru_order s) = length (data s)" "deadlines_ok (data s)"
  using assms lru_ok_length by (auto simp: shard_ok_def)

lemma entry_steps:
  assumes "lru_ok (data s) (lru_order s)" and "map_of (data s) k = Some e"
  shows "list_erase (lru_iter e) (lru_order s) = Some (AList.delete (lru_iter e) (lru_order s))"
    and "list_splice_front (lru_iter e) (lru_order s) =
      Some ((lru_iter e, k) # AList.delete (lru_iter e) (lru_order s))"
  using lru_ok_iter [OF assms] by (simp_all add: list_erase_def list_splice_front_def)

lemma drop_entry_ok:
  assumes "lru_ok (data s) (lru_order s)" and "map_of (data s) k = Some e"
  shows "lru_ok (data (drop_entry k e s)) (lru_order (drop_entry k e s))"
    and "abs_shard (drop_entry k e s) = cache_remove k (abs_shard s)"
    and "Suc (length (data (drop_entry k e s))) = length (data s)"
proof -
  note dis = lru_ok_distinct [OF assms(1)]
  show "lru_ok (data (drop_entry k e s)) (lru_order (drop_entry k e s))"
    using lru_ok_remove [OF assms] by (simp add: drop_entry_def)
  have "(lru_iter e, k) \<in> set (lru_order s)"
    by (rule lru_ok_mem [OF assms(1) map_of_SomeD [OF assms(2)]])
  then have "map snd (AList.delete (lru_iter e) (lru_order s)) = remove1 k (map snd (lru_order s))"
    by (rule snd_delete [OF dis(2,3)])
  moreover have "view (drop_entry k e s) = (view s)(k := None)"
    by (auto simp: view_def drop_entry_def AList.delete_conv fun_eq_iff)
  ultimately show "abs_shard (drop_entry k e s) = cache_remove k (abs_shard s)"
    by (simp add: abs_shard_def cache_remove_def drop_entry_def)
  show "Suc (length (data (drop_entry k e s))) = length (data s)"
    using length_delete_mem [OF dis(1), of k] map_of_SomeD [OF assms(2)]
    by (force simp: drop_entry_def)
qed

lemma touch_entry_ok:
  assumes "lru_ok (data s) (lru_order s)" and "map_of (data s) k = Some e"
  shows "lru_ok (data s) (lru_order (touch_entry k e s))"
    and "abs_shard (touch_entry k e s) = cache_touch k (abs_shard s)"
proof -
  note dis = lru_ok_distinct [OF assms(1)]
  have mem: "(lru_iter e, k) \<in> set (lru_order s)"
    by (rule lru_ok_mem [OF assms(1) map_of_SomeD [OF assms(2)]])
  show "lru_ok (data s) (lru_order (touch_entry k e s))"
    using lru_ok_touch [OF assms(1) mem] by (simp add: touch_entry_def)
  show "abs_shard (touch_entry k e s) = cache_touch k (abs_shard s)"
    using snd_delete [OF dis(2,3) mem]
    by (simp add: abs_shard_def cache_touch_def touch_entry_def view_def fun_eq_iff)
qed

lemma removeExpired_drop:
  assumes "lru_ok (data s) (lru_order s)" and "map_of (data s) k = Some e"
  shows "removeExpiredEntry k (s, m) = Some (drop_entry k e s, add_expired True m)"
  using assms entry_steps [OF assms] by (simp add: removeExpiredEntry_def drop_entry_def)

text \<open>Removing a key that is not there changes nothing.\<close>

lemma cache_remove_absent:
  assumes "lru_ok (data s) (lru_order s)" and "map_of (data s) k = None"
  shows "cache_remove k (abs_shard s) = abs_shard s"
proof -
  have "k \<notin> snd ` set (lru_order s)"
    using lru_ok_distinct(4) [OF assms(1)] assms(2) by (simp add: map_of_eq_None_iff)
  then have "remove1 k (map snd (lru_order s)) = map snd (lru_order s)"
    by (intro remove1_idem) simp
  moreover have "(view s)(k := None) = view s" using assms(2) by (auto simp: view_def)
  ultimately show ?thesis by (simp add: cache_remove_def abs_shard_def)
qed

lemma shard_ok_drop:
  assumes "shard_ok cap s" and "map_of (data s) k = Some e"
  shows "shard_ok cap (drop_entry k e s)"
  using assms drop_entry_ok [OF shard_okD(1) [OF assms(1)] assms(2)]
    deadlines_ok_delete [OF shard_okD(5) [OF assms(1)]]
  by (simp add: shard_ok_def drop_entry_def)

lemma shard_ok_touch:
  assumes "shard_ok cap s" and "map_of (data s) k = Some e"
  shows "shard_ok cap (touch_entry k e s)"
  using assms touch_entry_ok(1) [OF shard_okD(1) [OF assms(1)] assms(2)]
  by (simp add: shard_ok_def touch_entry_def)

subsection \<open>Each operation implements the cache, without undefined behaviour\<close>

text \<open>The three situations every operation distinguishes: no entry, an entry past its deadline
  (which the operation drops), a live entry.\<close>

lemma entry_cases:
  assumes ok: "shard_ok cap s"
  obtains (absent) "map_of (data s) k = None" "\<not> live now (view s k)" "\<not> stale now (view s k)"
      "cache_remove k (abs_shard s) = abs_shard s"
  | (expired) e where "map_of (data s) k = Some e" "isExpired now e" "\<not> live now (view s k)"
      "stale now (view s k)"
      "\<And>m. removeExpiredEntry k (s, m) = Some (drop_entry k e s, add_expired True m)"
      "shard_ok cap (drop_entry k e s)"
      "abs_shard (drop_entry k e s) = cache_remove k (abs_shard s)"
  | (alive) e where "map_of (data s) k = Some e" "\<not> isExpired now e" "live now (view s k)"
      "\<not> stale now (view s k)" "view s k = Some (entry_value e, expires_at e)"
proof (cases "map_of (data s) k")
  case None
  then have "view s k = None" by (simp add: view_None)
  with None cache_remove_absent [OF shard_okD(1) [OF ok] None] show ?thesis
    by (intro absent) simp_all
next
  case (Some e)
  note lok = shard_okD(1) [OF ok]
  note live = live_entry [OF Some, of now]
  have ne: "view s k \<noteq> None" using Some by (simp add: view_None)
  show ?thesis
  proof (cases "isExpired now e")
    case True
    show ?thesis
      by (rule expired [OF Some True _ _ removeExpired_drop [OF lok Some] shard_ok_drop [OF ok Some]
            drop_entry_ok(2) [OF lok Some]]) (use True live ne in \<open>simp_all add: stale_def\<close>)
  next
    case False
    show ?thesis
      by (rule alive [OF Some False]) (use False live Some in \<open>simp_all add: stale_def view_def\<close>)
  qed
qed

lemma shard_get_refines:
  assumes ok: "shard_ok cap s"
  shows "\<exists>s'. shard_get now k (s, m) =
      Some ((s', add_expired (stale now (view s k)) m), snd (cache_get now k (abs_shard s)))
    \<and> shard_ok cap s' \<and> abs_shard s' = fst (cache_get now k (abs_shard s))"
  using ok
proof (cases rule: entry_cases [where k = k and now = now])
  case (alive e)
  note lok = shard_okD(1) [OF ok]
  show ?thesis
    using alive shard_ok_touch [OF ok alive(1)] touch_entry_ok(2) [OF lok alive(1)]
    by (simp add: shard_get_def cache_get_def entry_steps [OF lok alive(1)] touch_entry_def)
qed (use ok in \<open>simp_all add: shard_get_def cache_get_def\<close>)

lemma shard_del_refines:
  assumes ok: "shard_ok cap s"
  shows "\<exists>s'. shard_del now k (s, m) =
      Some ((s', add_expired (stale now (view s k)) m), snd (cache_del now k (abs_shard s)))
    \<and> shard_ok cap s' \<and> abs_shard s' = fst (cache_del now k (abs_shard s))"
  using ok
proof (cases rule: entry_cases [where k = k and now = now])
  case (alive e)
  note lok = shard_okD(1) [OF ok]
  show ?thesis
    using alive shard_ok_drop [OF ok alive(1)] drop_entry_ok(2) [OF lok alive(1)]
    by (simp add: shard_del_def cache_del_def entry_steps [OF lok alive(1)] drop_entry_def)
qed (use ok in \<open>simp_all add: shard_del_def cache_del_def\<close>)

text \<open>\<open>expire\<close> is defined when the new deadline fits the clock's 64 bits (or is not needed).\<close>

lemma shard_expire_refines:
  assumes ok: "shard_ok cap s" and "0 \<le> secs" and d: "time_add_seconds now' secs = Some d"
  shows "\<exists>s'. shard_expire now now' k secs (s, m) =
      Some ((s', add_expired (stale now (view s k)) m), snd (cache_expire now k d (abs_shard s)))
    \<and> shard_ok cap s' \<and> abs_shard s' = fst (cache_expire now k d (abs_shard s))"
  using ok
proof (cases rule: entry_cases [where k = k and now = now])
  case (alive e)
  note lok = shard_okD(1) [OF ok]
  let ?e = "e\<lparr>expires_at := Some d\<rparr>"
  let ?s = "s\<lparr>data := AList.update k ?e (data s)\<rparr>"
  have k: "k \<in> fst ` set (data s)" using map_of_SomeD [OF alive(1)] by force
  have "shard_ok cap ?s"
    using lru_ok_update [OF lok alive(1), of ?e] length_update_old [OF k] ok time_add_ok [OF d]
    by (simp add: shard_ok_def deadlines_ok_update)
  moreover have "view ?s = (view s)(k \<mapsto> (entry_value e, Some d))"
    by (auto simp: view_def AList.update_conv fun_eq_iff)
  ultimately show ?thesis
    using alive assms(2) d by (simp add: shard_expire_def cache_expire_def abs_shard_def)
qed (use ok assms(2) in \<open>simp_all add: shard_expire_def cache_expire_def\<close>)

lemma shard_expire_negative: "secs < 0 \<Longrightarrow> shard_expire now now' k secs st = Some (st, False)"
  by (simp add: shard_expire_def)

lemma shard_ttl_refines:
  assumes ok: "shard_ok cap s" and clk: "clock_ok now" "clock_ok now'"
  shows "\<exists>s'. shard_ttl now now' k (s, m) =
      Some ((s', add_expired (stale now (view s k)) m), snd (cache_ttl now now' k (abs_shard s)))
    \<and> shard_ok cap s' \<and> abs_shard s' = fst (cache_ttl now now' k (abs_shard s))"
  using ok
proof (cases rule: entry_cases [where k = k and now = now])
  case (alive e)
  have secs: "(if to_seconds x > 0 then to_seconds x else 0) = max 0 (x div ns_per_s)" for x
    using to_seconds_nonneg [of x] to_seconds_neg [of x] by (cases "0 \<le> x") (auto simp: max_def)
  show ?thesis
  proof (cases "expires_at e")
    case None
    with alive ok show ?thesis by (simp add: shard_ttl_def cache_ttl_def remaining_def)
  next
    case (Some d)
    with shard_okD(5) [OF ok] map_of_SomeD [OF alive(1)] have "int64_ok d"
      by (force simp: deadlines_ok_def)
    with alive Some have "int64_ok (d - now')" by (intro time_diff_fits [OF clk]) simp_all
    with alive ok Some show ?thesis
      by (simp add: shard_ttl_def cache_ttl_def remaining_def time_diff_def secs Let_def)
  qed
qed (use ok in \<open>simp_all add: shard_ttl_def cache_ttl_def remaining_def\<close>)

lemma evict_below: "length (data s) < cap \<Longrightarrow> evictIfNeeded cap (s, m) = Some (s, m)"
  by (subst evictIfNeeded.simps) simp

lemma evict_refines:
  assumes ok: "shard_ok cap s"
  shows "\<exists>s'. evictIfNeeded cap (s, m) = Some (s', add_evicted (cap \<le> length (data s)) m)
    \<and> lru_ok (data s') (lru_order s') \<and> length (data s') < cap \<and> deadlines_ok (data s')
    \<and> abs_shard s' = cache_evict cap (abs_shard s)"
proof (cases "length (data s) < cap")
  case True
  with ok show ?thesis by (simp add: evict_below cache_evict_def shard_okD)
next
  case False
  note okD = shard_okD [OF ok]
  with False have full: "length (data s) = cap" and ne: "lru_order s \<noteq> []" by auto
  obtain e where e: "map_of (data s) (snd (last (lru_order s))) = Some e"
    and del: "AList.delete (lru_iter e) (lru_order s) = butlast (lru_order s)"
    by (rule lru_ok_last [OF okD(1) ne])
  let ?s = "drop_entry (snd (last (lru_order s))) e s"
  have len: "length (data ?s) < cap" using drop_entry_ok(3) [OF okD(1) e] full by simp
  have "evictIfNeeded cap (s, m) = evictIfNeeded cap (?s, add_evicted True m)"
    using False ne del
    by (subst evictIfNeeded.simps) (simp add: list_back_def list_pop_back_def drop_entry_def)
  then show ?thesis
    using len False drop_entry_ok(1,2) [OF okD(1) e] ne okD full
      deadlines_ok_delete [OF okD(5), of "snd (last (lru_order s))"]
    by (simp add: evict_below cache_evict_def last_map) (simp add: drop_entry_def)
qed

lemma insertOrUpdate_refines:
  assumes ok: "shard_ok cap s" and ex: "deadline_ok ex"
  shows "\<exists>s'. insertOrUpdate cap k v ex (s, m) =
      Some (s', add_evicted (view s k = None \<and> cap \<le> length (data s)) m)
    \<and> shard_ok cap s' \<and> abs_shard s' = cache_put cap k v ex (abs_shard s)"
proof (cases "map_of (data s) k")
  case None
  obtain s1 where s1: "evictIfNeeded cap (s, m) = Some (s1, add_evicted (cap \<le> length (data s)) m)"
    and lok: "lru_ok (data s1) (lru_order s1)" and len: "length (data s1) < cap"
    and dl: "deadlines_ok (data s1)"
    and abs: "abs_shard s1 = cache_evict cap (abs_shard s)"
    using evict_refines [OF ok] by blast
  let ?n = "fresh_node (lru_order s1)"
  let ?e = "\<lparr>entry_value = v, expires_at = ex, lru_iter = ?n\<rparr>"
  let ?s = "s1\<lparr>data := AList.update k ?e (data s1), lru_order := (?n, k) # lru_order s1\<rparr>"
  have vk: "view s k = None" using None by (simp add: view_None)
  have "view s1 = cmap (cache_evict cap (abs_shard s))" using abs by (metis abs_simps(1))
  then have "view s1 k = None" using vk by (simp add: cache_evict_def cache_remove_def)
  then have k: "k \<notin> fst ` set (data s1)" by (simp add: view_None map_of_eq_None_iff)
  have "lru_ok (data ?s) (lru_order ?s)"
    using lru_ok_insert [OF lok k fresh_node_fresh, of ?e] by simp
  moreover have "length (data ?s) \<le> cap" using len length_update_new [OF k] by simp
  ultimately have ok': "shard_ok cap ?s"
    using ok ex dl by (simp add: shard_ok_def deadlines_ok_update)
  have "view ?s = (view s1)(k \<mapsto> (v, ex))"
    by (auto simp: view_def AList.update_conv fun_eq_iff)
  moreover have "k \<notin> set (map snd (lru_order s1))"
    using lru_ok_distinct(4) [OF lok] k by simp
  ultimately have "abs_shard ?s = cache_put cap k v ex (abs_shard s)"
    using vk abs [symmetric] by (simp add: cache_put_def Let_def remove1_idem)
  with ok' s1 None vk show ?thesis by (simp add: insertOrUpdate_def list_push_front_def Let_def)
next
  case (Some e)
  note lok = shard_okD(1) [OF ok]
  let ?e = "e\<lparr>entry_value := v, expires_at := ex\<rparr>"
  let ?s = "(touch_entry k e s)\<lparr>data := AList.update k ?e (data s)\<rparr>"
  have k: "k \<in> fst ` set (data s)" using map_of_SomeD [OF Some] by force
  have "lru_ok (data ?s) (lru_order ?s)"
    using lru_ok_update [OF touch_entry_ok(1) [OF lok Some] Some, of ?e]
    by (simp add: touch_entry_def)
  then have ok': "shard_ok cap ?s"
    using ok ex length_update_old [OF k]
    by (simp add: shard_ok_def touch_entry_def deadlines_ok_update)
  have vk: "view s k \<noteq> None" using Some by (simp add: view_None)
  have "view ?s = (view s)(k \<mapsto> (v, ex))"
    by (auto simp: view_def AList.update_conv touch_entry_def fun_eq_iff)
  then have abs': "abs_shard ?s = cache_put cap k v ex (abs_shard s)"
    using vk arg_cong [OF touch_entry_ok(2) [OF lok Some], of recency]
    by (auto simp: cache_put_def Let_def cache_touch_def abs_shard_def)
  have op: "insertOrUpdate cap k v ex (s, m) = Some (?s, m)"
    using Some entry_steps(2) [OF lok Some] by (simp add: insertOrUpdate_def touch_entry_def)
  from vk have nf: "(view s k = None \<and> cap \<le> length (data s)) = False" by simp
  show ?thesis unfolding nf add_metrics_simps using op ok' abs' by blast
qed

subsection \<open>The sweep\<close>

lemma sweep_entry_steps:
  assumes ok: "shard_ok cap s" and "k \<in> fst ` set (data s)"
  shows "\<exists>s'. sweep_entry now k (s, m) = Some (s', add_expired (stale now (view s k)) m)
    \<and> shard_ok cap s' \<and> fst ` set (data s) - {k} \<subseteq> fst ` set (data s')
    \<and> abs_shard s' = (if stale now (view s k) then cache_remove k (abs_shard s) else abs_shard s)"
  using ok
proof (cases rule: entry_cases [where k = k and now = now])
  case absent
  with assms(2) show ?thesis by (simp add: map_of_eq_None_iff)
next
  case (expired e)
  then show ?thesis
    using entry_steps [OF shard_okD(1) [OF ok] expired(1)]
    by (auto simp: sweep_entry_def drop_entry_def)
next
  case (alive e)
  with ok show ?thesis by (auto simp: sweep_entry_def)
qed

lemma sweep_fold:
  assumes "shard_ok cap s" and "distinct ks" and "set ks \<subseteq> fst ` set (data s)"
  shows "\<exists>s'. foldM (sweep_entry now) ks (s, m) =
      Some (s', m\<lparr>expired_keys :=
        expired_keys m + of_nat (length (filter (\<lambda>k. stale now (view s k)) ks))\<rparr>)
    \<and> shard_ok cap s'
    \<and> view s' = (\<lambda>k. if k \<in> set ks \<and> stale now (view s k) then None else view s k)
    \<and> map snd (lru_order s') =
        filter (\<lambda>k. \<not> (k \<in> set ks \<and> stale now (view s k))) (map snd (lru_order s))"
  using assms
proof (induction ks arbitrary: s m)
  case Nil
  then show ?case by simp
next
  case (Cons k ks)
  obtain s1 where s1: "sweep_entry now k (s, m) = Some (s1, add_expired (stale now (view s k)) m)"
    and ok: "shard_ok cap s1" and sub: "fst ` set (data s) - {k} \<subseteq> fst ` set (data s1)"
    and abs: "abs_shard s1 =
      (if stale now (view s k) then cache_remove k (abs_shard s) else abs_shard s)"
    using sweep_entry_steps [OF Cons.prems(1), of k now m] Cons.prems(3) by auto
  from Cons.prems sub have ks: "distinct ks" "set ks \<subseteq> fst ` set (data s1)" by auto
  let ?m = "add_expired (stale now (view s k)) m"
  obtain s2 where s2: "foldM (sweep_entry now) ks (s1, ?m) =
      Some (s2, ?m\<lparr>expired_keys :=
        expired_keys ?m + of_nat (length (filter (\<lambda>k. stale now (view s1 k)) ks))\<rparr>)"
    and ok2: "shard_ok cap s2"
    and v2: "view s2 = (\<lambda>k. if k \<in> set ks \<and> stale now (view s1 k) then None else view s1 k)"
    and l2: "map snd (lru_order s2) =
      filter (\<lambda>k. \<not> (k \<in> set ks \<and> stale now (view s1 k))) (map snd (lru_order s1))"
    using Cons.IH [OF ok ks, of ?m] by blast
  have v1: "view s1 = (if stale now (view s k) then (view s)(k := None) else view s)"
    using arg_cong [OF abs, of cmap] by (simp add: cache_remove_def split: if_splits)
  have dl: "distinct (map snd (lru_order s))"
    using lru_ok_distinct(3) [OF shard_okD(1) [OF Cons.prems(1)]] .
  have l1: "map snd (lru_order s1) =
      (if stale now (view s k) then filter (\<lambda>x. x \<noteq> k) (map snd (lru_order s))
       else map snd (lru_order s))"
    using arg_cong [OF abs, of recency] distinct_remove1_removeAll [OF dl]
    by (simp add: cache_remove_def removeAll_filter_not_eq split: if_splits) (metis)
  have same: "view s1 x = view s x" if "x \<in> set ks" for x
    using v1 that Cons.prems(2) by auto
  have cnt: "filter (\<lambda>k. stale now (view s1 k)) ks = filter (\<lambda>k. stale now (view s k)) ks"
    by (rule filter_cong) (simp_all add: same)
  have "view s2 = (\<lambda>x. if x \<in> set (k # ks) \<and> stale now (view s x) then None else view s x)"
    unfolding v2 using v1 by (auto simp: fun_eq_iff)
  moreover have "map snd (lru_order s2) =
      filter (\<lambda>x. \<not> (x \<in> set (k # ks) \<and> stale now (view s x))) (map snd (lru_order s))"
    unfolding l2 l1 using v1 by (auto simp: filter_filter intro!: filter_cong)
  ultimately show ?case
    using s1 s2 ok2 by (auto simp: cnt add_expired_def)
qed

subsection \<open>A shard is a key-value store\<close>

lemma cache_put_cmap:
  "cmap (cache_put cap k v ex c) k = Some (v, ex)"
  "k' \<noteq> k \<Longrightarrow> cmap (cache_put cap k v ex c) k' = cmap c k' \<or> cmap (cache_put cap k v ex c) k' = None"
  by (auto simp: cache_put_def cache_evict_def cache_remove_def Let_def)

lemma view_of_abs: "abs_shard s' = c \<Longrightarrow> view s' = cmap c"
  by auto

interpretation shard_kv: kv_store "\<lambda>st. shard_ok cap (fst st)" "\<lambda>st. view (fst st)"
    "insertOrUpdate cap" shard_get shard_del shard_expire shard_ttl
  for cap :: nat
proof (unfold_locales, goal_cases)
  case (1 s ex k v)
  then obtain s' m' where s': "insertOrUpdate cap k v ex s = Some (s', m')" "shard_ok cap s'"
    and "abs_shard s' = cache_put cap k v ex (abs_shard (fst s))"
    using insertOrUpdate_refines [of cap "fst s" ex k v "snd s"] by auto
  then have "view s' = cmap (cache_put cap k v ex (abs_shard (fst s)))" by (intro view_of_abs)
  with s' show ?case
    using cache_put_cmap(1) cache_put_cmap(2) [where c = "abs_shard (fst s)"] by auto
next
  case (2 s t k)
  then show ?case
    using shard_get_refines [of cap "fst s" t k "snd s"]
    by (auto simp: cache_get_def cache_touch_def cache_remove_def dest!: view_of_abs)
next
  case (3 s t k)
  then show ?case
    using shard_del_refines [of cap "fst s" t k "snd s"]
    by (auto simp: cache_del_def cache_remove_def dest!: view_of_abs)
next
  case (4 s n t' d t k)
  then show ?case
    using shard_expire_refines [of cap "fst s" n t' d t k "snd s"]
    by (auto simp: cache_expire_def cache_remove_def dest!: view_of_abs)
next
  case (5 n t t' k s)
  then show ?case by (rule shard_expire_negative)
next
  case (6 s t t' k)
  then show ?case
    using shard_ttl_refines [of cap "fst s" t t' k "snd s"]
    by (auto simp: cache_ttl_def cache_remove_def dest!: view_of_abs)
qed

subsection \<open>Least-recently-used eviction\<close>

lemma remove1_take:
  assumes "distinct R" and "k \<in> set (take n R)"
  shows "remove1 k (take n R) = take (n - 1) (removeAll k R)"
  using assms
proof (induction R arbitrary: n)
  case (Cons x R)
  then obtain n' where n: "n = Suc n'" by (cases n) auto
  show ?case
  proof (cases "x = k")
    case True
    with Cons.prems n show ?thesis by (simp add: removeAll_id)
  next
    case False
    with Cons n have "k \<in> set (take n' R)" by auto
    moreover from this obtain n'' where "n' = Suc n''" by (cases n') auto
    ultimately show ?thesis using Cons False n by simp
  qed
qed simp

lemma take_removeAll_notin:
  "k \<notin> set (take n R) \<Longrightarrow> take n (removeAll k R) = take n R"
proof (induction R arbitrary: n)
  case (Cons x R)
  then show ?case by (cases n) auto
qed simp

text \<open>One write, on a recency list that holds the \<open>cap\<close> most recent of \<open>R\<close>.\<close>

lemma cache_put_recency:
  assumes "1 \<le> cap" and dist: "distinct R" and rec: "recency c = take cap R"
    and dom: "\<And>x. cmap c x = None \<longleftrightarrow> x \<notin> set (recency c)"
  shows "recency (cache_put cap k v ex c) = take cap (k # removeAll k R)"
proof (cases "k \<in> set (take cap R)")
  case True
  then have "cmap c k \<noteq> None" using dom rec by simp
  with True assms(1) show ?thesis
    using remove1_take [OF dist True] by (cases cap) (auto simp: cache_put_def Let_def rec)
next
  case False
  then have none: "cmap c k = None" using dom rec by simp
  obtain n where n: "cap = Suc n" using assms(1) by (cases cap) auto
  have kn: "k \<notin> set (take n R)" using False n set_take_subset_set_take [of n cap R] by auto
  have ev: "recency (cache_evict cap c) = take n R"
  proof (cases "cap \<le> length R")
    case True
    have ne: "take cap R \<noteq> []" using True n by auto
    have "remove1 (last (take cap R)) (take cap R) = butlast (take cap R)"
      by (rule remove1_last [OF distinct_take [OF dist] ne])
    also have "\<dots> = take n R" using True n by (simp add: butlast_take)
    finally show ?thesis using True by (simp add: cache_evict_def cache_remove_def rec)
  next
    case False
    then show ?thesis using n by (simp add: cache_evict_def rec)
  qed
  show ?thesis
    using none kn take_removeAll_notin [OF kn] ev
    by (simp add: cache_put_def Let_def n remove1_idem)
qed

lemma view_dom:
  assumes "shard_ok cap s"
  shows "view s k = None \<longleftrightarrow> k \<notin> set (map snd (lru_order s))"
  using lru_ok_distinct(4) [OF shard_okD(1) [OF assms]]
  by (simp add: view_None map_of_eq_None_iff)

lemma shard_ok_empty: "1 \<le> cap \<Longrightarrow> shard_ok cap empty_shard"
  by (simp add: shard_ok_def lru_ok_def empty_shard_def deadlines_ok_def)

lemma remdups_snoc: "rev (remdups (xs @ [x])) = x # removeAll x (rev (remdups xs))"
proof -
  have "remdups (xs @ [x]) = removeAll x (remdups xs) @ [x]" by (induction xs) auto
  then show ?thesis by (simp add: removeAll_filter_not_eq rev_filter)
qed

lemma sets_trace:
  assumes "1 \<le> cap"
  shows "\<exists>s m'. foldM (\<lambda>(k, v). shard_set cap k v) kvs (empty_shard, m) = Some (s, m')
    \<and> shard_ok cap s
    \<and> map snd (lru_order s) = take cap (rev (remdups (map fst kvs)))
    \<and> (\<forall>k. view s k \<noteq> None \<longrightarrow> view s k = map_option (\<lambda>v. (v, None)) (map_of (rev kvs) k))"
proof (induction kvs rule: rev_induct)
  case Nil
  show ?case using shard_ok_empty [OF assms] by (simp add: empty_shard_def view_def)
next
  case (snoc kv kvs)
  obtain k v where kv: "kv = (k, v)" by (cases kv)
  obtain s m1 where s: "foldM (\<lambda>(k, v). shard_set cap k v) kvs (empty_shard, m) = Some (s, m1)"
    and ok: "shard_ok cap s"
    and rec: "map snd (lru_order s) = take cap (rev (remdups (map fst kvs)))"
    and val: "\<And>k. view s k \<noteq> None \<Longrightarrow> view s k = map_option (\<lambda>v. (v, None)) (map_of (rev kvs) k)"
    using snoc by blast
  obtain s' m' where s': "insertOrUpdate cap k v None (s, m1) = Some (s', m')" "shard_ok cap s'"
    and abs: "abs_shard s' = cache_put cap k v None (abs_shard s)"
    using insertOrUpdate_refines [OF ok, of None k v m1] by auto
  have "map snd (lru_order s') = take cap (k # removeAll k (rev (remdups (map fst kvs))))"
    using arg_cong [OF abs, of recency] view_dom [OF ok] rec
      cache_put_recency [OF assms _ , of "rev (remdups (map fst kvs))" "abs_shard s" k v None]
    by simp
  then have r: "map snd (lru_order s') = take cap (rev (remdups (map fst (kvs @ [kv]))))"
    using remdups_snoc [of "map fst kvs" k] kv by simp
  have v: "view s' x = map_option (\<lambda>v. (v, None)) (map_of (rev (kvs @ [kv])) x)"
    if "view s' x \<noteq> None" for x
    using that val [of x] cache_put_cmap(1) [of cap k v None "abs_shard s"]
      cache_put_cmap(2) [of x k cap v None "abs_shard s"] view_of_abs [OF abs] kv
    by (cases "x = k") auto
  have "foldM (\<lambda>(k, v). shard_set cap k v) (kvs @ [kv]) (empty_shard, m) = Some (s', m')"
    unfolding foldM_snoc s using s'(1) kv by (simp add: shard_set_def)
  then show ?case using s'(2) r v by blast
qed

text \<open>C8. LRU eviction. After any sequence of writes to an empty shard of capacity \<open>cap\<close>, the
  shard holds exactly the \<open>cap\<close> most recently written distinct keys, in that order of
  recency, each with the value written last.\<close>

theorem lru_keeps_most_recent:
  assumes "1 \<le> cap"
  shows "\<exists>s m'. foldM (\<lambda>(k, v). shard_set cap k v) kvs (empty_shard, m) = Some (s, m')
    \<and> map snd (lru_order s) = take cap (rev (remdups (map fst kvs)))
    \<and> (\<forall>k. view s k = (if k \<in> set (take cap (rev (remdups (map fst kvs))))
          then map_option (\<lambda>v. (v, None)) (map_of (rev kvs) k) else None))"
proof -
  obtain s m' where s: "foldM (\<lambda>(k, v). shard_set cap k v) kvs (empty_shard, m) = Some (s, m')"
    and ok: "shard_ok cap s"
    and rec: "map snd (lru_order s) = take cap (rev (remdups (map fst kvs)))"
    and val: "\<And>k. view s k \<noteq> None \<Longrightarrow> view s k = map_option (\<lambda>v. (v, None)) (map_of (rev kvs) k)"
    using sets_trace [OF assms] by blast
  have "view s k = (if k \<in> set (take cap (rev (remdups (map fst kvs))))
      then map_option (\<lambda>v. (v, None)) (map_of (rev kvs) k) else None)" for k
    using val [of k] view_dom [OF ok, of k] rec by auto
  with s rec show ?thesis by blast
qed

theorem lru_keeps_most_recent_witness:
  "\<exists>s m'. foldM (\<lambda>(k, v). shard_set 2 k v) [(''a'', ''1''), (''b'', ''2''), (''a'', ''3''), (''c'', ''4'')]
      (empty_shard, \<lparr>expired_keys = 0, evicted_keys = 0\<rparr>) = Some (s, m')
    \<and> map snd (lru_order s) = [''c'', ''a''] \<and> view s ''a'' = Some (''3'', None) \<and> view s ''b'' = None"
proof -
  let ?kvs = "[(''a'', ''1''), (''b'', ''2''), (''a'', ''3''), (''c'', ''4'')]"
  have "1 \<le> (2::nat)" by simp
  from lru_keeps_most_recent [OF this, of ?kvs "\<lparr>expired_keys = 0, evicted_keys = 0\<rparr>"]
  obtain s m' where s: "foldM (\<lambda>(k, v). shard_set 2 k v) ?kvs
      (empty_shard, \<lparr>expired_keys = 0, evicted_keys = 0\<rparr>) = Some (s, m')"
    and r: "map snd (lru_order s) = take 2 (rev (remdups (map fst ?kvs)))"
    and v: "\<forall>k. view s k = (if k \<in> set (take 2 (rev (remdups (map fst ?kvs))))
          then map_option (\<lambda>v. (v, None)) (map_of (rev ?kvs) k) else None)"
    by blast
  have "view s ''a'' = Some (''3'', None)" "view s ''b'' = None" using v by simp_all
  with s r show ?thesis by (intro exI [of _ s] exI [of _ m'] conjI) simp_all
qed

text \<open>The sweep of a shard, for any iteration order of its hash map, drops exactly the entries
  past their deadline among the first \<open>MAX_SCAN_PER_SWEEP\<close> of that order, counts each of
  them once, and leaves every other entry and the order of the recency list alone; in a shard
  of at most that many entries no expired entry is left.\<close>

theorem sweepShard_exact:
  assumes ok: "shard_ok cap s" and "distinct order" and "set order = fst ` set (data s)"
  shows "\<exists>s'. sweepShard now order (s, m) =
      Some (s', m\<lparr>expired_keys := expired_keys m
        + of_nat (length (filter (\<lambda>k. stale now (view s k)) (take MAX_SCAN_PER_SWEEP order)))\<rparr>)
    \<and> shard_ok cap s'
    \<and> view s' = (\<lambda>k. if k \<in> set (take MAX_SCAN_PER_SWEEP order) \<and> stale now (view s k)
                  then None else view s k)
    \<and> map snd (lru_order s') = filter (\<lambda>k. view s' k \<noteq> None) (map snd (lru_order s))
    \<and> (length (data s) \<le> MAX_SCAN_PER_SWEEP \<longrightarrow> (\<forall>k. \<not> stale now (view s' k)))"
proof -
  let ?ks = "take MAX_SCAN_PER_SWEEP order"
  have ks: "distinct ?ks" "set ?ks \<subseteq> fst ` set (data s)"
    using assms(2,3) set_take_subset [of MAX_SCAN_PER_SWEEP order] by auto
  obtain s' where s': "sweepShard now order (s, m) =
      Some (s', m\<lparr>expired_keys := expired_keys m
        + of_nat (length (filter (\<lambda>k. stale now (view s k)) ?ks))\<rparr>)" "shard_ok cap s'"
    and v: "view s' = (\<lambda>k. if k \<in> set ?ks \<and> stale now (view s k) then None else view s k)"
    and l: "map snd (lru_order s') =
        filter (\<lambda>k. \<not> (k \<in> set ?ks \<and> stale now (view s k))) (map snd (lru_order s))"
    using sweep_fold [OF ok ks, of now m] unfolding sweepShard_def by blast
  have "(\<not> (k \<in> set ?ks \<and> stale now (view s k))) = (view s' k \<noteq> None)"
    if "k \<in> set (map snd (lru_order s))" for k
    using view_dom [OF ok, of k] that unfolding v by (cases "view s k") auto
  then have l': "map snd (lru_order s') = filter (\<lambda>k. view s' k \<noteq> None) (map snd (lru_order s))"
    unfolding l by (intro filter_cong) simp_all
  have "length order = length (data s)"
    using distinct_card [OF assms(2)] assms(3)
      distinct_card [OF lru_ok_distinct(1) [OF shard_okD(1) [OF ok]]] by simp
  moreover have "stale now (view s k) \<Longrightarrow> k \<in> set order" for k
    using assms(3) view_None [of s k] by (auto simp: stale_def map_of_eq_None_iff)
  ultimately have "length (data s) \<le> MAX_SCAN_PER_SWEEP \<longrightarrow> (\<forall>k. \<not> stale now (view s' k))"
    unfolding v by auto
  with s' v l' show ?thesis by blast
qed

text \<open>A two-entry shard in which one entry has passed its deadline.\<close>

definition demo_shard :: Shard where
  "demo_shard = \<lparr>data = [(''a'', \<lparr>entry_value = ''1'', expires_at = Some 5, lru_iter = 1\<rparr>),
                        (''b'', \<lparr>entry_value = ''2'', expires_at = None, lru_iter = 2\<rparr>)],
                lru_order = [(2, ''b''), (1, ''a'')]\<rparr>"

lemma demo_shard_ok: "shard_ok 3 demo_shard"
  by (simp add: shard_ok_def lru_ok_def demo_shard_def deadlines_ok_def int64_ok_def insert_commute)

theorem sweepShard_exact_witness:
  "\<exists>s'. sweepShard 7 [''a'', ''b''] (demo_shard, \<lparr>expired_keys = 0, evicted_keys = 0\<rparr>)
      = Some (s', \<lparr>expired_keys = 1, evicted_keys = 0\<rparr>)
    \<and> view s' ''a'' = None \<and> view s' ''b'' = Some (''2'', None)"
proof -
  let ?o = "[''a'', ''b'']" and ?m = "\<lparr>expired_keys = 0, evicted_keys = 0\<rparr>"
  have v: "view demo_shard ''a'' = Some (''1'', Some 5)" "view demo_shard ''b'' = Some (''2'', None)"
    by (simp_all add: view_def demo_shard_def)
  have "distinct ?o" "set ?o = fst ` set (data demo_shard)" by (simp_all add: demo_shard_def)
  from sweepShard_exact [OF demo_shard_ok this, of 7 ?m]
  obtain s' where "sweepShard 7 ?o (demo_shard, ?m) = Some (s', ?m\<lparr>expired_keys := expired_keys ?m
        + of_nat (length (filter (\<lambda>k. stale 7 (view demo_shard k)) (take MAX_SCAN_PER_SWEEP ?o)))\<rparr>)"
    and "view s' = (\<lambda>k. if k \<in> set (take MAX_SCAN_PER_SWEEP ?o) \<and> stale 7 (view demo_shard k)
                  then None else view demo_shard k)"
    by blast
  then show ?thesis using v by (intro exI [of _ s'] conjI) (simp_all add: MAX_SCAN_PER_SWEEP_def)
qed

end
