(* ===== verification/Sharded_Storage.thy ===== *)
theory Sharded_Storage
  imports LRU_Shard
begin

text \<open>
  \<open>ShardedStorage\<close> as a whole (\<open>include/storage/sharded_storage.h\<close>,
  \<open>src/storage/sharded_storage.cpp\<close>): an array of 16 shards, the shard of a key chosen by
  the low bits of its hash, the public operations, the background sweep thread and the
  counters. \<open>std::hash<std::string>\<close> is a parameter \<open>hash\<close> of every operation, with no
  assumption on it.

  Every public operation holds the mutex of exactly one shard for its whole body (\<open>size\<close>
  holds them one after the other), and the two counters are atomic, so a concurrent run is an
  interleaving of the operations below. They are collected in the type \<open>StorageOp\<close>:
  \<open>storage_reach\<close> is the set of states that any interleaving of client operations and sweeps
  can produce. The theory shows that the operations refine a family of abstract LRU caches,
  that every reachable state satisfies the invariant, that operations on different shards
  commute, and that the storage is a key-value store in the sense of \<open>kv_store\<close>.
\<close>

definition NUM_SHARDS :: nat where
  "NUM_SHARDS = 16"

record ShardedStorage =
  shards :: "Shard list"
  metrics :: Metrics
  max_keys :: nat
  max_keys_per_shard :: nat

definition new_ShardedStorage :: "nat \<Rightarrow> ShardedStorage" where
  "new_ShardedStorage n =
     \<lparr>shards = replicate NUM_SHARDS empty_shard,
      metrics = \<lparr>expired_keys = 0, evicted_keys = 0\<rparr>,
      max_keys = n,
      max_keys_per_shard = max 1 (n div NUM_SHARDS)\<rparr>"

unbundle bit_operations_syntax

definition shardIndex :: "(string \<Rightarrow> size_t) \<Rightarrow> string \<Rightarrow> nat" where
  "shardIndex hash key = unat (hash key AND (of_nat NUM_SHARDS - 1))"

text \<open>A body that runs on shard \<open>i\<close> with its mutex held. An index outside the array is
  undefined behaviour.\<close>

definition at_shard ::
  "nat \<Rightarrow> (shard_st \<Rightarrow> (shard_st \<times> 'r) option) \<Rightarrow> ShardedStorage \<Rightarrow> (ShardedStorage \<times> 'r) option" where
  "at_shard i f st =
     (if i < length (shards st) then do {
        ((s, m), r) \<leftarrow> f (shards st ! i, metrics st);
        Some (st\<lparr>shards := (shards st)[i := s], metrics := m\<rparr>, r) }
      else None)"

definition getShard ::
  "(string \<Rightarrow> size_t) \<Rightarrow> string \<Rightarrow> (shard_st \<Rightarrow> (shard_st \<times> 'r) option)
     \<Rightarrow> ShardedStorage \<Rightarrow> (ShardedStorage \<times> 'r) option" where
  "getShard hash key f st = at_shard (shardIndex hash key) f st"

definition no_result :: "(shard_st \<Rightarrow> shard_st option) \<Rightarrow> shard_st \<Rightarrow> (shard_st \<times> unit) option" where
  "no_result f s = map_option (\<lambda>s'. (s', ())) (f s)"

definition storage_insert ::
  "(string \<Rightarrow> size_t) \<Rightarrow> string \<Rightarrow> string \<Rightarrow> time_point option \<Rightarrow> ShardedStorage \<Rightarrow> ShardedStorage option" where
  "storage_insert hash key val ex st = map_option fst
     (getShard hash key (no_result (insertOrUpdate (max_keys_per_shard st) key val ex)) st)"

definition storage_set ::
  "(string \<Rightarrow> size_t) \<Rightarrow> string \<Rightarrow> string \<Rightarrow> ShardedStorage \<Rightarrow> ShardedStorage option" where
  "storage_set hash key val st = map_option fst
     (getShard hash key (no_result (shard_set (max_keys_per_shard st) key val)) st)"

definition storage_setWithTTL ::
  "(string \<Rightarrow> size_t) \<Rightarrow> time_point \<Rightarrow> string \<Rightarrow> string \<Rightarrow> int \<Rightarrow> ShardedStorage \<Rightarrow> ShardedStorage option" where
  "storage_setWithTTL hash now key val seconds st = map_option fst
     (getShard hash key
        (no_result (shard_setWithTTL (max_keys_per_shard st) now key val seconds)) st)"

definition storage_get ::
  "(string \<Rightarrow> size_t) \<Rightarrow> time_point \<Rightarrow> string \<Rightarrow> ShardedStorage
     \<Rightarrow> (ShardedStorage \<times> string option) option" where
  "storage_get hash now key st = getShard hash key (shard_get now key) st"

definition storage_del ::
  "(string \<Rightarrow> size_t) \<Rightarrow> time_point \<Rightarrow> string \<Rightarrow> ShardedStorage \<Rightarrow> (ShardedStorage \<times> bool) option" where
  "storage_del hash now key st = getShard hash key (shard_del now key) st"

definition storage_expire ::
  "(string \<Rightarrow> size_t) \<Rightarrow> time_point \<Rightarrow> time_point \<Rightarrow> string \<Rightarrow> int \<Rightarrow> ShardedStorage
     \<Rightarrow> (ShardedStorage \<times> bool) option" where
  "storage_expire hash now now' key seconds st =
     (if seconds < 0 then Some (st, False)
      else getShard hash key (shard_expire now now' key seconds) st)"

definition storage_ttl ::
  "(string \<Rightarrow> size_t) \<Rightarrow> time_point \<Rightarrow> time_point \<Rightarrow> string \<Rightarrow> ShardedStorage
     \<Rightarrow> (ShardedStorage \<times> int) option" where
  "storage_ttl hash now now' key st = getShard hash key (shard_ttl now now' key) st"

definition storage_size :: "ShardedStorage \<Rightarrow> nat" where
  "storage_size st = sum_list (map (\<lambda>s. length (data s)) (shards st))"

definition expiredKeysCount :: "ShardedStorage \<Rightarrow> size_t" where
  "expiredKeysCount st = expired_keys (metrics st)"

definition evictedKeysCount :: "ShardedStorage \<Rightarrow> size_t" where
  "evictedKeysCount st = evicted_keys (metrics st)"

lemmas storage_op_defs = storage_insert_def storage_set_def storage_setWithTTL_def
  storage_get_def storage_del_def storage_expire_def storage_ttl_def getShard_def

subsection \<open>The sweep thread\<close>

text \<open>One pass of the sweep thread over the shards. For each shard, in order, the list holds what
  the stop token answers, the time the sweep reads and the iteration order of the hash map.\<close>

definition sweep_shard_at ::
  "nat \<Rightarrow> time_point \<Rightarrow> string list \<Rightarrow> ShardedStorage \<Rightarrow> ShardedStorage option" where
  "sweep_shard_at i now order st = map_option fst (at_shard i (no_result (sweepShard now order)) st)"

fun sweep_pass ::
  "nat \<Rightarrow> (bool \<times> time_point \<times> string list) list \<Rightarrow> ShardedStorage \<Rightarrow> ShardedStorage option" where
  "sweep_pass i [] st = Some st"
| "sweep_pass i ((stop, now, order) # rest) st =
     (if stop then Some st
      else do { st' \<leftarrow> sweep_shard_at i now order st; sweep_pass (Suc i) rest st' })"

text \<open>The loop: each element is what \<open>stop_requested\<close> answers before a pass, and the pass. The
  list ends where the observation of the thread ends.\<close>

fun expirationLoop ::
  "(bool \<times> (bool \<times> time_point \<times> string list) list) list \<Rightarrow> ShardedStorage \<Rightarrow> ShardedStorage option" where
  "expirationLoop [] st = Some st"
| "expirationLoop ((stop, pass) # rest) st =
     (if stop then Some st
      else do { st' \<leftarrow> sweep_pass 0 (take NUM_SHARDS pass) st; expirationLoop rest st' })"

text \<open>The thread handle: \<open>joinable\<close> and whether a stop has been requested.\<close>

record SweepThread =
  joinable :: bool
  stop_requested :: bool

definition startExpirationSweep :: "SweepThread \<Rightarrow> SweepThread" where
  "startExpirationSweep t =
     (if \<not> joinable t then \<lparr>joinable = True, stop_requested = False\<rparr> else t)"

definition stopExpirationSweep :: "SweepThread \<Rightarrow> SweepThread" where
  "stopExpirationSweep t =
     (if joinable t then (t\<lparr>stop_requested := True\<rparr>)\<lparr>joinable := False\<rparr> else t)"

subsection \<open>All operations as one type\<close>

datatype StorageOp =
    OpSet string string
  | OpSetWithTTL time_point string string int
  | OpGet time_point string
  | OpDel time_point string
  | OpExpire time_point time_point string int
  | OpTtl time_point time_point string
  | OpSweep nat time_point "string list"

datatype OpResult = ResUnit | ResValue "string option" | ResBool bool | ResInt int

definition with_result :: "('a \<Rightarrow> OpResult) \<Rightarrow> ('s \<times> 'a) option \<Rightarrow> ('s \<times> OpResult) option" where
  "with_result g x = map_option (\<lambda>(s, r). (s, g r)) x"

definition exec_op ::
  "(string \<Rightarrow> size_t) \<Rightarrow> StorageOp \<Rightarrow> ShardedStorage \<Rightarrow> (ShardedStorage \<times> OpResult) option" where
  "exec_op hash op st = (case op of
      OpSet k v \<Rightarrow> map_option (\<lambda>st'. (st', ResUnit)) (storage_set hash k v st)
    | OpSetWithTTL t k v n \<Rightarrow> map_option (\<lambda>st'. (st', ResUnit)) (storage_setWithTTL hash t k v n st)
    | OpGet t k \<Rightarrow> with_result ResValue (storage_get hash t k st)
    | OpDel t k \<Rightarrow> with_result ResBool (storage_del hash t k st)
    | OpExpire t t' k n \<Rightarrow> with_result ResBool (storage_expire hash t t' k n st)
    | OpTtl t t' k \<Rightarrow> with_result ResInt (storage_ttl hash t t' k st)
    | OpSweep i t order \<Rightarrow> map_option (\<lambda>st'. (st', ResUnit)) (sweep_shard_at i t order st))"

text \<open>The same operation on its own shard, and the shard it works on.\<close>

fun op_shard :: "(string \<Rightarrow> size_t) \<Rightarrow> StorageOp \<Rightarrow> nat" where
  "op_shard hash (OpSet k v) = shardIndex hash k"
| "op_shard hash (OpSetWithTTL t k v n) = shardIndex hash k"
| "op_shard hash (OpGet t k) = shardIndex hash k"
| "op_shard hash (OpDel t k) = shardIndex hash k"
| "op_shard hash (OpExpire t t' k n) = shardIndex hash k"
| "op_shard hash (OpTtl t t' k) = shardIndex hash k"
| "op_shard hash (OpSweep i t order) = i"

fun shard_op :: "nat \<Rightarrow> StorageOp \<Rightarrow> shard_st \<Rightarrow> (shard_st \<times> OpResult) option" where
  "shard_op cap (OpSet k v) s = map_option (\<lambda>s'. (s', ResUnit)) (shard_set cap k v s)"
| "shard_op cap (OpSetWithTTL t k v n) s =
     map_option (\<lambda>s'. (s', ResUnit)) (shard_setWithTTL cap t k v n s)"
| "shard_op cap (OpGet t k) s = with_result ResValue (shard_get t k s)"
| "shard_op cap (OpDel t k) s = with_result ResBool (shard_del t k s)"
| "shard_op cap (OpExpire t t' k n) s = with_result ResBool (shard_expire t t' k n s)"
| "shard_op cap (OpTtl t t' k) s = with_result ResInt (shard_ttl t t' k s)"
| "shard_op cap (OpSweep i t order) s = map_option (\<lambda>s'. (s', ResUnit)) (sweepShard t order s)"

text \<open>When an operation may be called: clock readings are plausible, deadlines fit 64 bits, and
  the iteration order of a sweep enumerates the shard's keys.\<close>

fun op_enabled :: "StorageOp \<Rightarrow> Shard \<Rightarrow> bool" where
  "op_enabled (OpSetWithTTL t k v n) s \<longleftrightarrow> n < 0 \<or> time_add_seconds t n \<noteq> None"
| "op_enabled (OpExpire t t' k n) s \<longleftrightarrow> n < 0 \<or> time_add_seconds t' n \<noteq> None"
| "op_enabled (OpTtl t t' k) s \<longleftrightarrow> clock_ok t \<and> clock_ok t'"
| "op_enabled (OpSweep i t order) s \<longleftrightarrow>
     i < NUM_SHARDS \<and> distinct order \<and> set order = fst ` set (data s)"
| "op_enabled _ s \<longleftrightarrow> True"

text \<open>The abstract cache under the same operation, and what it adds to the counters.\<close>

definition cache_sweep :: "time_point \<Rightarrow> string list \<Rightarrow> Cache \<Rightarrow> Cache" where
  "cache_sweep now ks c =
     (let gone = (\<lambda>k. k \<in> set ks \<and> stale now (cmap c k))
      in \<lparr>cmap = (\<lambda>k. if gone k then None else cmap c k),
          recency = filter (\<lambda>k. \<not> gone k) (recency c)\<rparr>)"

fun cache_op :: "nat \<Rightarrow> StorageOp \<Rightarrow> Cache \<Rightarrow> Cache \<times> OpResult" where
  "cache_op cap (OpSet k v) c = (cache_put cap k v None c, ResUnit)"
| "cache_op cap (OpSetWithTTL t k v n) c =
     (cache_put cap k v (if n < 0 then None else Some (t + n * ns_per_s)) c, ResUnit)"
| "cache_op cap (OpGet t k) c = map_prod id ResValue (cache_get t k c)"
| "cache_op cap (OpDel t k) c = map_prod id ResBool (cache_del t k c)"
| "cache_op cap (OpExpire t t' k n) c =
     (if n < 0 then (c, ResBool False)
      else map_prod id ResBool (cache_expire t k (t' + n * ns_per_s) c))"
| "cache_op cap (OpTtl t t' k) c = map_prod id ResInt (cache_ttl t t' k c)"
| "cache_op cap (OpSweep i t order) c =
     (cache_sweep t (take MAX_SCAN_PER_SWEEP order) c, ResUnit)"

fun op_metrics :: "nat \<Rightarrow> StorageOp \<Rightarrow> Cache \<Rightarrow> Metrics \<Rightarrow> Metrics" where
  "op_metrics cap (OpSet k v) c = add_evicted (cmap c k = None \<and> cap \<le> length (recency c))"
| "op_metrics cap (OpSetWithTTL t k v n) c =
     add_evicted (cmap c k = None \<and> cap \<le> length (recency c))"
| "op_metrics cap (OpGet t k) c = add_expired (stale t (cmap c k))"
| "op_metrics cap (OpDel t k) c = add_expired (stale t (cmap c k))"
| "op_metrics cap (OpExpire t t' k n) c = add_expired (0 \<le> n \<and> stale t (cmap c k))"
| "op_metrics cap (OpTtl t t' k) c = add_expired (stale t (cmap c k))"
| "op_metrics cap (OpSweep i t order) c = (\<lambda>m. m\<lparr>expired_keys := expired_keys m
     + of_nat (length (filter (\<lambda>k. stale t (cmap c k)) (take MAX_SCAN_PER_SWEEP order)))\<rparr>)"

lemma time_add_value: "time_add_seconds t n = Some d \<Longrightarrow> d = t + n * ns_per_s"
  by (auto simp: time_add_seconds_def split: if_splits)

lemma put_length: "shard_ok cap s \<Longrightarrow> length (recency (abs_shard s)) = length (data s)"
  using shard_okD(4) by simp

text \<open>Every operation on a shard implements the abstract cache.\<close>

lemma sweep_refines:
  assumes ok: "shard_ok cap s" and "distinct order" and "set order \<subseteq> fst ` set (data s)"
  shows "\<exists>s'. sweepShard t order (s, m) = Some (s', op_metrics cap (OpSweep i t order) (abs_shard s) m)
    \<and> shard_ok cap s' \<and> abs_shard s' = cache_sweep t (take MAX_SCAN_PER_SWEEP order) (abs_shard s)"
proof -
  have "distinct (take MAX_SCAN_PER_SWEEP order)" "set (take MAX_SCAN_PER_SWEEP order) \<subseteq> fst ` set (data s)"
    using assms(2,3) set_take_subset [of MAX_SCAN_PER_SWEEP order] by auto
  from sweep_fold [OF ok this, of t m] obtain s' where s':
    "sweepShard t order (s, m) = Some (s', op_metrics cap (OpSweep i t order) (abs_shard s) m)" "shard_ok cap s'"
    and v: "view s' = cmap (cache_sweep t (take MAX_SCAN_PER_SWEEP order) (abs_shard s))"
    and l: "map snd (lru_order s') =
      recency (cache_sweep t (take MAX_SCAN_PER_SWEEP order) (abs_shard s))"
    by (auto simp: sweepShard_def cache_sweep_def cong: if_cong)
  from v l have "abs_shard s' = cache_sweep t (take MAX_SCAN_PER_SWEEP order) (abs_shard s)"
    by (simp add: abs_shard_def [of s'])
  with s' show ?thesis by simp
qed

lemma shard_op_refines:
  assumes ok: "shard_ok cap s" and en: "op_enabled op s"
  shows "\<exists>s'. shard_op cap op (s, m) =
      Some ((s', op_metrics cap op (abs_shard s) m), snd (cache_op cap op (abs_shard s)))
    \<and> shard_ok cap s' \<and> abs_shard s' = fst (cache_op cap op (abs_shard s))"
proof (cases op)
  case (OpSet k v)
  then show ?thesis
    using insertOrUpdate_refines [OF ok, of None k v m] put_length [OF ok]
    by (auto simp: shard_set_def)
next
  case (OpSetWithTTL t k v n)
  show ?thesis
  proof (cases "n < 0")
    case True
    with OpSetWithTTL show ?thesis
      using insertOrUpdate_refines [OF ok, of None k v m] put_length [OF ok]
      by (auto simp: shard_setWithTTL_def)
  next
    case False
    with OpSetWithTTL en obtain d where d: "time_add_seconds t n = Some d" by auto
    with OpSetWithTTL False show ?thesis
      using insertOrUpdate_refines [OF ok, of "Some d" k v m] put_length [OF ok]
        time_add_ok [OF d] time_add_value [OF d]
      by (auto simp: shard_setWithTTL_def)
  qed
next
  case (OpGet t k)
  then show ?thesis
    using shard_get_refines [OF ok, of t k m] by (auto simp: with_result_def)
next
  case (OpDel t k)
  then show ?thesis
    using shard_del_refines [OF ok, of t k m] by (auto simp: with_result_def)
next
  case (OpExpire t t' k n)
  show ?thesis
  proof (cases "n < 0")
    case True
    with OpExpire ok show ?thesis by (simp add: shard_expire_negative with_result_def)
  next
    case False
    with OpExpire en obtain d where d: "time_add_seconds t' n = Some d" by auto
    with OpExpire False show ?thesis
      using shard_expire_refines [OF ok _ d, of t k m] time_add_value [OF d]
      by (auto simp: with_result_def)
  qed
next
  case (OpTtl t t' k)
  with en show ?thesis
    using shard_ttl_refines [OF ok, of t t' k m] by (auto simp: with_result_def)
next
  case (OpSweep i t order)
  with en sweep_refines [OF ok, of order t m] show ?thesis by auto
qed

subsection \<open>The storage invariant\<close>

definition storage_ok :: "(string \<Rightarrow> size_t) \<Rightarrow> ShardedStorage \<Rightarrow> bool" where
  "storage_ok hash st \<longleftrightarrow> length (shards st) = NUM_SHARDS
     \<and> max_keys_per_shard st = max 1 (max_keys st div NUM_SHARDS)
     \<and> (\<forall>i < NUM_SHARDS. shard_ok (max_keys_per_shard st) (shards st ! i)
          \<and> (\<forall>k \<in> fst ` set (data (shards st ! i)). shardIndex hash k = i))"

definition storage_view :: "(string \<Rightarrow> size_t) \<Rightarrow> ShardedStorage \<Rightarrow> string \<Rightarrow> seen_value" where
  "storage_view hash st k = view (shards st ! shardIndex hash k) k"

lemma shardIndex_mod: "shardIndex hash key = unat (hash key) mod NUM_SHARDS"
proof -
  have "hash key AND 15 = take_bit 4 (hash key)"
    by (simp add: take_bit_eq_mask mask_eq_exp_minus_1)
  then have "unat (hash key AND 15) = unat (hash key) mod 2 ^ 4"
    by (simp add: take_bit_eq_mod unat_mod_distrib)
  then show ?thesis by (simp add: shardIndex_def NUM_SHARDS_def)
qed

lemma shardIndex_less [simp]: "shardIndex hash key < NUM_SHARDS"
  by (simp add: shardIndex_mod NUM_SHARDS_def)

lemma storage_okD:
  assumes "storage_ok hash st"
  shows "length (shards st) = NUM_SHARDS"
    "max_keys_per_shard st = max 1 (max_keys st div NUM_SHARDS)"
    "i < NUM_SHARDS \<Longrightarrow> shard_ok (max_keys_per_shard st) (shards st ! i)"
    "i < NUM_SHARDS \<Longrightarrow> view (shards st ! i) k \<noteq> None \<Longrightarrow> shardIndex hash k = i"
  using assms view_None [of "shards st ! i" k]
  by (auto simp: storage_ok_def map_of_eq_None_iff)

lemma storage_ok_new: "storage_ok hash (new_ShardedStorage n)"
  by (auto simp: storage_ok_def new_ShardedStorage_def shard_ok_empty)
     (simp add: empty_shard_def)

lemma exec_op_at_shard:
  "op_shard hash op < length (shards st) \<Longrightarrow>
   exec_op hash op st = at_shard (op_shard hash op) (shard_op (max_keys_per_shard st) op) st"
  by (cases op)
     (auto simp: exec_op_def storage_op_defs sweep_shard_at_def at_shard_def no_result_def with_result_def
       shard_expire_negative option.map_comp comp_def
       split: option.splits Option.bind_splits prod.splits)

text \<open>An abstract operation never makes a key appear in another place than its own.\<close>

lemma cache_op_dom:
  assumes "i = op_shard hash op"
    and "\<And>k. cmap c k \<noteq> None \<Longrightarrow> shardIndex hash k = i"
    and "cmap (fst (cache_op cap op c)) k \<noteq> None"
  shows "shardIndex hash k = i"
proof (cases "cmap c k")
  case None
  with assms(1,3) show ?thesis
    by (cases op) (auto simp: cache_put_def cache_evict_def cache_defs cache_sweep_def Let_def
        split: if_splits)
next
  case Some
  then show ?thesis using assms(2) by simp
qed

subsection \<open>Refinement of a family of caches\<close>

definition abs_storage :: "ShardedStorage \<Rightarrow> Cache list" where
  "abs_storage st = map abs_shard (shards st)"

definition storage_enabled :: "(string \<Rightarrow> size_t) \<Rightarrow> StorageOp \<Rightarrow> ShardedStorage \<Rightarrow> bool" where
  "storage_enabled hash op st = op_enabled op (shards st ! op_shard hash op)"

lemma storage_enabled_shard: "storage_enabled hash op st \<Longrightarrow> op_shard hash op < NUM_SHARDS"
  by (cases op) (simp_all add: storage_enabled_def)

lemma storage_ok_upd:
  assumes ok: "storage_ok hash st" and i: "i < NUM_SHARDS" and "shard_ok (max_keys_per_shard st) s"
    and "\<And>k. view s k \<noteq> None \<Longrightarrow> shardIndex hash k = i"
  shows "storage_ok hash (st\<lparr>shards := (shards st)[i := s], metrics := m\<rparr>)"
proof -
  have "shardIndex hash k = i" if "k \<in> fst ` set (data s)" for k
    using assms(4) [of k] that by (auto simp: view_None map_of_eq_None_iff)
  then show ?thesis
    using ok i assms(3) by (auto simp: storage_ok_def nth_list_update)
qed

lemma exec_op_refines:
  fixes hash st op
  defines "i \<equiv> op_shard hash op" and "cap \<equiv> max_keys_per_shard st"
  assumes ok: "storage_ok hash st" and en: "storage_enabled hash op st"
  shows "\<exists>st'. exec_op hash op st = Some (st', snd (cache_op cap op (abs_storage st ! i)))
    \<and> storage_ok hash st' \<and> max_keys st' = max_keys st
    \<and> abs_storage st' = (abs_storage st)[i := fst (cache_op cap op (abs_storage st ! i))]
    \<and> metrics st' = op_metrics cap op (abs_storage st ! i) (metrics st)"
proof -
  have i: "i < NUM_SHARDS" "i < length (shards st)"
    using storage_enabled_shard [OF en] storage_okD(1) [OF ok] by (simp_all add: i_def)
  let ?s = "shards st ! i" and ?c = "abs_shard (shards st ! i)"
  obtain s' where s': "shard_op cap op (?s, metrics st) =
      Some ((s', op_metrics cap op ?c (metrics st)), snd (cache_op cap op ?c))"
    and ok': "shard_ok cap s'" and abs: "abs_shard s' = fst (cache_op cap op ?c)"
    using shard_op_refines [of cap ?s op "metrics st"] storage_okD(3) [OF ok i(1)] en
    by (auto simp: cap_def i_def storage_enabled_def)
  let ?st = "st\<lparr>shards := (shards st)[i := s'], metrics := op_metrics cap op ?c (metrics st)\<rparr>"
  have "exec_op hash op st = Some (?st, snd (cache_op cap op ?c))"
    using i s' by (simp add: exec_op_at_shard at_shard_def flip: i_def cap_def)
  moreover have "shardIndex hash k = i" if "view s' k \<noteq> None" for k
    using cache_op_dom [OF meta_eq_to_obj_eq [OF i_def], of ?c cap k] storage_okD(4) [OF ok i(1)] that view_of_abs [OF abs]
    by simp
  then have "storage_ok hash ?st"
    using ok' by (intro storage_ok_upd [OF ok i(1)]) (simp_all add: cap_def)
  moreover have "abs_storage ?st = (abs_storage st)[i := fst (cache_op cap op ?c)]"
    by (simp add: abs_storage_def map_update abs)
  moreover have "abs_storage st ! i = ?c" using i by (simp add: abs_storage_def)
  ultimately show ?thesis by simp
qed

text \<open>C7. Refinement. The storage implements a family of 16 abstract LRU caches: on a well-formed
  storage every operation is defined, changes only the cache of its own shard, and changes it,
  answers and counts exactly as the abstract operation does.\<close>

theorem storage_refines_caches:
  assumes "storage_ok hash st" and "storage_enabled hash op st"
  shows "\<exists>st' c r. cache_op (max_keys_per_shard st) op (abs_storage st ! op_shard hash op) = (c, r)
    \<and> exec_op hash op st = Some (st', r) \<and> storage_ok hash st'
    \<and> abs_storage st' = (abs_storage st)[op_shard hash op := c]
    \<and> metrics st' = op_metrics (max_keys_per_shard st) op (abs_storage st ! op_shard hash op) (metrics st)"
  using exec_op_refines [OF assms]
  by (cases "cache_op (max_keys_per_shard st) op (abs_storage st ! op_shard hash op)") auto

theorem storage_refines_caches_witness:
  "\<exists>st'. exec_op (\<lambda>k. of_nat (length k)) (OpSet ''ab'' ''v'') (new_ShardedStorage 32) = Some (st', ResUnit)
    \<and> abs_storage st' ! 2 = \<lparr>cmap = [''ab'' \<mapsto> (''v'', None)], recency = [''ab'']\<rparr>"
proof -
  let ?h = "\<lambda>k::string. of_nat (length k) :: size_t" and ?st = "new_ShardedStorage 32"
  have "storage_enabled ?h (OpSet ''ab'' ''v'') ?st" by (simp add: storage_enabled_def)
  note wit = storage_refines_caches [OF storage_ok_new this]
  have i: "op_shard ?h (OpSet ''ab'' ''v'') = 2" by (simp add: shardIndex_def NUM_SHARDS_def)
  have c: "abs_storage ?st ! 2 = \<lparr>cmap = Map.empty, recency = []\<rparr>"
    by (simp add: abs_storage_def new_ShardedStorage_def NUM_SHARDS_def abs_shard_def empty_shard_def
        view_def fun_eq_iff)
  have l: "length (abs_storage ?st) = 16"
    by (simp add: abs_storage_def new_ShardedStorage_def NUM_SHARDS_def)
  have cap: "max_keys_per_shard ?st = 2" by (simp add: new_ShardedStorage_def NUM_SHARDS_def)
  have co: "cache_op 2 (OpSet ''ab'' ''v'') \<lparr>cmap = Map.empty, recency = []\<rparr> =
      (\<lparr>cmap = [''ab'' \<mapsto> (''v'', None)], recency = [''ab'']\<rparr>, ResUnit)"
    by (simp add: cache_put_def cache_evict_def Let_def)
  from wit show ?thesis unfolding i c cap co using l by auto
qed

subsection \<open>Every interleaving is safe and bounded\<close>

text \<open>The states that any interleaving of client operations and sweeps can produce.\<close>

inductive storage_reach :: "(string \<Rightarrow> size_t) \<Rightarrow> nat \<Rightarrow> ShardedStorage \<Rightarrow> bool" for hash n where
  reach_new: "storage_reach hash n (new_ShardedStorage n)"
| reach_op: "storage_reach hash n st \<Longrightarrow> storage_enabled hash op st \<Longrightarrow>
    exec_op hash op st = Some (st', r) \<Longrightarrow> storage_reach hash n st'"

lemma storage_reach_ok:
  "storage_reach hash n st \<Longrightarrow> storage_ok hash st \<and> max_keys st = n"
proof (induction rule: storage_reach.induct)
  case reach_new
  show ?case using storage_ok_new by (simp add: new_ShardedStorage_def)
next
  case (reach_op st op st' r)
  then show ?case using exec_op_refines [of hash st op] by auto
qed

lemma storage_size_bound:
  assumes "storage_ok hash st"
  shows "storage_size st \<le> NUM_SHARDS * max_keys_per_shard st"
proof -
  have "storage_size st \<le> sum_list (map (\<lambda>s. max_keys_per_shard st) (shards st))"
    unfolding storage_size_def using shard_okD(2) storage_okD(1,3) [OF assms]
    by (intro sum_list_mono) (auto simp: in_set_conv_nth)
  then show ?thesis using storage_okD(1) [OF assms] by (simp add: sum_list_triv)
qed

lemma reach_size:
  assumes "storage_reach hash n st"
  shows "storage_size st \<le> max NUM_SHARDS n"
proof -
  have ok: "storage_ok hash st" "max_keys st = n" using storage_reach_ok [OF assms] by auto
  have "NUM_SHARDS * max 1 (n div NUM_SHARDS) \<le> max NUM_SHARDS n"
    using times_div_less_eq_dividend [of NUM_SHARDS n] by (auto simp: max_def)
  then show ?thesis using storage_size_bound [OF ok(1)] storage_okD(2) [OF ok(1)] ok(2) by simp
qed

text \<open>Safety of every interleaving. In any state reached by client operations and sweeps in any
  order, the invariant holds, every enabled operation is defined (no invalid iterator, no
  access to an empty list, no overflow), and the number of keys stays within the configured
  capacity (within 16 when the capacity is smaller than the number of shards).\<close>

theorem storage_interleavings_safe:
  assumes "storage_reach hash n st"
  shows "storage_ok hash st
    \<and> (\<forall>op. storage_enabled hash op st \<longrightarrow> exec_op hash op st \<noteq> None)
    \<and> storage_size st \<le> max NUM_SHARDS n"
proof (intro conjI allI impI)
  show ok: "storage_ok hash st" using storage_reach_ok [OF assms] by blast
  show "exec_op hash op st \<noteq> None" if "storage_enabled hash op st" for op
    using exec_op_refines [OF ok that] by auto
  show "storage_size st \<le> max NUM_SHARDS n" by (rule reach_size [OF assms])
qed

theorem storage_interleavings_safe_witness:
  "storage_ok (\<lambda>_. 0) (new_ShardedStorage 32)
    \<and> exec_op (\<lambda>_. 0) (OpDel 0 ''a'') (new_ShardedStorage 32) \<noteq> None
    \<and> storage_size (new_ShardedStorage 32) \<le> 32"
proof -
  have "storage_enabled (\<lambda>_. 0) (OpDel 0 ''a'') (new_ShardedStorage 32)"
    by (simp add: storage_enabled_def)
  then show ?thesis
    using storage_interleavings_safe [OF reach_new, of "\<lambda>_. 0" 32] by (auto simp: NUM_SHARDS_def)
qed

subsection \<open>Operations on different shards commute\<close>

text \<open>A body adds to the counters without reading them.\<close>

definition add_metrics :: "size_t \<Rightarrow> size_t \<Rightarrow> Metrics \<Rightarrow> Metrics" where
  "add_metrics d e m =
     m\<lparr>expired_keys := expired_keys m + d, evicted_keys := evicted_keys m + e\<rparr>"

definition blind_to_metrics :: "(shard_st \<Rightarrow> (shard_st \<times> 'r) option) \<Rightarrow> bool" where
  "blind_to_metrics f \<longleftrightarrow> (\<forall>s m d e. f (s, add_metrics d e m) =
     map_option (\<lambda>((s', m'), r). ((s', add_metrics d e m'), r)) (f (s, m)))"

abbreviation shift_st :: "size_t \<Rightarrow> size_t \<Rightarrow> shard_st \<Rightarrow> shard_st" where
  "shift_st d e \<equiv> map_prod id (add_metrics d e)"

lemma add_metrics_count:
  "(add_metrics d e m)\<lparr>expired_keys := expired_keys (add_metrics d e m) + x\<rparr> =
     add_metrics d e (m\<lparr>expired_keys := expired_keys m + x\<rparr>)"
  "(add_metrics d e m)\<lparr>evicted_keys := evicted_keys (add_metrics d e m) + x\<rparr> =
     add_metrics d e (m\<lparr>evicted_keys := evicted_keys m + x\<rparr>)"
  by (simp_all add: add_metrics_def algebra_simps)

lemma evict_blind:
  "evictIfNeeded cap (s, add_metrics d e m) = map_option (shift_st d e) (evictIfNeeded cap (s, m))"
proof (induction cap "(s, m)" arbitrary: s m rule: evictIfNeeded.induct)
  case (1 cap s m)
  show ?case
    by (subst (1 2) evictIfNeeded.simps)
       (auto simp: 1 add_metrics_count split: option.splits)
qed

lemma insert_blind:
  "insertOrUpdate cap k v ex (s, add_metrics d e m) =
     map_option (shift_st d e) (insertOrUpdate cap k v ex (s, m))"
  by (auto simp: insertOrUpdate_def evict_blind Let_def split: option.splits Option.bind_splits)

lemma removeExpired_blind:
  "removeExpiredEntry k (s, add_metrics d e m) =
     map_option (shift_st d e) (removeExpiredEntry k (s, m))"
  by (auto simp: removeExpiredEntry_def add_metrics_count split: option.splits Option.bind_splits)

lemma sweep_blind:
  "foldM (sweep_entry t) ks (s, add_metrics d e m) =
     map_option (shift_st d e) (foldM (sweep_entry t) ks (s, m))"
proof (induction ks arbitrary: s m)
  case (Cons k ks)
  have "sweep_entry t k (s, add_metrics d e m) = map_option (shift_st d e) (sweep_entry t k (s, m))"
    by (auto simp: sweep_entry_def add_metrics_count split: option.splits Option.bind_splits)
  then show ?case using Cons by (auto split: option.splits)
qed simp

lemmas blind_simps = insert_blind removeExpired_blind sweep_blind

lemma shard_op_blind: "blind_to_metrics (shard_op cap op)"
  by (cases op)
     (auto simp: blind_to_metrics_def with_result_def shard_set_def shard_setWithTTL_def shard_get_def
        shard_del_def shard_expire_def shard_ttl_def sweepShard_def blind_simps option.map_comp Let_def
        split: option.splits Option.bind_splits prod.splits intro!: map_option_cong)

lemma metrics_diff:
  "m' = add_metrics (expired_keys m' - expired_keys m) (evicted_keys m' - evicted_keys m) m"
  by (simp add: add_metrics_def)

lemma add_metrics_swap: "add_metrics d e (add_metrics d' e' m) = add_metrics d' e' (add_metrics d e m)"
  by (simp add: add_metrics_def algebra_simps)

lemma at_shard_commute:
  assumes "blind_to_metrics f" and "blind_to_metrics g" and "i \<noteq> j"
    and fg: "at_shard i f st = Some (st1, x)" "at_shard j g st1 = Some (st2, y)"
  shows "\<exists>st1'. at_shard j g st = Some (st1', y) \<and> at_shard i f st1' = Some (st2, x)"
proof -
  let ?m = "metrics st"
  from fg(1) obtain s m1 where f: "f (shards st ! i, ?m) = Some ((s, m1), x)"
    and i: "i < length (shards st)" and st1: "st1 = st\<lparr>shards := (shards st)[i := s], metrics := m1\<rparr>"
    by (auto simp: at_shard_def split: if_splits Option.bind_splits)
  from fg(2) st1 assms(3) obtain s' m2 where g: "g (shards st ! j, m1) = Some ((s', m2), y)"
    and j: "j < length (shards st)"
    and st2: "st2 = st\<lparr>shards := (shards st)[i := s, j := s'], metrics := m2\<rparr>"
    by (auto simp: at_shard_def split: if_splits Option.bind_splits)
  obtain d e where m1: "m1 = add_metrics d e ?m" using metrics_diff by blast
  from g assms(2) obtain m3 where g': "g (shards st ! j, ?m) = Some ((s', m3), y)"
    and m2: "m2 = add_metrics d e m3"
    unfolding m1 by (auto simp: blind_to_metrics_def)
  obtain d' e' where m3: "m3 = add_metrics d' e' ?m" using metrics_diff by blast
  have "f (shards st ! i, m3) = Some ((s, m2), x)"
    using assms(1) f unfolding m2 m3 m1 by (auto simp: blind_to_metrics_def add_metrics_swap)
  then show ?thesis
    using g' i j assms(3) unfolding st2
    by (auto simp: at_shard_def list_update_swap)
qed

text \<open>C19. Linearity across shards. Two operations on different shards give the same answers and
  the same final state in either order, counters included, so threads working on different
  shards need no common lock.\<close>

theorem ops_on_different_shards_commute:
  assumes "op_shard hash a \<noteq> op_shard hash b"
    and "op_shard hash a < length (shards st)" and "op_shard hash b < length (shards st)"
    and "exec_op hash a st = Some (st1, x)" and "exec_op hash b st1 = Some (st2, y)"
  shows "\<exists>st1'. exec_op hash b st = Some (st1', y) \<and> exec_op hash a st1' = Some (st2, x)"
proof -
  let ?cap = "max_keys_per_shard st"
  note [simp] = exec_op_at_shard
  have a: "at_shard (op_shard hash a) (shard_op ?cap a) st = Some (st1, x)" using assms(2,4) by simp
  have same: "length (shards st') = length (shards st) \<and> max_keys_per_shard st' = ?cap"
    if "at_shard i f st = Some (st', r)" for i f st' and r :: OpResult
    using that by (auto simp: at_shard_def split: if_splits Option.bind_splits)
  have b: "at_shard (op_shard hash b) (shard_op ?cap b) st1 = Some (st2, y)"
    using assms(3,5) same [OF a] by simp
  obtain st1' where st1': "at_shard (op_shard hash b) (shard_op ?cap b) st = Some (st1', y)"
    and "at_shard (op_shard hash a) (shard_op ?cap a) st1' = Some (st2, x)"
    using at_shard_commute [OF shard_op_blind shard_op_blind assms(1) a b] by blast
  then show ?thesis using assms(2,3) same [OF st1'] by auto
qed

theorem ops_on_different_shards_commute_witness:
  "\<exists>st1 st2 st1'. exec_op (\<lambda>k. of_nat (length k)) (OpSet ''a'' ''1'') (new_ShardedStorage 32) = Some (st1, ResUnit)
    \<and> exec_op (\<lambda>k. of_nat (length k)) (OpDel 0 ''bb'') st1 = Some (st2, ResBool False)
    \<and> exec_op (\<lambda>k. of_nat (length k)) (OpDel 0 ''bb'') (new_ShardedStorage 32) = Some (st1', ResBool False)
    \<and> exec_op (\<lambda>k. of_nat (length k)) (OpSet ''a'' ''1'') st1' = Some (st2, ResUnit)"
proof -
  let ?h = "\<lambda>k::string. of_nat (length k) :: size_t" and ?st = "new_ShardedStorage 32"
  have i: "op_shard ?h (OpSet ''a'' ''1'') = 1" "op_shard ?h (OpDel 0 ''bb'') = 2"
    by (simp_all add: shardIndex_def NUM_SHARDS_def)
  have l: "length (shards ?st) = 16" by (simp add: new_ShardedStorage_def NUM_SHARDS_def)
  have "storage_enabled ?h (OpSet ''a'' ''1'') ?st" by (simp add: storage_enabled_def)
  from exec_op_refines [OF storage_ok_new this] obtain st1 where
    s1: "exec_op ?h (OpSet ''a'' ''1'') ?st = Some (st1, ResUnit)" and ok: "storage_ok ?h st1"
    and abs: "abs_storage st1 = (abs_storage ?st)
      [1 := fst (cache_op (max_keys_per_shard ?st) (OpSet ''a'' ''1'') (abs_storage ?st ! 1))]"
    unfolding i by auto
  have "storage_enabled ?h (OpDel 0 ''bb'') st1" by (simp add: storage_enabled_def)
  from exec_op_refines [OF ok this] abs l obtain st2 where
    s2: "exec_op ?h (OpDel 0 ''bb'') st1 = Some (st2, ResBool False)"
    unfolding i
    by (auto simp: abs_storage_def cache_del_def new_ShardedStorage_def empty_shard_def NUM_SHARDS_def
        abs_shard_def view_def)
  show ?thesis
    using s1 s2 ops_on_different_shards_commute [OF _ _ _ s1 s2] unfolding i l by auto
qed

subsection \<open>The storage is a key-value store\<close>

lemma getShard_law:
  fixes hash st k
  defines "i \<equiv> shardIndex hash k"
  assumes ok: "storage_ok hash st"
    and f: "f (shards st ! i, metrics st) = Some (s', r)"
    and ok': "shard_ok (max_keys_per_shard st) (fst s')"
    and others: "\<And>k'. k' \<noteq> k \<Longrightarrow> view (fst s') k' = view (shards st ! i) k' \<or> view (fst s') k' = None"
  shows "\<exists>st'. getShard hash k f st = Some (st', r) \<and> storage_ok hash st'
    \<and> storage_view hash st' =
        (\<lambda>k'. if shardIndex hash k' = i then view (fst s') k' else storage_view hash st k')"
proof -
  have i: "i < NUM_SHARDS" "i < length (shards st)"
    using storage_okD(1) [OF ok] by (simp_all add: i_def)
  let ?st = "st\<lparr>shards := (shards st)[i := fst s'], metrics := snd s'\<rparr>"
  have "getShard hash k f st = Some (?st, r)"
    using f i by (cases s') (simp add: getShard_def at_shard_def i_def)
  moreover have "shardIndex hash k' = i" if "view (fst s') k' \<noteq> None" for k'
    using others [of k'] that storage_okD(4) [OF ok i(1), of k'] by (cases "k' = k") (auto simp: i_def)
  then have "storage_ok hash ?st" by (intro storage_ok_upd [OF ok i(1) ok'])
  moreover have "storage_view hash ?st =
      (\<lambda>k'. if shardIndex hash k' = i then view (fst s') k' else storage_view hash st k')"
    using i by (auto simp: storage_view_def fun_eq_iff nth_list_update)
  ultimately show ?thesis by blast
qed

text \<open>What a body shows of its own shard is what the storage shows.\<close>

lemma getShard_same:
  assumes ok: "storage_ok hash st"
    and f: "f (shards st ! shardIndex hash k, metrics st) = Some (s', r)"
    and "shard_ok (max_keys_per_shard st) (fst s')"
    and v: "view (fst s') = (view (shards st ! shardIndex hash k))(k := x)"
  shows "\<exists>st'. getShard hash k f st = Some (st', r) \<and> storage_ok hash st'
    \<and> storage_view hash st' = (storage_view hash st)(k := x)"
proof -
  have "view (fst s') k' = view (shards st ! shardIndex hash k) k' \<or> view (fst s') k' = None"
    if "k' \<noteq> k" for k' using v that by simp
  from getShard_law [where f = f and k = k, OF ok f assms(3) this] show ?thesis
    unfolding v by (auto simp: storage_view_def fun_eq_iff)
qed

lemma upd_same: "f k = x \<Longrightarrow> f(k := x) = f"
  by auto

lemma storage_insert_law:
  assumes 1: "storage_ok hash s" "deadline_ok ex"
  shows "\<exists>s'. storage_insert hash k v ex s = Some s' \<and> storage_ok hash s' \<and> storage_view hash s' k = Some (v, ex)
    \<and> (\<forall>k'. k' \<noteq> k \<longrightarrow> storage_view hash s' k' = storage_view hash s k' \<or> storage_view hash s' k' = None)"
proof -
  let ?i = "shardIndex hash k" and ?cap = "max_keys_per_shard s"
  from 1 obtain s' where ins: "insertOrUpdate ?cap k v ex (shards s ! ?i, metrics s) = Some s'"
    and ok': "shard_ok ?cap (fst s')" and v: "view (fst s') k = Some (v, ex)"
    and oth: "\<And>k'. k' \<noteq> k \<Longrightarrow> view (fst s') k' = view (shards s ! ?i) k' \<or> view (fst s') k' = None"
    using shard_kv.put_law [of ?cap "(shards s ! ?i, metrics s)" ex k v] storage_okD(3) [OF 1(1)] by auto
  have "no_result (insertOrUpdate ?cap k v ex) (shards s ! ?i, metrics s) = Some (s', ())"
    using ins by (simp add: no_result_def)
  from getShard_law [where f = "no_result (insertOrUpdate ?cap k v ex)", OF 1(1) this ok' oth] v oth
  show ?thesis by (auto simp: storage_insert_def storage_view_def [of _ s])
qed

interpretation storage_kv: kv_store "storage_ok hash" "storage_view hash" "storage_insert hash"
  "storage_get hash" "storage_del hash" "storage_expire hash" "storage_ttl hash"
  for hash :: "string \<Rightarrow> size_t"
proof (unfold_locales, goal_cases)
  case (1 s ex k v)
  then show ?case by (rule storage_insert_law)
next
  case (2 s t k)
  let ?s = "(shards s ! shardIndex hash k, metrics s)" and ?v = "storage_view hash s k"
  have v: "?v = view (fst ?s) k" by (simp add: storage_view_def)
  obtain s' where "shard_get t k ?s = Some (s', if live t ?v then map_option fst ?v else None)"
    "shard_ok (max_keys_per_shard s) (fst s')"
    "view (fst s') = (view (shards s ! shardIndex hash k))(k := if live t ?v then ?v else None)"
    using shard_kv.fetch_law [of "max_keys_per_shard s" ?s t k] storage_okD(3) [OF 2] by (auto simp: v)
  from getShard_same [where f = "shard_get t k", OF 2 this] show ?case
    by (auto simp: storage_get_def)
next
  case (3 s t k)
  let ?s = "(shards s ! shardIndex hash k, metrics s)" and ?v = "storage_view hash s k"
  have v: "?v = view (fst ?s) k" by (simp add: storage_view_def)
  obtain s' where "shard_del t k ?s = Some (s', live t ?v)"
    "shard_ok (max_keys_per_shard s) (fst s')" "view (fst s') = (view (shards s ! shardIndex hash k))(k := None)"
    using shard_kv.remove_law [of "max_keys_per_shard s" ?s t k] storage_okD(3) [OF 3] by (auto simp: v)
  from getShard_same [where f = "shard_del t k", OF 3 this] show ?case
    by (auto simp: storage_del_def)
next
  case (4 s n t' d t k)
  let ?s = "(shards s ! shardIndex hash k, metrics s)" and ?v = "storage_view hash s k"
  let ?x = "if live t ?v then map_option (\<lambda>(v, _). (v, Some d)) ?v else None"
  have v: "?v = view (fst ?s) k" by (simp add: storage_view_def)
  obtain s' where "shard_expire t t' k n ?s = Some (s', live t ?v)"
    "shard_ok (max_keys_per_shard s) (fst s')" "view (fst s') = (view (shards s ! shardIndex hash k))(k := ?x)"
    using shard_kv.expire_law [of "max_keys_per_shard s" ?s n t' d t k] storage_okD(3) [OF 4(1)] 4(2,3)
    by (auto simp: v)
  from getShard_same [where f = "shard_expire t t' k n", OF 4(1) this] 4(2) show ?case
    by (auto simp: storage_expire_def)
next
  case (5 n t t' k s)
  then show ?case by (simp add: storage_expire_def)
next
  case (6 s t t' k)
  let ?s = "(shards s ! shardIndex hash k, metrics s)" and ?v = "storage_view hash s k"
  have v: "?v = view (fst ?s) k" by (simp add: storage_view_def)
  obtain s' where "shard_ttl t t' k ?s = Some (s', remaining t t' ?v)"
    "shard_ok (max_keys_per_shard s) (fst s')"
    "view (fst s') = (view (shards s ! shardIndex hash k))(k := if live t ?v then ?v else None)"
    using shard_kv.ttl_law [of "max_keys_per_shard s" ?s t t' k] storage_okD(3) [OF 6(1)] 6(2,3)
    by (auto simp: v)
  from getShard_same [where f = "shard_ttl t t' k", OF 6(1) this] show ?case
    by (auto simp: storage_ttl_def)
qed

lemma storage_set_insert: "storage_set hash k v st = storage_insert hash k v None st"
proof -
  have "shard_set cap k v = insertOrUpdate cap k v None" for cap
    by (simp add: shard_set_def fun_eq_iff)
  then show ?thesis by (simp add: storage_set_def storage_insert_def)
qed

lemma storage_setWithTTL_insert:
  assumes "0 \<le> n" and "time_add_seconds t n = Some d"
  shows "storage_setWithTTL hash t k v n st = storage_insert hash k v (Some d) st"
proof -
  have "shard_setWithTTL cap t k v n = insertOrUpdate cap k v (Some d)" for cap
    using assms by (simp add: shard_setWithTTL_def fun_eq_iff)
  then show ?thesis by (simp add: storage_setWithTTL_def storage_insert_def)
qed

text \<open>Round trip. On a well-formed storage \<open>set\<close> succeeds, whatever has to be evicted, and
  a \<open>get\<close> of the same key at any later time returns the stored value; the two operations
  change no other key, though \<open>set\<close> may evict one.\<close>

theorem storage_set_then_get:
  assumes "storage_ok hash st"
  shows "\<exists>st1 st2. storage_set hash k v st = Some st1 \<and> storage_get hash t k st1 = Some (st2, Some v)
    \<and> storage_ok hash st2
    \<and> (\<forall>k'. k' \<noteq> k \<longrightarrow> storage_view hash st2 k' \<in> {storage_view hash st k', None})"
proof -
  obtain st1 st2 where st: "storage_insert hash k v None st = Some st1"
    "storage_get hash t k st1 = Some (st2, Some v)" "storage_ok hash st2"
    using storage_kv.put_fetch [OF assms] by blast
  have ok1: "storage_ok hash st1"
    using storage_kv.put_law [OF assms, of None k v] st(1) by auto
  have "storage_view hash st2 k' \<in> {storage_view hash st k', None}" if "k' \<noteq> k" for k'
    using storage_kv.fetch_keeps_others [OF ok1 st(2) that]
      storage_kv.put_frame [OF assms _ st(1) that] by auto
  with st show ?thesis by (auto simp: storage_set_insert)
qed

theorem storage_set_then_get_witness:
  "\<exists>st1 st2. storage_set (\<lambda>_. 7) ''k'' ''v'' (new_ShardedStorage 1) = Some st1
    \<and> storage_get (\<lambda>_. 7) 10 ''k'' st1 = Some (st2, Some ''v'')"
  using storage_set_then_get [OF storage_ok_new, of "\<lambda>_. 7" "''k''" "''v''" 1 10] by blast

text \<open>C20. Deadlines. A live key given \<open>n\<close> seconds is returned by \<open>get\<close> until exactly \<open>n\<close>
  seconds later and never after, and before that \<open>ttl\<close> reports the whole seconds left.\<close>

theorem storage_expire_deadline:
  assumes ok: "storage_ok hash st" and v: "storage_view hash st k = Some (v, ex)"
    and l: "live t (storage_view hash st k)" and n: "0 \<le> n" and d: "time_add_seconds t' n = Some d"
  shows "\<exists>st1. storage_expire hash t t' k n st = Some (st1, True)
    \<and> (\<forall>u. \<exists>st2. storage_get hash u k st1 = Some (st2, if u < t' + n * ns_per_s then Some v else None))
    \<and> (\<forall>u u'. clock_ok u \<and> clock_ok u' \<and> u < t' + n * ns_per_s \<longrightarrow> (\<exists>st2.
          storage_ttl hash u u' k st1 = Some (st2, max 0 ((t' + n * ns_per_s - u') div ns_per_s))))"
proof -
  note dv = time_add_value [OF d]
  obtain st1 where st1: "storage_expire hash t t' k n st = Some (st1, True)"
    using storage_kv.expire_fetch [OF ok v l n d] by blast
  have "\<exists>st2. storage_get hash u k st1 = Some (st2, if u < d then Some v else None)" for u
    using storage_kv.expire_fetch [OF ok v l n d, of u] st1 by auto
  moreover have "\<exists>st2. storage_ttl hash u u' k st1 = Some (st2, max 0 ((d - u') div ns_per_s))"
    if "clock_ok u" "clock_ok u'" "u < d" for u u'
    using storage_kv.expire_ttl [OF ok l n d that(3,1,2)] st1 dv by auto
  ultimately show ?thesis using st1 unfolding dv by blast
qed

theorem storage_expire_deadline_witness:
  "\<exists>st st1. storage_set (\<lambda>_. 7) ''k'' ''v'' (new_ShardedStorage 1) = Some st
    \<and> storage_expire (\<lambda>_. 7) 0 0 ''k'' 5 st = Some (st1, True)
    \<and> (\<exists>st2. storage_get (\<lambda>_. 7) 4999999999 ''k'' st1 = Some (st2, Some ''v''))
    \<and> (\<exists>st2. storage_get (\<lambda>_. 7) 5000000000 ''k'' st1 = Some (st2, None))
    \<and> (\<exists>st2. storage_ttl (\<lambda>_. 7) 1 1 ''k'' st1 = Some (st2, 4))"
proof -
  let ?h = "\<lambda>_::string. 7 :: size_t"
  obtain st where st: "storage_set ?h ''k'' ''v'' (new_ShardedStorage 1) = Some st"
    "storage_ok ?h st" "storage_view ?h st ''k'' = Some (''v'', None)"
    using storage_kv.put_law [OF storage_ok_new, of None ?h "''k''" "''v''" 1]
    by (auto simp: storage_set_insert)
  have d: "time_add_seconds 0 5 = Some 5000000000"
    by (simp add: time_add_seconds_def int64_ok_def)
  have "live 0 (storage_view ?h st ''k'')" using st(3) by simp
  from storage_expire_deadline [OF st(2,3) this _ d] obtain st1 where
    st1: "storage_expire ?h 0 0 ''k'' 5 st = Some (st1, True)"
    and g: "\<And>u. \<exists>st2. storage_get ?h u ''k'' st1 = Some (st2, if u < 0 + 5 * ns_per_s then Some ''v'' else None)"
    and t: "\<And>u u'. clock_ok u \<and> clock_ok u' \<and> u < 0 + 5 * ns_per_s \<Longrightarrow> \<exists>st2.
      storage_ttl ?h u u' ''k'' st1 = Some (st2, max 0 ((0 + 5 * ns_per_s - u') div ns_per_s))"
    by auto
  have "\<exists>st2. storage_get ?h 4999999999 ''k'' st1 = Some (st2, Some ''v'')"
    "\<exists>st2. storage_get ?h 5000000000 ''k'' st1 = Some (st2, None)"
    using g [of 4999999999] g [of 5000000000] by simp_all
  moreover have "\<exists>st2. storage_ttl ?h 1 1 ''k'' st1 = Some (st2, 4)"
    using t [of 1 1] by (simp add: clock_ok_def int64_ok_def)
  ultimately show ?thesis using st(1) st1 by blast
qed

subsection \<open>A pass of the sweep thread\<close>

lemma keys_view: "fst ` set (data s) = {k. view s k \<noteq> None}"
  by (auto simp: view_def map_of_eq_None_iff dest: map_of_SomeD)

lemma storage_view_abs:
  "storage_ok hash st \<Longrightarrow> storage_view hash st k = cmap (abs_storage st ! shardIndex hash k) k"
  by (simp add: storage_view_def abs_storage_def storage_okD(1))

text \<open>What one answer of a pass does to the keys of its shard.\<close>

definition sweeps :: "bool \<times> time_point \<times> string list \<Rightarrow> string \<Rightarrow> seen_value \<Rightarrow> seen_value" where
  "sweeps a k x = (if k \<in> set (take MAX_SCAN_PER_SWEEP (snd (snd a))) \<and> stale (fst (snd a)) x
                   then None else x)"

definition pass_ok :: "bool \<times> time_point \<times> string list \<Rightarrow> Shard \<Rightarrow> bool" where
  "pass_ok a s \<longleftrightarrow> \<not> fst a \<and> distinct (snd (snd a)) \<and> set (snd (snd a)) = fst ` set (data s)"

lemma sweep_shard_at_steps:
  assumes ok: "storage_ok hash st" and i: "i < NUM_SHARDS" and a: "pass_ok (stop, now, order) (shards st ! i)"
  shows "\<exists>st'. sweep_shard_at i now order st = Some st' \<and> storage_ok hash st'
    \<and> (\<forall>j. j < NUM_SHARDS \<longrightarrow> view (shards st' ! j) =
        (\<lambda>k. if j = i then sweeps (stop, now, order) k (view (shards st ! j) k) else view (shards st ! j) k))"
proof -
  let ?op = "OpSweep i now order"
  have "storage_enabled hash ?op st" using a i by (simp add: storage_enabled_def pass_ok_def)
  from exec_op_refines [OF ok this] obtain st' where st': "exec_op hash ?op st = Some (st', ResUnit)"
    and ok': "storage_ok hash st'"
    and abs: "abs_storage st' =
      (abs_storage st)[i := cache_sweep now (take MAX_SCAN_PER_SWEEP order) (abs_storage st ! i)]"
    by auto
  have "view (shards st' ! j) = cmap (abs_storage st' ! j)" if "j < NUM_SHARDS" for j
    using that storage_okD(1) [OF ok'] by (simp add: abs_storage_def)
  moreover have "view (shards st ! j) = cmap (abs_storage st ! j)" if "j < NUM_SHARDS" for j
    using that storage_okD(1) [OF ok] by (simp add: abs_storage_def)
  moreover have "length (abs_storage st) = NUM_SHARDS"
    using storage_okD(1) [OF ok] by (simp add: abs_storage_def)
  ultimately show ?thesis
    using st' ok' abs i
    by (auto simp: exec_op_def cache_sweep_def sweeps_def Let_def fun_eq_iff)
qed

lemma sweep_pass_steps:
  assumes "storage_ok hash st" and "i + length pass \<le> NUM_SHARDS"
    and "\<And>j. j < length pass \<Longrightarrow> pass_ok (pass ! j) (shards st ! (i + j))"
  shows "\<exists>st'. sweep_pass i pass st = Some st' \<and> storage_ok hash st'
    \<and> (\<forall>j. j < NUM_SHARDS \<longrightarrow> view (shards st' ! j) =
        (\<lambda>k. if i \<le> j \<and> j < i + length pass then sweeps (pass ! (j - i)) k (view (shards st ! j) k)
             else view (shards st ! j) k))"
  using assms
proof (induction pass arbitrary: i st)
  case Nil
  then show ?case by (auto simp: fun_eq_iff)
next
  case (Cons a pass)
  obtain stop now order where a: "a = (stop, now, order)" by (cases a)
  have i: "i < NUM_SHARDS" and p: "pass_ok (stop, now, order) (shards st ! i)"
    using Cons.prems(2) Cons.prems(3) [of 0] by (simp_all add: a)
  from sweep_shard_at_steps [OF Cons.prems(1) i p] obtain st1 where
    st1: "sweep_shard_at i now order st = Some st1" and ok1: "storage_ok hash st1"
    and v1: "\<And>j. j < NUM_SHARDS \<Longrightarrow> view (shards st1 ! j) =
      (\<lambda>k. if j = i then sweeps a k (view (shards st ! j) k) else view (shards st ! j) k)"
    unfolding a by blast
  have le: "Suc i + length pass \<le> NUM_SHARDS" using Cons.prems(2) by simp
  have "pass_ok (pass ! j) (shards st1 ! (Suc i + j))" if "j < length pass" for j
    using Cons.prems(3) [of "Suc j"] v1 [of "Suc i + j"] that le by (simp add: pass_ok_def keys_view)
  from Cons.IH [OF ok1 le this] obtain st2 where
    st2: "sweep_pass (Suc i) pass st1 = Some st2" "storage_ok hash st2"
    and v2: "\<And>j. j < NUM_SHARDS \<Longrightarrow> view (shards st2 ! j) =
      (\<lambda>k. if Suc i \<le> j \<and> j < Suc i + length pass then sweeps (pass ! (j - Suc i)) k (view (shards st1 ! j) k)
           else view (shards st1 ! j) k)"
    by blast
  have "view (shards st2 ! j) =
      (\<lambda>k. if i \<le> j \<and> j < i + length (a # pass) then sweeps ((a # pass) ! (j - i)) k (view (shards st ! j) k)
           else view (shards st ! j) k)" if "j < NUM_SHARDS" for j
    unfolding v2 [OF that] v1 [OF that] by (auto simp: fun_eq_iff nth_Cons')
  moreover have "\<not> stop" using p by (simp add: pass_ok_def)
  then have "sweep_pass i (a # pass) st = Some st2" using st1 st2(1) by (simp add: a)
  ultimately show ?case using st2(2) by blast
qed

text \<open>C21. A full pass of the sweep thread over the 16 shards, each swept at its own time, removes
  exactly the expired keys among the first \<open>MAX_SCAN_PER_SWEEP\<close> of each shard and keeps every
  other key with its value and deadline.\<close>

theorem sweep_pass_exact:
  assumes "storage_ok hash st" and "length pass = NUM_SHARDS"
    and "\<forall>i < NUM_SHARDS. pass_ok (pass ! i) (shards st ! i)"
  shows "\<exists>st'. sweep_pass 0 pass st = Some st' \<and> storage_ok hash st'
    \<and> storage_view hash st' = (\<lambda>k. sweeps (pass ! shardIndex hash k) k (storage_view hash st k))"
proof -
  have le: "0 + length pass \<le> NUM_SHARDS" using assms(2) by simp
  have "pass_ok (pass ! j) (shards st ! (0 + j))" if "j < length pass" for j
    using assms(2,3) that by simp
  from sweep_pass_steps [OF assms(1) le this] show ?thesis
    using assms(2) by (auto simp: storage_view_def fun_eq_iff)
qed

theorem sweep_pass_exact_witness:
  "\<exists>st st'. storage_setWithTTL (\<lambda>_. 7) 0 ''k'' ''v'' 5 (new_ShardedStorage 1) = Some st
    \<and> storage_view (\<lambda>_. 7) st ''k'' = Some (''v'', Some 5000000000)
    \<and> sweep_pass 0 ((replicate 16 (False, 6000000000, []))[7 := (False, 6000000000, [''k''])]) st = Some st'
    \<and> storage_view (\<lambda>_. 7) st' ''k'' = None"
proof -
  let ?h = "\<lambda>_::string. 7 :: size_t" and ?st0 = "new_ShardedStorage 1"
  let ?p = "(replicate 16 (False, 6000000000::int, []))[7 := (False, 6000000000, [''k''])]"
  have i: "shardIndex ?h k = 7" for k by (simp add: shardIndex_def NUM_SHARDS_def)
  have none: "storage_view ?h ?st0 k = None" for k
    unfolding storage_view_def i
    by (simp add: new_ShardedStorage_def NUM_SHARDS_def empty_shard_def view_def)
  have "deadline_ok (Some 5000000000)" by (simp add: int64_ok_def)
  from storage_kv.put_law [OF storage_ok_new this, of ?h "''k''" "''v''" 1] obtain st where
    st: "storage_insert ?h ''k'' ''v'' (Some 5000000000) ?st0 = Some st" and ok: "storage_ok ?h st"
    and v: "storage_view ?h st ''k'' = Some (''v'', Some 5000000000)"
    and o: "\<And>k'. k' \<noteq> ''k'' \<Longrightarrow> storage_view ?h st k' = None"
    using none by auto
  have "time_add_seconds 0 5 = Some 5000000000" by (simp add: time_add_seconds_def int64_ok_def)
  then have set: "storage_setWithTTL ?h 0 ''k'' ''v'' 5 ?st0 = Some st"
    using st by (simp add: storage_setWithTTL_insert)
  have "{k. view (shards st ! j) k \<noteq> None} = (if j = 7 then {''k''} else {})" if "j < NUM_SHARDS" for j
    using storage_okD(4) [OF ok that] v o unfolding storage_view_def i by (auto; force)
  then have "\<forall>j < NUM_SHARDS. pass_ok (?p ! j) (shards st ! j)"
    by (auto simp: pass_ok_def keys_view NUM_SHARDS_def nth_list_update)
  moreover have "length ?p = NUM_SHARDS" by (simp add: NUM_SHARDS_def)
  ultimately obtain st' where "sweep_pass 0 ?p st = Some st'"
    "storage_view ?h st' ''k'' = sweeps (?p ! shardIndex ?h ''k'') ''k'' (storage_view ?h st ''k'')"
    using sweep_pass_exact [OF ok, of ?p] by auto
  then show ?thesis using set v unfolding i
    by (auto simp: sweeps_def MAX_SCAN_PER_SWEEP_def)
qed

end
