(* ===== verification/AOF_Replay.thy ===== *)
theory AOF_Replay
  imports AOF_Codec Sharded_Storage
begin

text \<open>
  Recovery: \<open>AOFReplay::replay\<close> of \<open>src/storage/aof_replay.cpp\<close> reads the append-only
  file line by line and applies the commands to the storage. The clock readings of each line
  are an argument (\<open>clock i\<close> holds the two readings that the operations of line \<open>i\<close> can make).
  The statistics count every line once. A file of well-formed records is shown to act like the
  records themselves.
\<close>

record ReplayStats =
  commands_replayed :: size_t
  lines_skipped :: size_t
  errors :: size_t

definition no_stats :: ReplayStats where
  "no_stats = \<lparr>commands_replayed = 0, lines_skipped = 0, errors = 0\<rparr>"

definition count_replayed :: "ReplayStats \<Rightarrow> ReplayStats" where
  "count_replayed s = s\<lparr>commands_replayed := commands_replayed s + 1\<rparr>"

definition count_skipped :: "ReplayStats \<Rightarrow> ReplayStats" where
  "count_skipped s = s\<lparr>lines_skipped := lines_skipped s + 1\<rparr>"

definition count_error :: "ReplayStats \<Rightarrow> ReplayStats" where
  "count_error s = s\<lparr>errors := errors s + 1\<rparr>"

lemmas count_defs = count_replayed_def count_skipped_def count_error_def

type_synonym clock2 = "time_point \<times> time_point"

text \<open>The body of the loop for one line.\<close>

definition replay_line ::
  "(string \<Rightarrow> size_t) \<Rightarrow> clock2 \<Rightarrow> string \<Rightarrow> ShardedStorage \<times> ReplayStats
     \<Rightarrow> (ShardedStorage \<times> ReplayStats) option" where
  "replay_line hash now line = (\<lambda>(st, stats).
     if line = [] then Some (st, count_skipped stats)
     else let cmd = parseCommand line in
       (case cmd_type cmd of
          SET \<Rightarrow>
            if length (args cmd) \<ge> 2 then do {
              st' \<leftarrow> storage_set hash (args cmd ! 0) (args cmd ! 1) st;
              Some (st', count_replayed stats) }
            else Some (st, count_error stats)
        | DEL \<Rightarrow>
            if args cmd \<noteq> [] then do {
              (st', _) \<leftarrow> storage_del hash (fst now) (args cmd ! 0) st;
              Some (st', count_replayed stats) }
            else Some (st, count_error stats)
        | EXPIRE \<Rightarrow>
            if length (args cmd) \<ge> 2 then
              (case stoll (args cmd ! 1) of
                 Inl _ \<Rightarrow> Some (st, count_error stats)
               | Inr seconds \<Rightarrow>
                   if seconds \<le> 0 then Some (st, count_error stats)
                   else do {
                     (st', _) \<leftarrow> storage_expire hash (fst now) (snd now) (args cmd ! 0) seconds st;
                     Some (st', count_replayed stats) })
            else Some (st, count_error stats)
        | _ \<Rightarrow> Some (st, count_skipped stats)))"

fun replay_lines ::
  "(string \<Rightarrow> size_t) \<Rightarrow> (nat \<Rightarrow> clock2) \<Rightarrow> nat \<Rightarrow> string list \<Rightarrow> ShardedStorage \<times> ReplayStats
     \<Rightarrow> (ShardedStorage \<times> ReplayStats) option" where
  "replay_lines hash clock i [] s = Some s"
| "replay_lines hash clock i (line # lines) s =
     (case replay_line hash (clock i) line s of None \<Rightarrow> None
      | Some s' \<Rightarrow> replay_lines hash clock (Suc i) lines s')"

text \<open>\<open>None\<close> for the file means that it could not be opened.\<close>

definition replay ::
  "(string \<Rightarrow> size_t) \<Rightarrow> (nat \<Rightarrow> clock2) \<Rightarrow> string option \<Rightarrow> ShardedStorage
     \<Rightarrow> (ShardedStorage \<times> ReplayStats) option" where
  "replay hash clock file_contents st =
     (case file_contents of
        None \<Rightarrow> Some (st, no_stats)
      | Some bytes \<Rightarrow> replay_lines hash clock 0 (getlines bytes) (st, no_stats))"

subsection \<open>Any file is accepted\<close>

text \<open>The deadlines that the file's \<open>EXPIRE\<close> lines ask for fit the clock.\<close>

definition line_fits :: "clock2 \<Rightarrow> string \<Rightarrow> bool" where
  "line_fits now line \<longleftrightarrow> (let cmd = parseCommand line in
     cmd_type cmd = EXPIRE \<longrightarrow> length (args cmd) \<ge> 2 \<longrightarrow>
       (case stoll (args cmd ! 1) of Inl _ \<Rightarrow> True
        | Inr seconds \<Rightarrow> seconds \<le> 0 \<or> time_add_seconds (snd now) seconds \<noteq> None))"

definition stats_sum :: "ReplayStats \<Rightarrow> size_t" where
  "stats_sum s = commands_replayed s + lines_skipped s + errors s"

lemma stats_sum_count [simp]:
  "stats_sum (count_replayed s) = stats_sum s + 1" "stats_sum (count_skipped s) = stats_sum s + 1"
  "stats_sum (count_error s) = stats_sum s + 1" "stats_sum no_stats = 0"
  by (simp_all add: stats_sum_def count_defs no_stats_def)

lemma storage_set_total: "storage_ok hash st \<Longrightarrow> \<exists>st'. storage_set hash k v st = Some st' \<and> storage_ok hash st'"
  using storage_kv.put_law [of hash st None k v] by (auto simp: storage_set_insert)

lemma storage_del_total: "storage_ok hash st \<Longrightarrow> \<exists>st' b. storage_del hash t k st = Some (st', b) \<and> storage_ok hash st'"
  using storage_kv.remove_law [of hash st t k] by auto

lemma storage_expire_total:
  assumes "storage_ok hash st" and "n < 0 \<or> time_add_seconds t' n \<noteq> None"
  shows "\<exists>st' b. storage_expire hash t t' k n st = Some (st', b) \<and> storage_ok hash st'"
proof (cases "n < 0")
  case True
  then show ?thesis using assms(1) by (auto simp: storage_expire_def)
next
  case False
  then obtain d where "time_add_seconds t' n = Some d" using assms(2) by auto
  with storage_kv.expire_law [OF assms(1) _ this, of t k] False show ?thesis by auto
qed

lemma replay_line_total:
  assumes ok: "storage_ok hash st" and fits: "line_fits now line"
  shows "\<exists>st' stats'. replay_line hash now line (st, stats) = Some (st', stats')
    \<and> storage_ok hash st' \<and> stats_sum stats' = stats_sum stats + 1"
proof -
  let ?c = "parseCommand line"
  have set: "\<exists>st'. storage_set hash (args ?c ! 0) (args ?c ! 1) st = Some st' \<and> storage_ok hash st'"
    by (rule storage_set_total [OF ok])
  have del: "\<exists>st' b. storage_del hash (fst now) (args ?c ! 0) st = Some (st', b) \<and> storage_ok hash st'"
    by (rule storage_del_total [OF ok])
  have ex: "\<exists>st' b. storage_expire hash (fst now) (snd now) (args ?c ! 0) n st = Some (st', b)
      \<and> storage_ok hash st'"
    if "cmd_type ?c = EXPIRE" "length (args ?c) \<ge> 2" "stoll (args ?c ! 1) = Inr n" "\<not> n \<le> 0" for n
    by (rule storage_expire_total [OF ok]) (use fits that in \<open>simp add: line_fits_def Let_def\<close>)
  show ?thesis
    using set del ex ok
    by (cases "cmd_type ?c"; cases "stoll (args ?c ! 1)") (auto simp: replay_line_def Let_def)
qed

lemma replay_lines_total:
  assumes "storage_ok hash st" and "\<And>j. j < length lines \<Longrightarrow> line_fits (clock (i + j)) (lines ! j)"
  shows "\<exists>st' stats'. replay_lines hash clock i lines (st, stats) = Some (st', stats')
    \<and> storage_ok hash st' \<and> stats_sum stats' = stats_sum stats + of_nat (length lines)"
  using assms
proof (induction lines arbitrary: i st stats)
  case (Cons line lines)
  have "line_fits (clock i) line" using Cons.prems(2) [of 0] by simp
  from replay_line_total [OF Cons.prems(1) this, of stats] obtain st1 stats1 where
    s1: "replay_line hash (clock i) line (st, stats) = Some (st1, stats1)" "storage_ok hash st1"
      "stats_sum stats1 = stats_sum stats + 1" by blast
  have "line_fits (clock (Suc i + j)) (lines ! j)" if "j < length lines" for j
    using Cons.prems(2) [of "Suc j"] that by simp
  from Cons.IH [OF s1(2) this, of stats1] s1 show ?case by (auto simp: algebra_simps)
qed simp



subsection \<open>A file of records acts like the records\<close>

fun apply_record ::
  "(string \<Rightarrow> size_t) \<Rightarrow> clock2 \<Rightarrow> LogRecord \<Rightarrow> ShardedStorage \<Rightarrow> ShardedStorage option" where
  "apply_record hash now (LogSet k v) st = storage_set hash k v st"
| "apply_record hash now (LogDel k) st = map_option fst (storage_del hash (fst now) k st)"
| "apply_record hash now (LogExpire k n) st =
     (if n \<le> 0 then Some st else map_option fst (storage_expire hash (fst now) (snd now) k n st))"

fun apply_records ::
  "(string \<Rightarrow> size_t) \<Rightarrow> (nat \<Rightarrow> clock2) \<Rightarrow> nat \<Rightarrow> LogRecord list \<Rightarrow> ShardedStorage \<Rightarrow> ShardedStorage option" where
  "apply_records hash clock i [] st = Some st"
| "apply_records hash clock i (r # rs) st =
     (case apply_record hash (clock i) r st of None \<Rightarrow> None
      | Some st' \<Rightarrow> apply_records hash clock (Suc i) rs st')"

lemma replay_record:
  assumes "log_valid r"
  shows "map_option fst (replay_line hash now (log_line r) (st, stats)) = apply_record hash now r st"
proof -
  have ne: "log_line r \<noteq> []" and p: "parseCommand (log_line r) = log_command r"
    using log_line_shape [OF assms] parse_log_line [OF assms] by simp_all
  have s: "r = LogExpire k n \<Longrightarrow> stoll (to_string n) = Inr n" for k n
    using assms by (simp add: stoll_to_string)
  show ?thesis
    using ne s unfolding replay_line_def p
    by (cases r) (auto simp: Let_def split: Option.bind_splits)
qed

lemma replay_records_lines:
  assumes "\<forall>r\<in>set rs. log_valid r"
  shows "map_option fst (replay_lines hash clock i (map log_line rs) (st, stats)) =
    apply_records hash clock i rs st"
  using assms
proof (induction rs arbitrary: i st stats)
  case (Cons r rs)
  have r: "map_option fst (replay_line hash (clock i) (log_line r) (st, stats)) =
      apply_record hash (clock i) r st"
    using Cons.prems by (intro replay_record) simp
  show ?case
    using Cons r by (cases "replay_line hash (clock i) (log_line r) (st, stats)") (auto split: option.splits)
qed simp

lemma replay_file_of:
  assumes "\<forall>r\<in>set rs. log_valid r"
  shows "map_option fst (replay hash clock (Some (file_of log_line rs)) st) = apply_records hash clock 0 rs st"
  using replay_records_lines [OF assms] aof_codec.file_lines [OF assms] by (simp add: replay_def)

end
