(* ===== verification/Response.thy ===== *)
theory Response
  imports Cpp_Std
begin

text \<open>
  The reply lines of \<open>src/protocol/response.cpp\<close>: one marker character, a payload, a
  newline. The framing lemmas say when a reply is one line and when two replies can be told
  apart.
\<close>

definition pongResponse :: string where
  "pongResponse = ''+PONG'' @ [newline]"

definition okResponse :: string where
  "okResponse = ''+OK'' @ [newline]"

definition valueResponse :: "string \<Rightarrow> string" where
  "valueResponse value = ''$'' @ value @ [newline]"

definition nilResponse :: string where
  "nilResponse = ''$nil'' @ [newline]"

text \<open>\<open>integerResponse\<close> takes a 32-bit \<open>int\<close>.\<close>

definition integerResponse :: "int \<Rightarrow> string" where
  "integerResponse value = (let num = to_string value in '':'' @ num @ [newline])"

definition errorResponse :: "string \<Rightarrow> string" where
  "errorResponse message = ''-ERR '' @ message @ [newline]"

lemmas response_defs =
  pongResponse_def okResponse_def valueResponse_def nilResponse_def integerResponse_def
  errorResponse_def Let_def

text \<open>A reply is framed when its only newline is its last character.\<close>

definition one_line :: "string \<Rightarrow> bool" where
  "one_line r \<longleftrightarrow> r \<noteq> [] \<and> last r = newline \<and> newline \<notin> set (butlast r)"

lemma one_line_snoc: "one_line (r @ [newline]) \<longleftrightarrow> newline \<notin> set r"
  by (simp add: one_line_def)

lemma to_string_no_newline [simp]: "newline \<notin> set (to_string x)"
  using to_string_no_space by fastforce

lemma one_line_simps [simp]:
  "one_line pongResponse" "one_line okResponse" "one_line nilResponse"
  "one_line (integerResponse x)"
  "one_line (valueResponse v) \<longleftrightarrow> newline \<notin> set v"
  "one_line (errorResponse m) \<longleftrightarrow> newline \<notin> set m"
  by (simp_all add: response_defs one_line_def butlast_append)

text \<open>Integer and value replies determine what they carry.\<close>

lemma integerResponse_inj: "integerResponse x = integerResponse y \<longleftrightarrow> x = y"
  by (auto simp: response_defs dest: to_string_inj)

lemma valueResponse_inj: "valueResponse v = valueResponse w \<longleftrightarrow> v = w"
  by (simp add: response_defs)

lemma value_nil_iff: "valueResponse v = nilResponse \<longleftrightarrow> v = ''nil''"
  by (auto simp: response_defs)

end
