(* ===== verification/Dispatcher.thy ===== *)
theory Dispatcher
  imports AOF_Writer AOF_Replay Response
begin

text \<open>
  The command dispatcher, \<open>src/protocol/dispatcher.cpp\<close> with
  \<open>include/protocol/dispatcher.h\<close>. The state of a dispatch is the dispatcher's counters, the
  storage it refers to and the log writer it may have. \<open>now\<close> holds the clock readings of one
  call. The theory shows the reply of every command, that the counters add up, that every
  reply is one line, and what a recovery from the log gives back.
\<close>

record Dispatcher =
  total_requests :: size_t
  total_reads :: size_t
  total_writes :: size_t
  cache_hits :: size_t
  cache_misses :: size_t
  start_time :: time_point

record DispState =
  disp :: Dispatcher
  storage :: ShardedStorage
  aof :: "AOFWriter option"

definition new_Dispatcher :: "time_point \<Rightarrow> Dispatcher" where
  "new_Dispatcher now = \<lparr>total_requests = 0, total_reads = 0, total_writes = 0, cache_hits = 0,
     cache_misses = 0, start_time = now\<rparr>"

text \<open>Conversion of a 64-bit value to the 32-bit \<open>int\<close> parameter of \<open>integerResponse\<close>.\<close>

definition to_int32 :: "int \<Rightarrow> int" where
  "to_int32 x = (x + 2 ^ 31) mod 2 ^ 32 - 2 ^ 31"

lemma to_int32_id: "int32_ok x \<Longrightarrow> to_int32 x = x"
  by (simp add: to_int32_def int32_ok_def)

definition with_disp :: "(Dispatcher \<Rightarrow> Dispatcher) \<Rightarrow> DispState \<Rightarrow> DispState" where
  "with_disp f s = s\<lparr>disp := f (disp s)\<rparr>"

definition log_if :: "bool \<Rightarrow> LogRecord \<Rightarrow> DispState \<Rightarrow> DispState" where
  "log_if b r s = (if b then s\<lparr>aof := map_option (aof_log r) (aof s)\<rparr> else s)"

definition count_request :: "Dispatcher \<Rightarrow> Dispatcher" where
  "count_request d = d\<lparr>total_requests := total_requests d + 1\<rparr>"

definition count_write :: "Dispatcher \<Rightarrow> Dispatcher" where
  "count_write d = d\<lparr>total_writes := total_writes d + 1\<rparr>"

definition count_read :: "bool \<Rightarrow> Dispatcher \<Rightarrow> Dispatcher" where
  "count_read hit d = (let d' = d\<lparr>total_reads := total_reads d + 1\<rparr> in
     if hit then d'\<lparr>cache_hits := cache_hits d' + 1\<rparr> else d'\<lparr>cache_misses := cache_misses d' + 1\<rparr>)"

definition stats_text :: "int \<Rightarrow> DispState \<Rightarrow> string" where
  "stats_text uptime s =
     ''total_requests:'' @ to_string (uint (total_requests (disp s)))
     @ '',total_reads:'' @ to_string (uint (total_reads (disp s)))
     @ '',total_writes:'' @ to_string (uint (total_writes (disp s)))
     @ '',cache_hits:'' @ to_string (uint (cache_hits (disp s)))
     @ '',cache_misses:'' @ to_string (uint (cache_misses (disp s)))
     @ '',expired_keys:'' @ to_string (uint (expiredKeysCount (storage s)))
     @ '',evicted_keys:'' @ to_string (uint (evictedKeysCount (storage s)))
     @ '',current_keys:'' @ to_string (int (storage_size (storage s)))
     @ '',uptime_seconds:'' @ to_string uptime"

definition dispatch ::
  "(string \<Rightarrow> size_t) \<Rightarrow> clock2 \<Rightarrow> Command \<Rightarrow> DispState \<Rightarrow> (DispState \<times> string) option" where
  "dispatch hash now cmd s0 =
    (let s = with_disp count_request s0; a = args cmd in
     case cmd_type cmd of
       PING \<Rightarrow> Some (s, pongResponse)
     | SET \<Rightarrow>
         if length a < 2 then Some (s, errorResponse ''wrong number of arguments for 'set' command'')
         else do {
           st \<leftarrow> storage_set hash (a ! 0) (a ! 1) (storage s);
           Some (log_if True (LogSet (a ! 0) (a ! 1)) ((with_disp count_write s)\<lparr>storage := st\<rparr>), okResponse) }
     | GET \<Rightarrow>
         if a = [] then Some (s, errorResponse ''wrong number of arguments for 'get' command'')
         else do {
           (st, r) \<leftarrow> storage_get hash (fst now) (a ! 0) (storage s);
           (case r of
              Some v \<Rightarrow> Some ((with_disp (count_read True) s)\<lparr>storage := st\<rparr>, valueResponse v)
            | None \<Rightarrow> Some ((with_disp (count_read False) s)\<lparr>storage := st\<rparr>, nilResponse)) }
     | DEL \<Rightarrow>
         if a = [] then Some (s, errorResponse ''wrong number of arguments for 'del' command'')
         else do {
           (st, deleted) \<leftarrow> storage_del hash (fst now) (a ! 0) (storage s);
           Some (log_if deleted (LogDel (a ! 0)) ((with_disp count_write s)\<lparr>storage := st\<rparr>),
                 integerResponse (if deleted then 1 else 0)) }
     | EXPIRE \<Rightarrow>
         if length a < 2 then Some (s, errorResponse ''wrong number of arguments for 'expire' command'')
         else (case stoll (a ! 1) of
             Inl _ \<Rightarrow> Some (s, errorResponse ''value is not an integer or out of range'')
           | Inr seconds \<Rightarrow> do {
               (st, success) \<leftarrow> storage_expire hash (fst now) (snd now) (a ! 0) seconds (storage s);
               Some (log_if success (LogExpire (a ! 0) seconds) (s\<lparr>storage := st\<rparr>),
                     integerResponse (if success then 1 else 0)) })
     | TTL \<Rightarrow>
         if a = [] then Some (s, errorResponse ''wrong number of arguments for 'ttl' command'')
         else do {
           (st, n) \<leftarrow> storage_ttl hash (fst now) (snd now) (a ! 0) (storage s);
           Some (s\<lparr>storage := st\<rparr>, integerResponse (to_int32 n)) }
     | STATS \<Rightarrow> do {
           up \<leftarrow> time_diff (fst now) (start_time (disp s));
           Some (s, valueResponse (stats_text (to_seconds up) s)) }
     | UNKNOWN \<Rightarrow> Some (s, errorResponse ''unknown command''))"

subsection \<open>What a client is promised\<close>

text \<open>The protocol as a relation on the visible contents: from \<open>v\<close>, command \<open>cmd\<close> at time
  \<open>now\<close> may lead to \<open>v'\<close> and the given reply. A key past its deadline is absent; \<open>SET\<close> may
  evict other keys.\<close>

definition arity :: "CommandType \<Rightarrow> nat" where
  "arity t = (case t of SET \<Rightarrow> 2 | EXPIRE \<Rightarrow> 2 | GET \<Rightarrow> 1 | DEL \<Rightarrow> 1 | TTL \<Rightarrow> 1 | _ \<Rightarrow> 0)"

definition command_name :: "CommandType \<Rightarrow> string" where
  "command_name t = (case t of SET \<Rightarrow> ''set'' | EXPIRE \<Rightarrow> ''expire'' | GET \<Rightarrow> ''get'' | DEL \<Rightarrow> ''del''
     | TTL \<Rightarrow> ''ttl'' | _ \<Rightarrow> [])"

inductive spec_step ::
  "clock2 \<Rightarrow> Command \<Rightarrow> (string \<Rightarrow> seen_value) \<Rightarrow> (string \<Rightarrow> seen_value) \<Rightarrow> string \<Rightarrow> bool"
  for now cmd v where
  spec_ping: "cmd_type cmd = PING \<Longrightarrow> spec_step now cmd v v pongResponse"
| spec_unknown: "cmd_type cmd = UNKNOWN \<Longrightarrow> spec_step now cmd v v (errorResponse ''unknown command'')"
| spec_stats: "cmd_type cmd = STATS \<Longrightarrow> newline \<notin> set txt \<Longrightarrow> spec_step now cmd v v (valueResponse txt)"
| spec_args: "length (args cmd) < arity (cmd_type cmd) \<Longrightarrow> spec_step now cmd v v
    (errorResponse (''wrong number of arguments for '' @ [CHR 0x27] @ command_name (cmd_type cmd)
       @ [CHR 0x27] @ '' command''))"
| spec_set: "cmd_type cmd = SET \<Longrightarrow> args cmd = k # x # rest \<Longrightarrow> v' k = Some (x, None) \<Longrightarrow>
    (\<And>k'. k' \<noteq> k \<Longrightarrow> v' k' = v k' \<or> v' k' = None) \<Longrightarrow> spec_step now cmd v v' okResponse"
| spec_hit: "cmd_type cmd = GET \<Longrightarrow> args cmd = k # rest \<Longrightarrow> v k = Some (x, ex) \<Longrightarrow>
    live (fst now) (v k) \<Longrightarrow> spec_step now cmd v v (valueResponse x)"
| spec_miss: "cmd_type cmd = GET \<Longrightarrow> args cmd = k # rest \<Longrightarrow> \<not> live (fst now) (v k) \<Longrightarrow>
    spec_step now cmd v (v(k := None)) nilResponse"
| spec_del: "cmd_type cmd = DEL \<Longrightarrow> args cmd = k # rest \<Longrightarrow>
    spec_step now cmd v (v(k := None)) (integerResponse (if live (fst now) (v k) then 1 else 0))"
| spec_expire_bad: "cmd_type cmd = EXPIRE \<Longrightarrow> args cmd = k # n # rest \<Longrightarrow> stoll n = Inl e \<Longrightarrow>
    spec_step now cmd v v (errorResponse ''value is not an integer or out of range'')"
| spec_expire_neg: "cmd_type cmd = EXPIRE \<Longrightarrow> args cmd = k # n # rest \<Longrightarrow> stoll n = Inr secs \<Longrightarrow>
    secs < 0 \<Longrightarrow> spec_step now cmd v v (integerResponse 0)"
| spec_expire: "cmd_type cmd = EXPIRE \<Longrightarrow> args cmd = k # n # rest \<Longrightarrow> stoll n = Inr secs \<Longrightarrow>
    0 \<le> secs \<Longrightarrow> v k = Some (x, ex) \<Longrightarrow> live (fst now) (v k) \<Longrightarrow>
    spec_step now cmd v (v(k \<mapsto> (x, Some (snd now + secs * ns_per_s)))) (integerResponse 1)"
| spec_expire_absent: "cmd_type cmd = EXPIRE \<Longrightarrow> args cmd = k # n # rest \<Longrightarrow> stoll n = Inr secs \<Longrightarrow>
    0 \<le> secs \<Longrightarrow> \<not> live (fst now) (v k) \<Longrightarrow>
    spec_step now cmd v (v(k := None)) (integerResponse 0)"
| spec_ttl: "cmd_type cmd = TTL \<Longrightarrow> args cmd = k # rest \<Longrightarrow> live (fst now) (v k) \<Longrightarrow>
    spec_step now cmd v v (integerResponse (to_int32 (remaining (fst now) (snd now) (v k))))"
| spec_ttl_absent: "cmd_type cmd = TTL \<Longrightarrow> args cmd = k # rest \<Longrightarrow> \<not> live (fst now) (v k) \<Longrightarrow>
    spec_step now cmd v (v(k := None)) (integerResponse (-2))"

text \<open>When a command may be dispatched: the clock is plausible, the deadline an \<open>EXPIRE\<close> asks for
  fits, and the uptime can be computed.\<close>

definition cmd_fits :: "clock2 \<Rightarrow> Command \<Rightarrow> Dispatcher \<Rightarrow> bool" where
  "cmd_fits now cmd d \<longleftrightarrow> clock_ok (fst now) \<and> clock_ok (snd now) \<and> clock_ok (start_time d)
     \<and> (cmd_type cmd = EXPIRE \<longrightarrow> length (args cmd) \<ge> 2 \<longrightarrow>
          (case stoll (args cmd ! 1) of Inl _ \<Rightarrow> True
           | Inr n \<Rightarrow> n < 0 \<or> time_add_seconds (snd now) n \<noteq> None))"

lemma log_if_sel [simp]:
  "disp (log_if b r s) = disp s" "storage (log_if b r s) = storage s"
  by (simp_all add: log_if_def)

lemma with_disp_sel [simp]:
  "storage (with_disp f s) = storage s" "aof (with_disp f s) = aof s" "disp (with_disp f s) = f (disp s)"
  by (simp_all add: with_disp_def)

lemma time_diff_clock: "clock_ok a \<Longrightarrow> clock_ok b \<Longrightarrow> time_diff a b = Some (a - b)"
  by (auto simp: time_diff_def clock_ok_def int64_ok_def)

lemma stats_text_line: "newline \<notin> set (stats_text up s)"
  by (simp add: stats_text_def)

lemma dispatch_short:
  assumes "length (args cmd) < arity (cmd_type cmd)"
  shows "dispatch hash now cmd s = Some (with_disp count_request s,
    errorResponse (''wrong number of arguments for '' @ [CHR 0x27] @ command_name (cmd_type cmd)
       @ [CHR 0x27] @ '' command''))"
  using assms
  by (cases "cmd_type cmd") (simp_all add: dispatch_def arity_def command_name_def Let_def)

text \<open>The dispatch of one command is defined, keeps the storage well formed and follows the protocol.\<close>

definition meets_spec :: "(string \<Rightarrow> size_t) \<Rightarrow> clock2 \<Rightarrow> Command \<Rightarrow> DispState \<Rightarrow> bool" where
  "meets_spec hash now cmd s \<longleftrightarrow> (\<exists>s' reply. dispatch hash now cmd s = Some (s', reply)
     \<and> storage_ok hash (storage s') \<and> start_time (disp s') = start_time (disp s)
     \<and> spec_step now cmd (storage_view hash (storage s)) (storage_view hash (storage s')) reply)"

lemma arity_args:
  "\<not> length (args cmd) < arity (cmd_type cmd) \<Longrightarrow> arity (cmd_type cmd) = 1 \<Longrightarrow> \<exists>k rest. args cmd = k # rest"
  "\<not> length (args cmd) < arity (cmd_type cmd) \<Longrightarrow> arity (cmd_type cmd) = 2 \<Longrightarrow> \<exists>k x rest. args cmd = k # x # rest"
  by (cases "args cmd"; cases "tl (args cmd)"; simp)+

lemmas disp_simps = dispatch_def Let_def count_request_def count_write_def count_read_def meets_spec_def

lemma meets_set:
  assumes ok: "storage_ok hash (storage s)" and c: "cmd_type cmd = SET" and a: "args cmd = k # x # rest"
  shows "meets_spec hash now cmd s"
proof -
  let ?v = "storage_view hash (storage s)"
  obtain st' where st': "storage_set hash k x (storage s) = Some st'" "storage_ok hash st'"
    "storage_view hash st' k = Some (x, None)"
    "\<And>k'. k' \<noteq> k \<Longrightarrow> storage_view hash st' k' = ?v k' \<or> storage_view hash st' k' = None"
    using storage_kv.put_law [OF ok, of None k x] by (auto simp: storage_set_insert)
  with spec_set [where v = ?v and v' = "storage_view hash st'", OF c a st'(3,4)] c a show ?thesis
    by (simp add: disp_simps)
qed

lemma meets_get:
  assumes ok: "storage_ok hash (storage s)" and c: "cmd_type cmd = GET" and a: "args cmd = k # rest"
  shows "meets_spec hash now cmd s"
proof -
  let ?v = "storage_view hash (storage s)"
  obtain st' where st': "storage_get hash (fst now) k (storage s) =
      Some (st', if live (fst now) (?v k) then map_option fst (?v k) else None)" "storage_ok hash st'"
    "storage_view hash st' = (if live (fst now) (?v k) then ?v else ?v(k := None))"
    using storage_kv.fetch_law [OF ok] by blast
  show ?thesis
  proof (cases "live (fst now) (?v k)")
    case True
    then obtain x ex where x: "?v k = Some (x, ex)" by (cases "?v k") auto
    with st' True spec_hit [where v = ?v, OF c a x True] c a show ?thesis by (simp add: disp_simps)
  next
    case False
    with st' spec_miss [where v = ?v, OF c a False] c a show ?thesis by (simp add: disp_simps)
  qed
qed

lemma meets_del:
  assumes ok: "storage_ok hash (storage s)" and c: "cmd_type cmd = DEL" and a: "args cmd = k # rest"
  shows "meets_spec hash now cmd s"
proof -
  let ?v = "storage_view hash (storage s)"
  obtain st' where "storage_del hash (fst now) k (storage s) = Some (st', live (fst now) (?v k))"
    "storage_ok hash st'" "storage_view hash st' = ?v(k := None)"
    using storage_kv.remove_law [OF ok] by blast
  with spec_del [where v = ?v and now = now, OF c a] c a show ?thesis
    by (simp add: disp_simps)
qed

lemma meets_ttl:
  assumes ok: "storage_ok hash (storage s)" and c: "cmd_type cmd = TTL" and a: "args cmd = k # rest"
    and clk: "clock_ok (fst now)" "clock_ok (snd now)"
  shows "meets_spec hash now cmd s"
proof -
  let ?v = "storage_view hash (storage s)"
  have m2: "to_int32 (-2) = -2" by (simp add: to_int32_def)
  obtain st' where st': "storage_ttl hash (fst now) (snd now) k (storage s) =
      Some (st', remaining (fst now) (snd now) (?v k))" "storage_ok hash st'"
    "storage_view hash st' = (if live (fst now) (?v k) then ?v else ?v(k := None))"
    using storage_kv.ttl_law [OF ok clk] by blast
  show ?thesis
  proof (cases "live (fst now) (?v k)")
    case True
    with st' spec_ttl [where v = ?v, OF c a True] c a show ?thesis by (simp add: disp_simps)
  next
    case False
    then have "remaining (fst now) (snd now) (?v k) = -2" by (simp add: remaining_def)
    with st' False spec_ttl_absent [where v = ?v, OF c a False] c a m2 show ?thesis
      by (simp add: disp_simps)
  qed
qed

lemma meets_expire:
  assumes ok: "storage_ok hash (storage s)" and c: "cmd_type cmd = EXPIRE" and a: "args cmd = k # n # rest"
    and fits: "cmd_fits now cmd (disp s)"
  shows "meets_spec hash now cmd s"
proof (cases "stoll n")
  case (Inl e)
  with ok spec_expire_bad [OF c a Inl] c a show ?thesis by (simp add: disp_simps)
next
  case (Inr secs)
  let ?v = "storage_view hash (storage s)"
  show ?thesis
  proof (cases "secs < 0")
    case True
    with ok spec_expire_neg [OF c a Inr True] c a Inr show ?thesis
      by (simp add: disp_simps storage_expire_def)
  next
    case False
    then obtain d where d: "time_add_seconds (snd now) secs = Some d"
      using fits c a Inr by (auto simp: cmd_fits_def)
    from False have nn: "0 \<le> secs" by simp
    obtain st' where st': "storage_expire hash (fst now) (snd now) k secs (storage s) =
        Some (st', live (fst now) (?v k))" "storage_ok hash st'"
      "storage_view hash st' = ?v(k := if live (fst now) (?v k)
          then map_option (\<lambda>(v, _). (v, Some d)) (?v k) else None)"
      using storage_kv.expire_law [OF ok nn d] by blast
    show ?thesis
    proof (cases "live (fst now) (?v k)")
      case True
      then obtain x ex where x: "?v k = Some (x, ex)" by (cases "?v k") auto
      with st' True spec_expire [where v = ?v, OF c a Inr nn x True] time_add_value [OF d] c a Inr
      show ?thesis by (simp add: disp_simps)
    next
      case False
      with st' spec_expire_absent [where v = ?v, OF c a Inr nn False] c a Inr show ?thesis
        by (simp add: disp_simps)
    qed
  qed
qed

lemma meets_all:
  assumes ok: "storage_ok hash (storage s)" and fits: "cmd_fits now cmd (disp s)"
  shows "meets_spec hash now cmd s"
proof (cases "length (args cmd) < arity (cmd_type cmd)")
  case True
  with ok spec_args [OF True] dispatch_short [OF True, of hash now s] show ?thesis
    by (simp add: meets_spec_def count_request_def)
next
  case False
  note one = arity_args(1) [OF False] and two = arity_args(2) [OF False]
  note clk = fits [unfolded cmd_fits_def]
  show ?thesis
  proof (cases "cmd_type cmd")
    case PING
    with ok spec_ping [OF PING] show ?thesis by (simp add: disp_simps)
  next
    case UNKNOWN
    with ok spec_unknown [OF UNKNOWN] show ?thesis by (simp add: disp_simps)
  next
    case STATS
    with ok spec_stats [OF STATS stats_text_line] clk show ?thesis by (simp add: disp_simps time_diff_clock)
  next
    case SET
    with two obtain k x rest where "args cmd = k # x # rest" by (auto simp: arity_def)
    with ok SET show ?thesis by (rule meets_set)
  next
    case GET
    with one obtain k rest where "args cmd = k # rest" by (auto simp: arity_def)
    with ok GET show ?thesis by (rule meets_get)
  next
    case DEL
    with one obtain k rest where "args cmd = k # rest" by (auto simp: arity_def)
    with ok DEL show ?thesis by (rule meets_del)
  next
    case TTL
    with one obtain k rest where "args cmd = k # rest" by (auto simp: arity_def)
    with ok TTL show ?thesis using clk by (intro meets_ttl) simp_all
  next
    case EXPIRE
    with two obtain k x rest where "args cmd = k # x # rest" by (auto simp: arity_def)
    with ok EXPIRE show ?thesis using fits by (rule meets_expire)
  qed
qed



subsection \<open>A sequence of commands\<close>

fun serve ::
  "(string \<Rightarrow> size_t) \<Rightarrow> (clock2 \<times> Command) list \<Rightarrow> DispState \<Rightarrow> (DispState \<times> string list) option" where
  "serve hash [] s = Some (s, [])"
| "serve hash ((now, cmd) # cs) s =
     (case dispatch hash now cmd s of None \<Rightarrow> None
      | Some (s', reply) \<Rightarrow>
          (case serve hash cs s' of None \<Rightarrow> None | Some (s'', replies) \<Rightarrow> Some (s'', reply # replies)))"

definition clean :: "(string \<Rightarrow> seen_value) \<Rightarrow> bool" where
  "clean v \<longleftrightarrow> (\<forall>k x ex. v k = Some (x, ex) \<longrightarrow> newline \<notin> set x)"

definition args_clean :: "Command \<Rightarrow> bool" where
  "args_clean cmd \<longleftrightarrow> (\<forall>a\<in>set (args cmd). newline \<notin> set a)"

lemma spec_step_framed:
  assumes "spec_step now cmd v v' reply" and "clean v" and "args_clean cmd"
  shows "one_line reply \<and> clean v'"
  using assms
proof (cases rule: spec_step.cases)
  case (spec_set k x rest)
  have "newline \<notin> set y" if y: "v' k' = Some (y, ex)" for k' y ex
  proof (cases "k' = k")
    case True
    then show ?thesis using spec_set assms(3) y by (simp add: args_clean_def)
  next
    case False
    then have "v k' = Some (y, ex)" using spec_set(5) [of k'] y by auto
    then show ?thesis using assms(2) unfolding clean_def by blast
  qed
  then show ?thesis using spec_set by (simp add: clean_def)
qed (auto simp: clean_def command_name_def split: CommandType.splits)

lemma serve_framed:
  assumes "storage_ok hash (storage s)" and "clean (storage_view hash (storage s))"
    and "\<forall>(now, cmd)\<in>set cs. args_clean cmd \<and> cmd_fits now cmd (disp s)"
  shows "\<exists>s' replies. serve hash cs s = Some (s', replies) \<and> length replies = length cs
    \<and> (\<forall>r\<in>set replies. one_line r) \<and> storage_ok hash (storage s')"
  using assms
proof (induction cs arbitrary: s)
  case (Cons c cs)
  obtain now cmd where c: "c = (now, cmd)" by (cases c)
  have fits: "cmd_fits now cmd (disp s)" "args_clean cmd" using Cons.prems(3) c by auto
  from meets_all [OF Cons.prems(1) fits(1)] obtain s1 r where
    d: "dispatch hash now cmd s = Some (s1, r)" "storage_ok hash (storage s1)"
      "start_time (disp s1) = start_time (disp s)"
    and sp: "spec_step now cmd (storage_view hash (storage s)) (storage_view hash (storage s1)) r"
    unfolding meets_spec_def by blast
  from spec_step_framed [OF sp Cons.prems(2) fits(2)]
  have r: "one_line r" "clean (storage_view hash (storage s1))" by simp_all
  have "\<forall>(now, cmd)\<in>set cs. args_clean cmd \<and> cmd_fits now cmd (disp s1)"
    using Cons.prems(3) d(3) by (auto simp: cmd_fits_def)
  from Cons.IH [OF d(2) r(2) this] d(1) r(1) c show ?case by auto
qed simp

lemma one_line_split: "one_line r \<Longrightarrow> r = butlast r @ [newline] \<and> newline \<notin> set (butlast r)"
  by (metis append_butlast_last_id one_line_def)

text \<open>C23. Framing. Commands whose arguments hold no newline, served one after the other on a
  storage whose values hold none, give exactly one reply line each: reading the output line by
  line gives the replies back, one per command and in order.\<close>

theorem serve_one_line_per_command:
  assumes "storage_ok hash (storage s)" and "clean (storage_view hash (storage s))"
    and "\<forall>(now, cmd)\<in>set cs. args_clean cmd \<and> cmd_fits now cmd (disp s)"
  shows "\<exists>s' replies. serve hash cs s = Some (s', replies) \<and> length replies = length cs
    \<and> getlines (concat replies) = map butlast replies"
proof -
  obtain s' replies where r: "serve hash cs s = Some (s', replies)" "length replies = length cs"
    "\<forall>r\<in>set replies. one_line r"
    using serve_framed [OF assms] by blast
  have "concat replies = concat (map (\<lambda>l. l @ [newline]) (map butlast replies))"
    using r(3) one_line_split by (induction replies) fastforce+
  then have "getlines (concat replies) = map butlast replies"
    using getlines_concat [of "map butlast replies"] r(3) one_line_split by fastforce
  with r show ?thesis by blast
qed

theorem serve_one_line_per_command_witness:
  "\<exists>s' replies. serve (\<lambda>_. 1) [((0, 0), \<lparr>cmd_type = SET, args = [''a'', ''b'']\<rparr>),
      ((1, 1), \<lparr>cmd_type = GET, args = [''a'']\<rparr>)]
      \<lparr>disp = new_Dispatcher 0, storage = new_ShardedStorage 4, aof = None\<rparr> = Some (s', replies)
    \<and> length replies = 2 \<and> getlines (concat replies) = map butlast replies"
proof -
  let ?s = "\<lparr>disp = new_Dispatcher 0, storage = new_ShardedStorage 4, aof = None\<rparr>"
  let ?cs = "[((0, 0), \<lparr>cmd_type = SET, args = [''a'', ''b'']\<rparr>),
      ((1, 1), \<lparr>cmd_type = GET, args = [''a'']\<rparr>)] :: (clock2 \<times> Command) list"
  have i: "shardIndex (\<lambda>_. 1) k = 1" for k by (simp add: shardIndex_def NUM_SHARDS_def)
  have "storage_ok (\<lambda>_. 1) (storage ?s)" by (simp add: storage_ok_new)
  moreover have "clean (storage_view (\<lambda>_. 1) (storage ?s))"
    unfolding clean_def storage_view_def i
    by (simp add: new_ShardedStorage_def NUM_SHARDS_def empty_shard_def view_def)
  moreover have "\<forall>(now, cmd)\<in>set ?cs. args_clean cmd \<and> cmd_fits now cmd (disp ?s)"
    by (simp add: args_clean_def cmd_fits_def clock_ok_def int64_ok_def new_Dispatcher_def)
  moreover have two: "length ?cs = 2" by simp
  ultimately have "\<exists>s' replies. serve (\<lambda>_. 1) ?cs ?s = Some (s', replies) \<and> length replies = length ?cs
    \<and> getlines (concat replies) = map butlast replies"
    by (intro serve_one_line_per_command)
  then show ?thesis unfolding two .
qed

subsection \<open>The counters\<close>

lemma dispatch_counts:
  assumes "dispatch hash now cmd s = Some (s', r)"
  shows "total_requests (disp s') = total_requests (disp s) + 1"
    and "cache_hits (disp s') + cache_misses (disp s') - total_reads (disp s') =
         cache_hits (disp s) + cache_misses (disp s) - total_reads (disp s)"
  using assms
  by (auto simp: dispatch_def Let_def count_request_def count_write_def count_read_def
      split: CommandType.splits if_splits sum.splits option.splits Option.bind_splits)

text \<open>The counters reported by \<open>STATS\<close>. After any sequence of commands on a fresh
  dispatcher, the requests counted are the commands served, and hits and misses add up to the
  reads, modulo the 64 bits of the counters.\<close>

theorem serve_counters:
  assumes "serve hash cs \<lparr>disp = new_Dispatcher t0, storage = st, aof = w\<rparr> = Some (s', replies)"
  shows "total_requests (disp s') = of_nat (length cs)
    \<and> cache_hits (disp s') + cache_misses (disp s') = total_reads (disp s')"
proof -
  have "total_requests (disp s') = total_requests (disp s) + of_nat (length cs)
    \<and> cache_hits (disp s') + cache_misses (disp s') - total_reads (disp s') =
         cache_hits (disp s) + cache_misses (disp s) - total_reads (disp s)"
    if "serve hash cs s = Some (s', replies)" for s
    using that
  proof (induction cs arbitrary: s replies)
    case (Cons c cs)
    obtain now cmd where c: "c = (now, cmd)" by (cases c)
    from Cons.prems c obtain s1 r rs where s1: "dispatch hash now cmd s = Some (s1, r)"
      "serve hash cs s1 = Some (s', rs)"
      by (auto split: option.splits prod.splits)
    show ?case using Cons.IH [OF s1(2)] dispatch_counts [OF s1(1)] by simp
  qed simp
  from this [OF assms] show ?thesis by (simp add: new_Dispatcher_def)
qed

theorem serve_counters_witness:
  "\<exists>s' replies. serve (\<lambda>_. 0) [((0, 0), \<lparr>cmd_type = GET, args = [''a'']\<rparr>), ((0, 0), \<lparr>cmd_type = PING, args = []\<rparr>)]
      \<lparr>disp = new_Dispatcher 0, storage = new_ShardedStorage 16, aof = None\<rparr> = Some (s', replies)
    \<and> total_requests (disp s') = 2 \<and> cache_hits (disp s') + cache_misses (disp s') = total_reads (disp s')"
proof -
  let ?cs = "[((0, 0), \<lparr>cmd_type = GET, args = [''a'']\<rparr>), ((0, 0), \<lparr>cmd_type = PING, args = []\<rparr>)]
      :: (clock2 \<times> Command) list"
  let ?s = "\<lparr>disp = new_Dispatcher 0, storage = new_ShardedStorage 16, aof = None\<rparr>"
  obtain st' r where "storage_get (\<lambda>_. 0) 0 ''a'' (new_ShardedStorage 16) = Some (st', r)"
    using storage_kv.fetch_law [OF storage_ok_new, where t = 0 and k = "''a''"] by blast
  then obtain s' replies where "serve (\<lambda>_. 0) ?cs ?s = Some (s', replies)"
    by (cases r) (simp_all add: dispatch_def Let_def)
  from serve_counters [OF this] this show ?thesis by auto
qed

subsection \<open>The width of the TTL reply\<close>

text \<open>C26. Narrowing. \<open>TTL\<close> reports the remaining seconds exactly when they fit 32 bits; a live
  key with two seconds less than 2 to the power 32 left is reported with the reply for a
  missing key.\<close>

theorem ttl_reply_narrowed:
  assumes "storage_ok hash (storage s)" and "clock_ok (fst now)" and "clock_ok (snd now)"
    and "storage_view hash (storage s) k = Some (x, Some d)" and "fst now < d" and "snd now \<le> d"
    and n: "n = (d - snd now) div ns_per_s"
  shows "\<exists>s' r. dispatch hash now \<lparr>cmd_type = TTL, args = [k]\<rparr> s = Some (s', r)
    \<and> (n < 2 ^ 31 \<longrightarrow> r = integerResponse n) \<and> (n = 2 ^ 32 - 2 \<longrightarrow> r = integerResponse (-2))"
proof -
  have rem: "remaining (fst now) (snd now) (storage_view hash (storage s) k) = n"
    using assms(4-6) n by (simp add: remaining_def pos_imp_zdiv_nonneg_iff max_def)
  obtain st' where "storage_ttl hash (fst now) (snd now) k (storage s) = Some (st', n)"
    using storage_kv.ttl_law [OF assms(1-3), of k] rem by auto
  then have "dispatch hash now \<lparr>cmd_type = TTL, args = [k]\<rparr> s =
      Some ((with_disp count_request s)\<lparr>storage := st'\<rparr>, integerResponse (to_int32 n))"
    by (simp add: dispatch_def Let_def)
  moreover have "0 \<le> n" using assms(6) n by (simp add: pos_imp_zdiv_nonneg_iff)
  then have "n < 2 ^ 31 \<Longrightarrow> to_int32 n = n" by (intro to_int32_id) (simp add: int32_ok_def)
  moreover have "to_int32 (2 ^ 32 - 2) = -2" by (simp add: to_int32_def)
  ultimately show ?thesis by auto
qed

theorem ttl_reply_narrowed_witness:
  "\<exists>st s' r. storage_insert (\<lambda>_. 0) ''k'' ''v'' (Some (4294967294 * ns_per_s)) (new_ShardedStorage 16) = Some st
    \<and> dispatch (\<lambda>_. 0) (0, 0) \<lparr>cmd_type = TTL, args = [''k'']\<rparr>
        \<lparr>disp = new_Dispatcher 0, storage = st, aof = None\<rparr> = Some (s', r)
    \<and> r = integerResponse (-2)"
proof -
  have "deadline_ok (Some (4294967294 * ns_per_s))" by (simp add: int64_ok_def)
  from storage_kv.put_law [OF storage_ok_new this, of "\<lambda>_. 0" "''k''" "''v''" 16] obtain st where
    st: "storage_insert (\<lambda>_. 0) ''k'' ''v'' (Some (4294967294 * ns_per_s)) (new_ShardedStorage 16) = Some st"
    "storage_ok (\<lambda>_. 0) st" "storage_view (\<lambda>_. 0) st ''k'' = Some (''v'', Some (4294967294 * ns_per_s))"
    by auto
  let ?s = "\<lparr>disp = new_Dispatcher 0, storage = st, aof = None\<rparr>"
  have "\<exists>s' r. dispatch (\<lambda>_. 0) (0, 0) \<lparr>cmd_type = TTL, args = [''k'']\<rparr> ?s = Some (s', r)
      \<and> ((2::int) ^ 32 - 2 < 2 ^ 31 \<longrightarrow> r = integerResponse (2 ^ 32 - 2))
      \<and> ((2::int) ^ 32 - 2 = 2 ^ 32 - 2 \<longrightarrow> r = integerResponse (-2))"
    by (rule ttl_reply_narrowed [where x = "''v''" and d = "4294967294 * ns_per_s"])
       (use st in \<open>simp_all add: clock_ok_def int64_ok_def\<close>)
  with st(1) show ?thesis by auto
qed

end
