(* ===== verification/Recovery.thy ===== *)
theory Recovery
  imports Dispatcher
begin

text \<open>
  Persistence end to end: the commands a dispatcher serves, the lines it logs, and the storage
  that a replay of those lines builds (\<open>dispatcher.cpp\<close>, \<open>aof_writer.cpp\<close>,
  \<open>aof_replay.cpp\<close>, \<open>sharded_storage.cpp\<close> together). It shows when recovery is exact, what it
  guarantees otherwise, and two ways in which the log and the storage drift apart.
\<close>

subsection \<open>What a command logs\<close>

definition records_of :: "(string \<Rightarrow> size_t) \<Rightarrow> clock2 \<Rightarrow> Command \<Rightarrow> ShardedStorage \<Rightarrow> LogRecord list" where
  "records_of hash now cmd st = (let a = args cmd in case cmd_type cmd of
      SET \<Rightarrow> if length a < 2 then [] else [LogSet (a ! 0) (a ! 1)]
    | DEL \<Rightarrow> if a \<noteq> [] \<and> live (fst now) (storage_view hash st (a ! 0)) then [LogDel (a ! 0)] else []
    | EXPIRE \<Rightarrow> if length a < 2 then [] else (case stoll (a ! 1) of Inl _ \<Rightarrow> []
        | Inr n \<Rightarrow> if 0 \<le> n \<and> live (fst now) (storage_view hash st (a ! 0)) then [LogExpire (a ! 0) n] else [])
    | _ \<Rightarrow> [])"

definition aof_on :: "AOFWriter \<Rightarrow> bool" where
  "aof_on w \<longleftrightarrow> enabled w \<and> \<not> stopped w"

lemma aof_log_on: "aof_on w \<Longrightarrow> aof_log r w = w\<lparr>queue := queue w @ [log_line r]\<rparr>"
  by (simp add: aof_log_def enqueue_def aof_on_def)

lemma del_result:
  "storage_ok hash st \<Longrightarrow> storage_del hash t k st = Some (st', b) \<Longrightarrow> b = live t (storage_view hash st k)"
  using storage_kv.remove_law [of hash st t k] by auto

lemma expire_result:
  assumes "storage_ok hash st" and "n < 0 \<or> time_add_seconds t' n \<noteq> None"
    and "storage_expire hash t t' k n st = Some (st', b)"
  shows "b = (0 \<le> n \<and> live t (storage_view hash st k))"
proof (cases "n < 0")
  case True
  then show ?thesis using assms(3) by (simp add: storage_expire_def)
next
  case False
  then obtain d where "time_add_seconds t' n = Some d" using assms(2) by auto
  with storage_kv.expire_law [OF assms(1) _ this, of t k] False assms(3) show ?thesis by auto
qed

lemma dispatch_logs:
  assumes ok: "storage_ok hash (storage s)" and fits: "cmd_fits now cmd (disp s)"
    and d: "dispatch hash now cmd s = Some (s', r)" and w: "aof s = Some w" "aof_on w"
  shows "aof s' = Some (w\<lparr>queue := queue w @ map log_line (records_of hash now cmd (storage s))\<rparr>)"
proof (cases "cmd_type cmd")
  case DEL
  then show ?thesis using d w
    by (auto simp: dispatch_def records_of_def Let_def log_if_def aof_log_on
        dest!: del_result [OF ok] split: if_splits Option.bind_splits)
next
  case EXPIRE
  show ?thesis
  proof (cases "length (args cmd) < 2 \<or> (\<exists>e. stoll (args cmd ! 1) = Inl e)")
    case True
    then show ?thesis using d w EXPIRE by (auto simp: dispatch_def records_of_def Let_def)
  next
    case False
    then obtain n where n: "stoll (args cmd ! 1) = Inr n" "\<not> length (args cmd) < 2"
      by (cases "stoll (args cmd ! 1)") auto
    with d EXPIRE obtain st' b where
      e: "storage_expire hash (fst now) (snd now) (args cmd ! 0) n (storage s) = Some (st', b)"
      and s': "s' = log_if b (LogExpire (args cmd ! 0) n) ((with_disp count_request s)\<lparr>storage := st'\<rparr>)"
      by (auto simp: dispatch_def Let_def split: Option.bind_splits)
    have "b = (0 \<le> n \<and> live (fst now) (storage_view hash (storage s) (args cmd ! 0)))"
      by (rule expire_result [OF ok _ e]) (use fits EXPIRE n in \<open>auto simp: cmd_fits_def\<close>)
    then show ?thesis using s' n w EXPIRE by (simp add: records_of_def Let_def log_if_def aof_log_on)
  qed
qed (use d w in \<open>auto simp: dispatch_def records_of_def Let_def log_if_def aof_log_on
        split: if_splits Option.bind_splits option.splits\<close>)

lemma apply_records_append:
  "apply_records hash clock i (rs @ rs') st =
     (case apply_records hash clock i rs st of None \<Rightarrow> None
      | Some st' \<Rightarrow> apply_records hash clock (i + length rs) rs' st')"
  by (induction rs arbitrary: i st) (auto split: option.splits)

lemma records_valid:
  assumes "\<forall>a\<in>set (args cmd). loggable a"
  shows "\<forall>r\<in>set (records_of hash now cmd st). log_valid r"
proof -
  have "args cmd \<noteq> [] \<Longrightarrow> loggable (args cmd ! 0)"
    "\<not> length (args cmd) < 2 \<Longrightarrow> loggable (args cmd ! 0) \<and> loggable (args cmd ! Suc 0)"
    using assms by (cases "args cmd"; cases "tl (args cmd)"; auto)+
  then show ?thesis
    by (auto simp: records_of_def Let_def stoll_range split: CommandType.splits sum.splits if_splits)
qed

subsection \<open>Serving, logging and replaying side by side\<close>

fun serve_records :: "(string \<Rightarrow> size_t) \<Rightarrow> (clock2 \<times> Command) list \<Rightarrow> DispState \<Rightarrow> LogRecord list" where
  "serve_records hash [] s = []"
| "serve_records hash ((now, cmd) # cs) s = records_of hash now cmd (storage s) @
     (case dispatch hash now cmd s of None \<Rightarrow> [] | Some (s', _) \<Rightarrow> serve_records hash cs s')"

text \<open>A relation between the served storage and the one rebuilt from its log, kept by every allowed
  command, holds at the end of a whole sequence of commands.\<close>

locale log_simulation =
  fixes hash :: "string \<Rightarrow> size_t"
    and clock :: "nat \<Rightarrow> clock2"
    and sim :: "ShardedStorage \<Rightarrow> ShardedStorage \<Rightarrow> bool"
    and allowed :: "clock2 \<Rightarrow> Command \<Rightarrow> bool"
  assumes sim_step: "storage_ok hash (storage s) \<Longrightarrow> sim (storage s) rst \<Longrightarrow> allowed now cmd \<Longrightarrow>
    dispatch hash now cmd s = Some (s', r) \<Longrightarrow>
    spec_step now cmd (storage_view hash (storage s)) (storage_view hash (storage s')) r \<Longrightarrow>
    \<exists>rst'. apply_records hash clock i (records_of hash now cmd (storage s)) rst = Some rst'
      \<and> sim (storage s') rst'"
begin

lemma serve_sim:
  assumes "storage_ok hash (storage s)" and "sim (storage s) rst"
    and "aof s = Some w" and "aof_on w"
    and "\<forall>(now, cmd)\<in>set cs. allowed now cmd \<and> cmd_fits now cmd (disp s) \<and> (\<forall>a\<in>set (args cmd). loggable a)"
  shows "\<exists>s' replies rst'. serve hash cs s = Some (s', replies)
    \<and> aof s' = Some (w\<lparr>queue := queue w @ map log_line (serve_records hash cs s)\<rparr>)
    \<and> (\<forall>r\<in>set (serve_records hash cs s). log_valid r)
    \<and> apply_records hash clock i (serve_records hash cs s) rst = Some rst' \<and> sim (storage s') rst'"
  using assms
proof (induction cs arbitrary: s w rst i)
  case Nil
  then show ?case by simp
next
  case (Cons c cs)
  obtain now cmd where c: "c = (now, cmd)" by (cases c)
  have fits: "cmd_fits now cmd (disp s)" "allowed now cmd" "\<forall>a\<in>set (args cmd). loggable a"
    using Cons.prems(5) c by auto
  from meets_all [OF Cons.prems(1) fits(1)] obtain s1 r where
    d: "dispatch hash now cmd s = Some (s1, r)" "storage_ok hash (storage s1)"
      "start_time (disp s1) = start_time (disp s)"
    and sp: "spec_step now cmd (storage_view hash (storage s)) (storage_view hash (storage s1)) r"
    unfolding meets_spec_def by blast
  let ?rs = "records_of hash now cmd (storage s)"
  let ?w = "w\<lparr>queue := queue w @ map log_line ?rs\<rparr>"
  from sim_step [OF Cons.prems(1,2) fits(2) d(1) sp] obtain rst1 where
    rst1: "apply_records hash clock i ?rs rst = Some rst1" "sim (storage s1) rst1" by blast
  have w1: "aof s1 = Some ?w" "aof_on ?w"
    using dispatch_logs [OF Cons.prems(1) fits(1) d(1) Cons.prems(3,4)] Cons.prems(4)
    by (simp_all add: aof_on_def)
  have "\<forall>(now, cmd)\<in>set cs. allowed now cmd \<and> cmd_fits now cmd (disp s1) \<and> (\<forall>a\<in>set (args cmd). loggable a)"
    using Cons.prems(5) d(3) by (auto simp: cmd_fits_def)
  from Cons.IH [OF d(2) rst1(2) w1 this, of "i + length ?rs"] c d(1) rst1(1)
    records_valid [OF fits(3), of hash now "storage s"]
  show ?case by (auto simp: apply_records_append)
qed

end

subsection \<open>Exact recovery without deadlines\<close>

definition no_deadlines :: "(string \<Rightarrow> size_t) \<Rightarrow> ShardedStorage \<Rightarrow> bool" where
  "no_deadlines hash st \<longleftrightarrow> (\<forall>k x ex. storage_view hash st k = Some (x, ex) \<longrightarrow> ex = None)"

lemma no_deadlinesD: "no_deadlines hash st \<Longrightarrow> storage_view hash st k = Some (x, ex) \<Longrightarrow> ex = None"
  unfolding no_deadlines_def by blast

lemma no_deadlines_live: "no_deadlines hash st \<Longrightarrow> live t (storage_view hash st k) \<longleftrightarrow> storage_view hash st k \<noteq> None"
proof (cases "storage_view hash st k")
  case (Some p)
  assume "no_deadlines hash st"
  with Some have "snd p = None" unfolding no_deadlines_def by (metis prod.collapse)
  with Some show ?thesis by (cases p) simp
qed simp

lemma at_shard_same:
  assumes "i < length (shards st)" and "f (shards st ! i, metrics st) = Some ((shards st ! i, metrics st), r)"
  shows "at_shard i f st = Some (st, r)"
  using assms by (simp add: at_shard_def)

lemma entry_no_deadline:
  assumes "no_deadlines hash st" and "map_of (data (shards st ! shardIndex hash k)) k = Some e"
  shows "expires_at e = None"
  using assms by (auto simp: no_deadlines_def storage_view_def view_def)

lemma del_any_time:
  assumes "no_deadlines hash st"
  shows "storage_del hash t k st = storage_del hash t' k st"
proof -
  let ?s = "(shards st ! shardIndex hash k, metrics st)"
  have "shard_del t k ?s = shard_del t' k ?s"
    using entry_no_deadline [OF assms, of k] by (auto simp: shard_del_def isExpired_def split: option.splits)
  then show ?thesis by (simp add: storage_del_def getShard_def at_shard_def)
qed

lemma del_absent:
  assumes "storage_ok hash st" and "storage_view hash st k = None"
  shows "storage_del hash t k st = Some (st, False)"
  unfolding storage_del_def getShard_def
  using assms storage_okD(1) [OF assms(1)]
  by (intro at_shard_same) (simp_all add: shard_del_def storage_view_def view_None)

lemma ttl_keeps:
  assumes "storage_ok hash st" and "no_deadlines hash st"
  shows "\<exists>n. storage_ttl hash t t' k st = Some (st, n)"
proof -
  let ?s = "(shards st ! shardIndex hash k, metrics st)"
  have "\<exists>n. shard_ttl t t' k ?s = Some (?s, n)"
    using entry_no_deadline [OF assms(2), of k] by (auto simp: shard_ttl_def isExpired_def split: option.splits)
  then obtain n where n: "shard_ttl t t' k ?s = Some (?s, n)" by blast
  have "storage_ttl hash t t' k st = Some (st, n)"
    unfolding storage_ttl_def getShard_def
    by (rule at_shard_same) (simp_all add: storage_okD(1) [OF assms(1)] n)
  then show ?thesis by blast
qed

lemma step_recovers:
  assumes ok: "storage_ok hash (storage s)" and nd: "no_deadlines hash (storage s)"
    and d: "dispatch hash now cmd s = Some (s', r)"
    and c: "cmd_type cmd \<noteq> GET" "cmd_type cmd \<noteq> EXPIRE"
  shows "apply_records hash clock i (records_of hash now cmd (storage s)) (storage s) = Some (storage s')"
proof (cases "cmd_type cmd")
  case DEL
  show ?thesis
  proof (cases "args cmd \<noteq> [] \<and> storage_view hash (storage s) (args cmd ! 0) \<noteq> None")
    case True
    with d DEL obtain st' b where "storage_del hash (fst now) (args cmd ! 0) (storage s) = Some (st', b)"
      "storage s' = st'"
      by (auto simp: dispatch_def Let_def split: Option.bind_splits)
    with True DEL show ?thesis
      using del_any_time [OF nd, of "fst (clock i)" "args cmd ! 0" "fst now"] no_deadlines_live [OF nd]
      by (simp add: records_of_def Let_def)
  next
    case False
    then consider "args cmd = []"
      | "args cmd \<noteq> []" "storage_view hash (storage s) (args cmd ! 0) = None" by blast
    then show ?thesis
    proof cases
      case 1
      with DEL d show ?thesis by (auto simp: records_of_def dispatch_def Let_def)
    next
      case 2
      with DEL d show ?thesis
        by (auto simp: records_of_def dispatch_def Let_def del_absent [OF ok 2(2)])
    qed
  qed
next
  case TTL
  with d ttl_keeps [OF ok nd, of "fst now" "snd now" "args cmd ! 0"] show ?thesis
    by (auto simp: records_of_def dispatch_def Let_def split: if_splits)
qed (use d c in \<open>auto simp: records_of_def dispatch_def Let_def split: if_splits Option.bind_splits\<close>)

lemma no_deadlines_step:
  assumes "spec_step now cmd (storage_view hash st) (storage_view hash st') r"
    and "no_deadlines hash st" and "cmd_type cmd \<noteq> EXPIRE"
  shows "no_deadlines hash st'"
proof -
  have "ex = None" if "storage_view hash st' k = Some (x, ex)" for k x ex
    using assms(1)
  proof (cases rule: spec_step.cases)
    case (spec_set k' x' rest)
    show ?thesis
    proof (cases "k = k'")
      case True
      with that spec_set(4) show ?thesis by simp
    next
      case False
      with that spec_set(5) [of k] have "storage_view hash st k = Some (x, ex)" by auto
      then show ?thesis by (rule no_deadlinesD [OF assms(2)])
    qed
  qed (use that assms(3) no_deadlinesD [OF assms(2), of k x ex] in \<open>auto split: if_splits\<close>)
  then show ?thesis by (auto simp: no_deadlines_def)
qed

interpretation exact: log_simulation hash clock
  "\<lambda>st rst. rst = st \<and> no_deadlines hash st"
  "\<lambda>now cmd. cmd_type cmd \<noteq> GET \<and> cmd_type cmd \<noteq> EXPIRE"
  for hash :: "string \<Rightarrow> size_t" and clock :: "nat \<Rightarrow> clock2"
proof (unfold_locales, goal_cases)
  case (1 s rst now cmd s' r i)
  then show ?case
    using step_recovers [of hash s now cmd s' r clock i]
      no_deadlines_step [of now cmd hash "storage s" "storage s'" r] by simp
qed

lemma no_deadlines_new: "no_deadlines hash (new_ShardedStorage n)"
  by (simp add: no_deadlines_def storage_view_def new_ShardedStorage_def empty_shard_def view_def)

text \<open>Exact recovery. Serve any commands other than \<open>GET\<close> and \<open>EXPIRE\<close> on a fresh server
  with its log on: replaying the logged lines into a fresh storage of the same capacity, at
  whatever time, gives exactly the same storage, with the same contents, recency order,
  evictions and counters.\<close>

theorem recovery_exact:
  assumes "aof_on w"
    and "\<forall>(now, cmd)\<in>set cs. (cmd_type cmd \<noteq> GET \<and> cmd_type cmd \<noteq> EXPIRE)
      \<and> cmd_fits now cmd (new_Dispatcher t0) \<and> (\<forall>a\<in>set (args cmd). loggable a)"
    and s0: "s = \<lparr>disp = new_Dispatcher t0, storage = new_ShardedStorage n, aof = Some w\<rparr>"
  shows "\<exists>s' replies stats. serve hash cs s = Some (s', replies)
    \<and> aof s' = Some (w\<lparr>queue := queue w @ map log_line (serve_records hash cs s)\<rparr>)
    \<and> replay hash clock (Some (file_of log_line (serve_records hash cs s))) (new_ShardedStorage n)
        = Some (storage s', stats)"
proof -
  have "storage_ok hash (storage s)" "new_ShardedStorage n = storage s \<and> no_deadlines hash (storage s)"
    "aof s = Some w" "disp s = new_Dispatcher t0"
    by (simp_all add: s0 storage_ok_new no_deadlines_new)
  with exact.serve_sim [OF this(1-3) assms(1), of cs clock 0] assms(2) obtain s' replies where
    s': "serve hash cs s = Some (s', replies)"
      "aof s' = Some (w\<lparr>queue := queue w @ map log_line (serve_records hash cs s)\<rparr>)"
      "\<forall>r\<in>set (serve_records hash cs s). log_valid r"
      "apply_records hash clock 0 (serve_records hash cs s) (new_ShardedStorage n) = Some (storage s')"
    by auto
  then show ?thesis using replay_file_of [OF s'(3), of hash clock "new_ShardedStorage n"] by auto
qed

theorem recovery_exact_witness:
  "\<exists>s s' replies stats. s = \<lparr>disp = new_Dispatcher 0, storage = new_ShardedStorage 16, aof = Some (new_AOFWriter 0 100)\<rparr>
    \<and> serve (\<lambda>_. 2) [((0, 0), \<lparr>cmd_type = SET, args = [''a'', ''1'']\<rparr>),
        ((1, 1), \<lparr>cmd_type = SET, args = [''b'', ''2'']\<rparr>), ((2, 2), \<lparr>cmd_type = DEL, args = [''b'']\<rparr>)] s
      = Some (s', replies)
    \<and> replay (\<lambda>_. 2) (\<lambda>_. (99, 99)) (Some (file_of log_line (serve_records (\<lambda>_. 2)
          [((0, 0), \<lparr>cmd_type = SET, args = [''a'', ''1'']\<rparr>),
        ((1, 1), \<lparr>cmd_type = SET, args = [''b'', ''2'']\<rparr>), ((2, 2), \<lparr>cmd_type = DEL, args = [''b'']\<rparr>)] s)))
        (new_ShardedStorage 16) = Some (storage s', stats)"
proof -
  let ?cs = "[((0, 0), \<lparr>cmd_type = SET, args = [''a'', ''1'']\<rparr>),
        ((1, 1), \<lparr>cmd_type = SET, args = [''b'', ''2'']\<rparr>), ((2, 2), \<lparr>cmd_type = DEL, args = [''b'']\<rparr>)]
      :: (clock2 \<times> Command) list"
  let ?w = "new_AOFWriter 0 100"
  have on: "aof_on ?w" by (simp add: aof_on_def new_AOFWriter_def)
  have "\<forall>(now, cmd)\<in>set ?cs. (cmd_type cmd \<noteq> GET \<and> cmd_type cmd \<noteq> EXPIRE)
      \<and> cmd_fits now cmd (new_Dispatcher 0) \<and> (\<forall>a\<in>set (args cmd). loggable a)"
    by (simp add: cmd_fits_def clock_ok_def int64_ok_def new_Dispatcher_def loggable_def isspace_def)
  from recovery_exact [OF on this refl, of "\<lambda>_. 2" 16 "\<lambda>_. (99, 99)"] show ?thesis by blast
qed

subsection \<open>Recovery keeps every live key\<close>

text \<open>A storage whose keys come from a set no larger than a shard never evicts.\<close>

lemma getShard_capacity:
  "getShard hash k f st = Some (st', r) \<Longrightarrow>
    max_keys st' = max_keys st \<and> max_keys_per_shard st' = max_keys_per_shard st"
  by (auto simp: getShard_def at_shard_def split: if_splits Option.bind_splits)

lemma shard_room:
  assumes ok: "storage_ok hash st" and K: "finite K" "card K \<le> max_keys_per_shard st"
    and sub: "\<And>x. storage_view hash st x \<noteq> None \<Longrightarrow> x \<in> K"
    and k: "k \<in> K" "storage_view hash st k = None"
  shows "length (recency (abs_storage st ! shardIndex hash k)) < max_keys_per_shard st"
proof -
  let ?i = "shardIndex hash k" and ?s = "shards st ! shardIndex hash k"
  have sok: "shard_ok (max_keys_per_shard st) ?s" using storage_okD(3) [OF ok] by simp
  have rec: "recency (abs_storage st ! ?i) = map snd (lru_order ?s)"
    by (simp add: abs_storage_def storage_okD(1) [OF ok])
  have "set (map snd (lru_order ?s)) \<subseteq> K - {k}"
  proof
    fix x
    assume "x \<in> set (map snd (lru_order ?s))"
    then have v: "view ?s x \<noteq> None" using view_dom [OF sok, of x] by simp
    then have "shardIndex hash x = ?i" by (intro storage_okD(4) [OF ok]) simp_all
    then have "storage_view hash st x \<noteq> None" using v by (simp add: storage_view_def)
    with sub k(2) show "x \<in> K - {k}" by blast
  qed
  then have "card (set (map snd (lru_order ?s))) \<le> card (K - {k})"
    using K(1) by (intro card_mono) simp_all
  also have "\<dots> < card K" using K(1) k(1) by (rule card_Diff1_less)
  finally have "length (map snd (lru_order ?s)) < card K"
    using distinct_card [OF lru_ok_distinct(3) [OF shard_okD(1) [OF sok]]] by simp
  then show ?thesis using K(2) by (simp add: rec)
qed

lemma cache_put_no_evict:
  assumes "cmap c k \<noteq> None \<or> length (recency c) < cap"
  shows "cmap (cache_put cap k v ex c) = (cmap c)(k \<mapsto> (v, ex))"
  using assms by (auto simp: cache_put_def cache_evict_def Let_def)

lemma storage_set_keeps:
  assumes ok: "storage_ok hash st" and K: "finite K" "card K \<le> max_keys_per_shard st"
    and sub: "\<And>x. storage_view hash st x \<noteq> None \<Longrightarrow> x \<in> K" and k: "k \<in> K"
  shows "\<exists>st'. storage_set hash k v st = Some st' \<and> storage_ok hash st'
    \<and> max_keys_per_shard st' = max_keys_per_shard st
    \<and> storage_view hash st' = (storage_view hash st)(k \<mapsto> (v, None))"
proof -
  let ?i = "shardIndex hash k" and ?cap = "max_keys_per_shard st"
  have "storage_enabled hash (OpSet k v) st" by (simp add: storage_enabled_def)
  from exec_op_refines [OF ok this] obtain st' where
    st': "storage_set hash k v st = Some st'" "storage_ok hash st'" "max_keys st' = max_keys st"
    and abs: "abs_storage st' = (abs_storage st)[?i := cache_put ?cap k v None (abs_storage st ! ?i)]"
    by (auto simp: exec_op_def)
  have "cmap (abs_storage st ! ?i) k \<noteq> None \<or> length (recency (abs_storage st ! ?i)) < ?cap"
    using shard_room [OF ok K sub k] storage_view_abs [OF ok, of k] by metis
  note put = cache_put_no_evict [OF this, of v None]
  have len: "length (abs_storage st) = NUM_SHARDS"
    using storage_okD(1) [OF ok] by (simp add: abs_storage_def)
  from put have v': "storage_view hash st' x = ((storage_view hash st)(k \<mapsto> (v, None))) x" for x
    using len
    by (cases "shardIndex hash x = ?i")
       (auto simp: storage_view_abs [OF st'(2)] storage_view_abs [OF ok] abs)
  have "max_keys_per_shard st' = ?cap"
    using storage_okD(2) [OF st'(2)] storage_okD(2) [OF ok] st'(3) by simp
  with st' v' show ?thesis by blast
qed

text \<open>\<open>vr\<close> holds every key of \<open>v\<close> with the same value and no deadline up to \<open>T\<close>.\<close>

definition covers :: "time_point \<Rightarrow> (string \<Rightarrow> seen_value) \<Rightarrow> (string \<Rightarrow> seen_value) \<Rightarrow> bool" where
  "covers T v vr \<longleftrightarrow> (\<forall>k x ex. v k = Some (x, ex) \<longrightarrow>
     (\<exists>ex'. vr k = Some (x, ex') \<and> live T (vr k)))"

lemma coversD: "covers T v vr \<Longrightarrow> v k = Some (x, ex) \<Longrightarrow> \<exists>ex'. vr k = Some (x, ex') \<and> live T (vr k)"
  unfolding covers_def by blast

lemma coversI: "(\<And>k x ex. v k = Some (x, ex) \<Longrightarrow> \<exists>ex'. vr k = Some (x, ex') \<and> live T (vr k)) \<Longrightarrow> covers T v vr"
  unfolding covers_def by blast

lemma covers_less: "covers T v vr \<Longrightarrow> (\<And>k. v' k = v k \<or> v' k = None) \<Longrightarrow> covers T v' vr"
  by (rule coversI) (metis coversD option.distinct(1))

lemma covers_forget: "covers T v vr \<Longrightarrow> covers T (v(k := None)) vr"
  by (erule covers_less) simp

lemma covers_upd:
  "covers T v vr \<Longrightarrow> live T (Some (x, ex')) \<Longrightarrow> covers T (v(k \<mapsto> (x, ex))) (vr(k \<mapsto> (x, ex')))"
  by (rule coversI) (auto split: if_splits dest: coversD)

lemma covers_del: "covers T v vr \<Longrightarrow> covers T (v(k := None)) (vr(k := None))"
  by (rule coversI) (auto split: if_splits dest: coversD)

text \<open>The storage that is being rebuilt: well formed, and all its keys in \<open>K\<close>.\<close>

definition rebuilt :: "(string \<Rightarrow> size_t) \<Rightarrow> string set \<Rightarrow> ShardedStorage \<Rightarrow> bool" where
  "rebuilt hash K st \<longleftrightarrow> storage_ok hash st \<and> finite K \<and> card K \<le> max_keys_per_shard st
     \<and> (\<forall>x. storage_view hash st x \<noteq> None \<longrightarrow> x \<in> K)"

lemma rebuilt_set:
  assumes "rebuilt hash K st" and "k \<in> K"
  shows "\<exists>st'. storage_set hash k v st = Some st' \<and> rebuilt hash K st'
    \<and> storage_view hash st' = (storage_view hash st)(k \<mapsto> (v, None))"
proof -
  have r: "storage_ok hash st" "finite K" "card K \<le> max_keys_per_shard st"
    "\<And>x. storage_view hash st x \<noteq> None \<Longrightarrow> x \<in> K" using assms(1) unfolding rebuilt_def by blast+
  from storage_set_keeps [OF r assms(2), of v] obtain st' where
    st': "storage_set hash k v st = Some st'" "storage_ok hash st'"
      "max_keys_per_shard st' = max_keys_per_shard st"
      "storage_view hash st' = (storage_view hash st)(k \<mapsto> (v, None))" by blast
  then have "rebuilt hash K st'" using r assms(2) unfolding rebuilt_def by auto
  with st' show ?thesis by blast
qed

lemma rebuilt_del:
  assumes "rebuilt hash K st"
  shows "\<exists>st' b. storage_del hash t k st = Some (st', b) \<and> rebuilt hash K st'
    \<and> storage_view hash st' = (storage_view hash st)(k := None)"
proof -
  have ok: "storage_ok hash st" using assms by (simp add: rebuilt_def)
  obtain st' b where st': "storage_del hash t k st = Some (st', b)" "storage_ok hash st'"
    "storage_view hash st' = (storage_view hash st)(k := None)"
    using storage_kv.remove_law [OF ok, of t k] by blast
  moreover have "max_keys_per_shard st' = max_keys_per_shard st"
    using st'(1) unfolding storage_del_def by (auto dest: getShard_capacity)
  ultimately show ?thesis using assms unfolding rebuilt_def by auto
qed

lemma rebuilt_expire:
  assumes "rebuilt hash K st" and "0 < n" and d: "time_add_seconds t' n = Some d"
    and "storage_view hash st k = Some (x, ex)" and "live t (storage_view hash st k)"
  shows "\<exists>st'. storage_expire hash t t' k n st = Some (st', True) \<and> rebuilt hash K st'
    \<and> storage_view hash st' = (storage_view hash st)(k \<mapsto> (x, Some d))"
proof -
  have ok: "storage_ok hash st" using assms by (simp add: rebuilt_def)
  have n: "0 \<le> n" using assms(2) by simp
  obtain st' where st': "storage_expire hash t t' k n st = Some (st', True)" "storage_ok hash st'"
    "storage_view hash st' = (storage_view hash st)(k \<mapsto> (x, Some d))"
    using storage_kv.expire_law [OF ok n d, of t k] assms(4,5) by auto
  moreover have "max_keys_per_shard st' = max_keys_per_shard st"
    using st'(1) assms(2) unfolding storage_expire_def by (auto dest: getShard_capacity)
  ultimately show ?thesis using assms(1,4) unfolding rebuilt_def by auto
qed

lemma expire_covers:
  assumes cov: "covers T v (storage_view hash rst)" and reb: "rebuilt hash K rst"
    and clk: "fst (clock i) \<le> T" "T < snd (clock i) + ns_per_s"
    and k: "v k = Some (x, ex)" and fits: "0 < m \<Longrightarrow> time_add_seconds (snd (clock i)) m \<noteq> None"
  shows "\<exists>rst'. apply_records hash clock i [LogExpire k m] rst = Some rst' \<and> rebuilt hash K rst'
    \<and> covers T (v(k \<mapsto> (x, ex'))) (storage_view hash rst')"
proof -
  from coversD [OF cov k] obtain e where
    x: "storage_view hash rst k = Some (x, e)" "live T (storage_view hash rst k)" by blast
  show ?thesis
  proof (cases "0 < m")
    case True
    from fits [OF True] obtain d where d: "time_add_seconds (snd (clock i)) m = Some d" by blast
    have "live (fst (clock i)) (storage_view hash rst k)" by (rule live_antimono [OF x(2) clk(1)])
    from rebuilt_expire [OF reb True d x(1) this] obtain rst' where
      rst': "storage_expire hash (fst (clock i)) (snd (clock i)) k m rst = Some (rst', True)"
        "rebuilt hash K rst'" "storage_view hash rst' = (storage_view hash rst)(k \<mapsto> (x, Some d))" by blast
    have "T < d" using time_add_value [OF d] clk(2) True by simp
    then have "covers T (v(k \<mapsto> (x, ex'))) (storage_view hash rst')"
      unfolding rst'(3) by (intro covers_upd [OF cov]) simp
    with rst' True show ?thesis by simp
  next
    case False
    have "covers T (v(k \<mapsto> (x, ex'))) (storage_view hash rst)"
      by (rule coversI) (use coversD [OF cov] x in \<open>auto split: if_splits\<close>)
    with reb False show ?thesis by simp
  qed
qed

lemma step_covers:
  assumes sp: "spec_step now cmd (storage_view hash st) v' r"
    and cov: "covers T (storage_view hash st) (storage_view hash rst)" and reb: "rebuilt hash K rst"
    and clk: "fst (clock i) \<le> T" "T < snd (clock i) + ns_per_s"
    and K: "\<And>k x rest. cmd_type cmd = SET \<Longrightarrow> args cmd = k # x # rest \<Longrightarrow> k \<in> K"
    and fits: "\<And>k n rest m. cmd_type cmd = EXPIRE \<Longrightarrow> args cmd = k # n # rest \<Longrightarrow> stoll n = Inr m \<Longrightarrow>
      0 < m \<Longrightarrow> time_add_seconds (snd (clock i)) m \<noteq> None"
  shows "\<exists>rst'. apply_records hash clock i (records_of hash now cmd st) rst = Some rst'
    \<and> rebuilt hash K rst' \<and> covers T v' (storage_view hash rst')"
  using sp
proof (cases rule: spec_step.cases)
  case (spec_args)
  with cov reb show ?thesis
    by (auto simp: records_of_def arity_def Let_def split: CommandType.splits)
next
  case (spec_set k x rest)
  from rebuilt_set [OF reb K [OF spec_set(2,3)], of x] obtain rst' where
    rst': "storage_set hash k x rst = Some rst'" "rebuilt hash K rst'"
      "storage_view hash rst' = (storage_view hash rst)(k \<mapsto> (x, None))" by blast
  have "covers T ((storage_view hash st)(k \<mapsto> (x, None))) (storage_view hash rst')"
    unfolding rst'(3) by (rule covers_upd [OF cov]) simp
  then have "covers T v' (storage_view hash rst')"
    by (rule covers_less) (use spec_set(4,5) in auto)
  with rst' spec_set(2,3) show ?thesis by (simp add: records_of_def)
next
  case (spec_miss k rest)
  then show ?thesis using cov reb by (auto simp: records_of_def intro: covers_forget)
next
  case (spec_del k rest)
  show ?thesis
  proof (cases "live (fst now) (storage_view hash st k)")
    case True
    with spec_del covers_del [OF cov, of k] rebuilt_del [OF reb, of "fst (clock i)" k] show ?thesis
      by (auto simp: records_of_def)
  next
    case False
    with spec_del cov reb show ?thesis by (auto simp: records_of_def intro: covers_forget)
  qed
next
  case (spec_expire k n rest m x ex)
  have "records_of hash now cmd st = [LogExpire k m]" using spec_expire by (simp add: records_of_def)
  with expire_covers [where clock = clock, OF cov reb clk spec_expire(7) fits [OF spec_expire(3,4,5)]]
  show ?thesis unfolding spec_expire(1) by simp
qed (use cov reb in \<open>auto simp: records_of_def intro: covers_forget\<close>)

text \<open>The replay reads the clock within one second, before \<open>T\<close>, and what a command asks of it fits.\<close>

definition replay_clock :: "(nat \<Rightarrow> clock2) \<Rightarrow> time_point \<Rightarrow> bool" where
  "replay_clock clock T \<longleftrightarrow> (\<forall>i. fst (clock i) \<le> T \<and> T < snd (clock i) + ns_per_s)"

definition replayable :: "(nat \<Rightarrow> clock2) \<Rightarrow> string set \<Rightarrow> Command \<Rightarrow> bool" where
  "replayable clock K cmd \<longleftrightarrow>
     (cmd_type cmd = SET \<longrightarrow> args cmd \<noteq> [] \<longrightarrow> hd (args cmd) \<in> K)
     \<and> (\<forall>m. cmd_type cmd = EXPIRE \<longrightarrow> length (args cmd) \<ge> 2 \<longrightarrow> stoll (args cmd ! 1) = Inr m \<longrightarrow> 0 < m \<longrightarrow>
          (\<forall>i. time_add_seconds (snd (clock i)) m \<noteq> None))"

interpretation covering: log_simulation hash clock
  "\<lambda>st rst. covers T (storage_view hash st) (storage_view hash rst) \<and> rebuilt hash K rst"
  "\<lambda>now cmd. replay_clock clock T \<and> replayable clock K cmd"
  for hash :: "string \<Rightarrow> size_t" and clock :: "nat \<Rightarrow> clock2" and T :: time_point and K :: "string set"
proof (unfold_locales, goal_cases)
  case (1 s rst now cmd s' r i)
  then have clk: "fst (clock i) \<le> T" "T < snd (clock i) + ns_per_s"
    and cov: "covers T (storage_view hash (storage s)) (storage_view hash rst)" "rebuilt hash K rst"
    and rp: "replayable clock K cmd"
    by (auto simp: replay_clock_def)
  have "k \<in> K" if "cmd_type cmd = SET" "args cmd = k # x # rest" for k x rest
    using rp that by (simp add: replayable_def)
  moreover have "time_add_seconds (snd (clock i)) m \<noteq> None"
    if "cmd_type cmd = EXPIRE" "args cmd = k # n # rest" "stoll n = Inr m" "0 < m" for k n rest m
    using rp that unfolding replayable_def by simp
  ultimately show ?case
    using step_covers [where clock = clock and i = i, OF 1(5) cov clk] by blast
qed

lemma rebuilt_new:
  "finite K \<Longrightarrow> card K \<le> max 1 (n div NUM_SHARDS) \<Longrightarrow> rebuilt hash K (new_ShardedStorage n)"
  using storage_ok_new [of hash n]
  by (simp add: rebuilt_def storage_view_def new_ShardedStorage_def empty_shard_def view_def)

lemma covers_refl_new: "covers T (storage_view hash (new_ShardedStorage n)) v"
  by (simp add: covers_def storage_view_def new_ShardedStorage_def empty_shard_def view_def)



subsection \<open>Where the log and the storage part\<close>



lemma stoll_zero: "stoll ''0'' = Inr 0" "to_string 0 = ''0''"
  by code_simp+

text \<open>C38. A deleted key comes back. \<open>EXPIRE k 0\<close> succeeds and makes the key vanish at once, and is
  logged; the replay rejects the line because it wants positive seconds, counts an error, and
  leaves the key alive without a deadline.\<close>

theorem expire_zero_resurrected:
  assumes "loggable k" and "loggable v" and clk: "clock_ok (fst now)" "clock_ok (snd now)" and "snd now \<le> u"
    and s0: "s = \<lparr>disp = new_Dispatcher 0, storage = new_ShardedStorage n, aof = Some w\<rparr>" and on: "aof_on w"
  shows "\<exists>s' rst stats. serve hash [(now, \<lparr>cmd_type = SET, args = [k, v]\<rparr>),
        (now, \<lparr>cmd_type = EXPIRE, args = [k, ''0'']\<rparr>)] s = Some (s', [okResponse, integerResponse 1])
    \<and> aof s' = Some (w\<lparr>queue := queue w @ map log_line [LogSet k v, LogExpire k 0]\<rparr>)
    \<and> \<not> live u (storage_view hash (storage s') k)
    \<and> replay hash clock (Some (file_of log_line [LogSet k v, LogExpire k 0])) (new_ShardedStorage n) = Some (rst, stats)
    \<and> live u (storage_view hash rst k)"
proof -
  obtain st1 where st1: "storage_set hash k v (new_ShardedStorage n) = Some st1" "storage_ok hash st1"
    "storage_view hash st1 k = Some (v, None)"
    using storage_kv.put_law [OF storage_ok_new, of None hash k v n] by (auto simp: storage_set_insert)
  have d: "time_add_seconds (snd now) 0 = Some (snd now)"
    using clk(2) by (simp add: time_add_seconds_def clock_ok_def int64_ok_def)
  obtain st2 where st2: "storage_expire hash (fst now) (snd now) k 0 st1 = Some (st2, True)"
    "storage_view hash st2 k = Some (v, Some (snd now))"
    using storage_kv.expire_law [OF st1(2) _ d, of "fst now" k] st1(3) by auto
  have "apply_records hash clock 0 [LogSet k v, LogExpire k 0] (new_ShardedStorage n) = Some st1"
    using st1(1) by simp
  moreover have "\<forall>r\<in>set [LogSet k v, LogExpire k 0]. log_valid r"
    using assms(1,2) by (simp add: int64_ok_def)
  ultimately obtain stats where
    "replay hash clock (Some (file_of log_line [LogSet k v, LogExpire k 0])) (new_ShardedStorage n) = Some (st1, stats)"
    using replay_file_of [of "[LogSet k v, LogExpire k 0]" hash clock "new_ShardedStorage n"] by auto
  moreover have "\<exists>s'. serve hash [(now, \<lparr>cmd_type = SET, args = [k, v]\<rparr>),
        (now, \<lparr>cmd_type = EXPIRE, args = [k, ''0'']\<rparr>)] s = Some (s', [okResponse, integerResponse 1])
      \<and> storage s' = st2 \<and> aof s' = Some (w\<lparr>queue := queue w @ map log_line [LogSet k v, LogExpire k 0]\<rparr>)"
    using st1(1) st2(1) on
    by (simp add: s0 dispatch_def Let_def stoll_zero log_if_def aof_log_on aof_on_def)
  ultimately show ?thesis using st1(3) st2(2) assms(5) by auto
qed

theorem expire_zero_resurrected_witness:
  "\<exists>s s' rst stats. serve (\<lambda>_. 0) [((5, 5), \<lparr>cmd_type = SET, args = [''k'', ''v'']\<rparr>),
        ((5, 5), \<lparr>cmd_type = EXPIRE, args = [''k'', ''0'']\<rparr>)] s = Some (s', [okResponse, integerResponse 1])
    \<and> \<not> live 9 (storage_view (\<lambda>_. 0) (storage s') ''k'')
    \<and> replay (\<lambda>_. 0) (\<lambda>_. (9, 9)) (Some (file_of log_line [LogSet ''k'' ''v'', LogExpire ''k'' 0]))
        (new_ShardedStorage 16) = Some (rst, stats)
    \<and> live 9 (storage_view (\<lambda>_. 0) rst ''k'')"
proof -
  have "loggable ''k''" "loggable ''v''" "clock_ok (fst (5, 5::int))" "clock_ok (snd (5::int, 5))"
    "snd (5::int, 5) \<le> (9::int)" "aof_on (new_AOFWriter 0 100)"
    by (simp_all add: loggable_def isspace_def clock_ok_def int64_ok_def aof_on_def new_AOFWriter_def)
  from expire_zero_resurrected [OF this(1-5) refl this(6), of "\<lambda>_. 0" 16 "\<lambda>_. (9, 9)"] show ?thesis by blast
qed

end
