(* ===== verification/Crash_Recovery.thy ===== *)
theory Crash_Recovery
  imports Recovery
begin

text \<open>
  Recovery after a crash: the log file is cut at an arbitrary byte (\<open>aof_writer.cpp\<close> writes lines
  without a length or a checksum) and \<open>aof_replay.cpp\<close> reads what is left. It shows that the
  recovered storage is that of an initial part of the commands, but for one torn line, and what
  a torn line can do.
\<close>

subsection \<open>A cut file\<close>

lemma lines_from_tail: "newline \<notin> set t \<Longrightarrow> lines_from acc t = (if acc @ t = [] then [] else [acc @ t])"
  by (induction t arbitrary: acc) auto

lemma getlines_tail:
  "\<forall>l\<in>set ls. newline \<notin> set l \<Longrightarrow> newline \<notin> set t \<Longrightarrow>
    getlines (concat (map (\<lambda>l. l @ [newline]) ls) @ t) = ls @ (if t = [] then [] else [t])"
proof (induction ls)
  case (Cons l ls)
  then show ?case using lines_from_line [of l "[]"] by (simp add: getlines_def)
qed (simp add: getlines_def lines_from_tail)

lemma take_file_of:
  "\<exists>j t. j \<le> length rs \<and> take n (file_of encode rs) = file_of encode (take j rs) @ t
    \<and> (t = [] \<or> j < length rs \<and> (\<exists>u. encode (rs ! j) = t @ u))"
proof (induction rs arbitrary: n)
  case Nil
  show ?case by (simp add: file_of_def)
next
  case (Cons r rs)
  have f: "file_of encode (r # rs) = encode r @ newline # file_of encode rs" by (simp add: file_of_def)
  show ?case
  proof (cases "n \<le> length (encode r)")
    case True
    have "take n (file_of encode (r # rs)) = file_of encode (take 0 (r # rs)) @ take n (encode r)"
      using True f by (simp add: file_of_def)
    moreover have "\<exists>u. encode ((r # rs) ! 0) = take n (encode r) @ u"
      by (rule exI [of _ "drop n (encode r)"]) simp
    ultimately show ?thesis by (metis le0 length_greater_0_conv list.distinct(1))
  next
    case False
    obtain j t where j: "j \<le> length rs" "take (n - Suc (length (encode r))) (file_of encode rs) = file_of encode (take j rs) @ t"
      "t = [] \<or> j < length rs \<and> (\<exists>u. encode (rs ! j) = t @ u)" using Cons.IH by blast
    have "n - length (encode r) = Suc (n - Suc (length (encode r)))" using False by simp
    then have "take n (file_of encode (r # rs)) = file_of encode (take (Suc j) (r # rs)) @ t"
      using False f j(2) by (simp add: file_of_def)
    with j(1,3) show ?thesis by (intro exI [of _ "Suc j"] exI [of _ t]) auto
  qed
qed

context line_codec
begin

text \<open>The lines of a cut file: those of the first records, and what is left of the next one.\<close>

lemma cut_lines:
  assumes "\<forall>r\<in>set rs. valid r"
  obtains j t where "j \<le> length rs" "getlines (take n (file_of encode rs)) = map encode (take j rs) @ (if t = [] then [] else [t])"
    "t \<noteq> [] \<Longrightarrow> j < length rs \<and> (\<exists>u. encode (rs ! j) = t @ u)"
proof -
  obtain j t where j: "j \<le> length rs" "take n (file_of encode rs) = file_of encode (take j rs) @ t"
    "t = [] \<or> j < length rs \<and> (\<exists>u. encode (rs ! j) = t @ u)" using take_file_of by blast
  have "newline \<notin> set t"
    using j(3) assms encode_line by (metis UnCI empty_iff list.set(1) nth_mem set_append)
  moreover have "\<forall>l\<in>set (map encode (take j rs)). newline \<notin> set l"
    using assms encode_line by (auto dest: in_set_takeD)
  ultimately have "getlines (take n (file_of encode rs)) = map encode (take j rs) @ (if t = [] then [] else [t])"
    using getlines_tail [of "map encode (take j rs)" t] j(2) by (simp add: file_of_def comp_def)
  with j(1,3) show ?thesis by (intro that) auto
qed

end

lemma replay_lines_append:
  "replay_lines hash clock i (ls @ ls') s =
     (case replay_lines hash clock i ls s of None \<Rightarrow> None
      | Some s' \<Rightarrow> replay_lines hash clock (i + length ls) ls' s')"
  by (induction ls arbitrary: i s) (auto split: option.splits)

subsection \<open>Records and commands\<close>

lemma records_of_length: "length (records_of hash now cmd st) \<le> 1"
  by (simp add: records_of_def Let_def split: CommandType.splits sum.splits)

text \<open>An initial part of the records is what an initial part of the commands logs.\<close>

lemma records_prefix:
  "j \<le> length (serve_records hash cs s) \<Longrightarrow> \<exists>m\<le>length cs. take j (serve_records hash cs s) = serve_records hash (take m cs) s"
proof (induction cs arbitrary: j s)
  case (Cons c cs)
  obtain now cmd where c: "c = (now, cmd)" by (cases c)
  let ?rs = "records_of hash now cmd (storage s)"
  show ?case
  proof (cases "j = 0")
    case True
    then show ?thesis by (intro exI [of _ 0]) simp
  next
    case False
    then have le: "length ?rs \<le> j" using records_of_length [of hash now cmd "storage s"] by linarith
    show ?thesis
    proof (cases "dispatch hash now cmd s")
      case None
      with c le show ?thesis by (intro exI [of _ 1]) simp
    next
      case (Some p)
      obtain s' r where p: "p = (s', r)" by (cases p)
      have "j - length ?rs \<le> length (serve_records hash cs s')" using Cons.prems c Some p by simp
      from Cons.IH [OF this] obtain m where
        "m \<le> length cs" "take (j - length ?rs) (serve_records hash cs s') = serve_records hash (take m cs) s'" by blast
      with c le Some p show ?thesis by (intro exI [of _ "Suc m"]) simp
    qed
  qed
qed simp

text \<open>What is left of a \<open>SET\<close> or \<open>DEL\<close> line is not an \<open>EXPIRE\<close> command.\<close>

lemma torn_word_type:
  assumes "W @ CHR '' '' # rest = t @ u" and "W = ''SET'' \<or> W = ''DEL''"
  shows "cmd_type (parseCommand t) \<noteq> EXPIRE"
proof (cases "length t \<le> 3")
  case True
  have "t = take (length t) (W @ CHR '' '' # rest)" using assms(1) by simp
  moreover have "length t = 0 \<or> length t = 1 \<or> length t = 2 \<or> length t = 3" using True by linarith
  ultimately have "t \<in> {[], ''S'', ''SE'', ''SET'', ''D'', ''DE'', ''DEL''}" using assms(2) by auto
  moreover have "cmd_type (parseCommand []) = UNKNOWN" "cmd_type (parseCommand ''S'') = UNKNOWN"
    "cmd_type (parseCommand ''SE'') = UNKNOWN" "cmd_type (parseCommand ''SET'') = SET"
    "cmd_type (parseCommand ''D'') = UNKNOWN" "cmd_type (parseCommand ''DE'') = UNKNOWN"
    "cmd_type (parseCommand ''DEL'') = DEL" by code_simp+
  ultimately show ?thesis by auto
next
  case False
  then obtain rest' where "t = W @ CHR '' '' # rest'"
    using assms by (auto simp: append_eq_append_conv2 append_eq_Cons_conv Cons_eq_append_conv)
  then have "parseCommand t = command_of_tokens (W # tokenize (rev (dropWhile isspace (rev (CHR '' '' # rest')))))"
    using parseCommand_word [of W "CHR '' '' # rest'"] assms(2) by (auto simp: isspace_def)
  then show ?thesis using assms(2)
    by (auto simp: command_of_tokens_def Let_def toUpper_def toupper_def)
qed

lemma torn_record_fits:
  assumes "log_line r = t @ u" and "\<And>k n. r \<noteq> LogExpire k n"
  shows "line_fits now t"
proof -
  have "cmd_type (parseCommand t) \<noteq> EXPIRE"
    using assms torn_word_type [of "''SET''"] torn_word_type [of "''DEL''"] by (cases r) auto
  then show ?thesis by (simp add: line_fits_def Let_def)
qed

lemma no_expire_records:
  assumes "\<forall>(now, cmd)\<in>set cs. cmd_type cmd \<noteq> EXPIRE"
  shows "LogExpire k n \<notin> set (serve_records hash cs s)"
  using assms
proof (induction cs arbitrary: s)
  case (Cons c cs)
  obtain now cmd where c: "c = (now, cmd)" by (cases c)
  with Cons.prems have "LogExpire k n \<notin> set (records_of hash now cmd (storage s))"
    by (auto simp: records_of_def Let_def split: CommandType.splits)
  with Cons c show ?case by (auto split: option.splits)
qed simp

lemma records_keep_ok:
  assumes "storage_ok hash st" and "\<And>k n. LogExpire k n \<notin> set rs"
    and "replay_lines hash clock i (map log_line rs) (st, stats) = Some (st', stats')"
  shows "storage_ok hash st'"
proof -
  have "line_fits (clock (i + j)) (map log_line rs ! j)" if "j < length (map log_line rs)" for j
    by (rule torn_record_fits [of "rs ! j" _ "[]"]) (use that assms(2) nth_mem [of j rs] in force)+
  from replay_lines_total [OF assms(1) this, of stats] assms(3) show ?thesis by auto
qed

text \<open>An initial part of the commands of a fresh server, and the replay of what it logs.\<close>

lemma served_part:
  assumes "aof_on w"
    and cs: "\<forall>(now, cmd)\<in>set cs. (cmd_type cmd \<noteq> GET \<and> cmd_type cmd \<noteq> EXPIRE)
      \<and> cmd_fits now cmd (new_Dispatcher t0) \<and> (\<forall>a\<in>set (args cmd). loggable a)"
    and s0: "s = \<lparr>disp = new_Dispatcher t0, storage = new_ShardedStorage cap, aof = Some w\<rparr>"
  shows "\<exists>s' replies. serve hash (take m cs) s = Some (s', replies)
    \<and> (\<forall>r\<in>set (serve_records hash (take m cs) s). log_valid r)
    \<and> apply_records hash clock 0 (serve_records hash (take m cs) s) (new_ShardedStorage cap) = Some (storage s')"
proof -
  have pre: "storage_ok hash (storage s)" "new_ShardedStorage cap = storage s \<and> no_deadlines hash (storage s)"
    "aof s = Some w" "disp s = new_Dispatcher t0"
    by (simp_all add: s0 storage_ok_new no_deadlines_new)
  have "\<forall>(now, cmd)\<in>set (take m cs). (cmd_type cmd \<noteq> GET \<and> cmd_type cmd \<noteq> EXPIRE)
      \<and> cmd_fits now cmd (disp s) \<and> (\<forall>a\<in>set (args cmd). loggable a)"
    using cs pre(4) by (auto dest: in_set_takeD)
  from exact.serve_sim [OF pre(1-3) assms(1) this, of clock 0] show ?thesis by auto
qed



subsection \<open>What a torn line does\<close>

lemma tail_lines:
  assumes "\<forall>r\<in>set rs. log_valid r" and "t \<noteq> []" "newline \<notin> set t" and "e = [] \<or> e = [newline]"
  shows "getlines (file_of log_line rs @ t @ e) = map log_line rs @ [t]"
proof -
  have "\<forall>l\<in>set (map log_line rs). newline \<notin> set l" using assms(1) log_line_shape by auto
  with getlines_tail [of "map log_line rs" t] getlines_tail [of "map log_line rs @ [t]" "[]"] assms(2-4)
  show ?thesis by (auto simp: file_of_def comp_def)
qed

lemma replay_last_line:
  assumes "\<forall>r\<in>set rs. log_valid r" and "t \<noteq> []" "newline \<notin> set t" and "e = [] \<or> e = [newline]"
    and "log_valid r" and "parseCommand t = log_command r"
  shows "replay hash clock (Some (file_of log_line rs @ t @ e)) st = replay hash clock (Some (file_of log_line (rs @ [r]))) st"
proof -
  have r: "log_line r \<noteq> []" "newline \<notin> set (log_line r)" using log_line_shape [OF assms(5)] by simp_all
  have "getlines (file_of log_line (rs @ [r])) = map log_line rs @ [log_line r]"
    using tail_lines [OF assms(1) r, of "[newline]"] by (simp add: file_of_def)
  moreover have "replay_line hash now t = replay_line hash now (log_line r)" for now
    using assms(2,6) r(1) parse_log_line [OF assms(5)] by (simp add: replay_line_def)
  ultimately show ?thesis using tail_lines [OF assms(1-4)]
    by (simp add: replay_def replay_lines_append split: option.split)
qed

lemma word_part:
  assumes "loggable (a @ b)" and "\<not> needs_quote (a @ b)" and "a \<noteq> []"
  shows "loggable a" "\<not> needs_quote a" "newline \<notin> set a"
  using assms by (auto simp: loggable_def needs_quote_def)

text \<open>C39. Torn lines are taken for commands. The log has neither lengths nor checksums: cut after a part
  \<open>a\<close> of the last word of a line, it is replayed as if that command had been given with \<open>a\<close>: the
  part of a value is stored, and the key that happens to be a part of a deleted key is deleted.\<close>

theorem torn_line_misread:
  assumes "\<forall>r\<in>set rs. log_valid r" and "loggable k" and "loggable (a @ b)" and "\<not> needs_quote (a @ b)" and "a \<noteq> []"
  shows "replay hash clock (Some (take (length (file_of log_line rs @ ''SET '' @ quoteIfNeeded k @ '' '' @ a))
        (file_of log_line (rs @ [LogSet k (a @ b)])))) st
      = replay hash clock (Some (file_of log_line (rs @ [LogSet k a]))) st
    \<and> replay hash clock (Some (take (length (file_of log_line rs @ ''DEL '' @ a))
        (file_of log_line (rs @ [LogDel (a @ b)])))) st
      = replay hash clock (Some (file_of log_line (rs @ [LogDel a]))) st"
proof -
  note a = word_part [OF assms(3-5)]
  have q: "quoteIfNeeded a = a" "quoteIfNeeded (a @ b) = a @ b" using a(2) assms(4) by (simp_all add: quoteIfNeeded_def)
  have cut: "take (length (x @ y)) (x @ y @ z) = x @ y" for x y z :: string
    using append_eq_conv_conj [of "x @ y" z "x @ y @ z"] by simp
  have v: "log_valid (LogSet k a)" "log_valid (LogDel a)" using assms(2) a(1) by simp_all
  have "take (length (file_of log_line rs @ log_line (LogSet k a))) (file_of log_line (rs @ [LogSet k (a @ b)]))
      = file_of log_line rs @ log_line (LogSet k a)"
    "take (length (file_of log_line rs @ log_line (LogDel a))) (file_of log_line (rs @ [LogDel (a @ b)]))
      = file_of log_line rs @ log_line (LogDel a)"
    using cut [of "file_of log_line rs" "log_line (LogSet k a)" "b @ [newline]"]
      cut [of "file_of log_line rs" "log_line (LogDel a)" "b @ [newline]"] q
    by (simp_all add: file_of_def)
  with replay_last_line [OF assms(1) _ _ _ v(1) parse_log_line [OF v(1)], of "[]"] log_line_shape [OF v(1)]
    replay_last_line [OF assms(1) _ _ _ v(2) parse_log_line [OF v(2)], of "[]"] log_line_shape [OF v(2)] q(1)
  show ?thesis by simp
qed

theorem torn_line_misread_witness:
  "\<exists>st stats. replay (\<lambda>_. 2) (\<lambda>_. (9, 9)) (Some (take 21
        (file_of log_line [LogSet ''user1'' ''x'', LogDel ''user10'']))) (new_ShardedStorage 16) = Some (st, stats)
    \<and> storage_view (\<lambda>_. 2) st ''user1'' = None"
proof -
  let ?rs = "[LogSet ''user1'' ''x'']" and ?st = "new_ShardedStorage 16"
  have v: "\<forall>r\<in>set ?rs. log_valid r" "loggable ''k''" "loggable (''user1'' @ ''0'')" "\<not> needs_quote (''user1'' @ ''0'')"
    "''user1'' \<noteq> []" by (simp_all add: loggable_def needs_quote_def isspace_def)
  have n: "length (file_of log_line ?rs @ ''DEL '' @ ''user1'') = 21" by code_simp
  obtain st1 where st1: "storage_set (\<lambda>_. 2) ''user1'' ''x'' ?st = Some st1" "storage_ok (\<lambda>_. 2) st1"
    using storage_set_total [OF storage_ok_new] by blast
  obtain st2 b where st2: "storage_del (\<lambda>_. 2) 9 ''user1'' st1 = Some (st2, b)" "storage_view (\<lambda>_. 2) st2 ''user1'' = None"
    using storage_kv.remove_law [OF st1(2), of 9 "''user1''"] by auto
  have "map_option fst (replay (\<lambda>_. 2) (\<lambda>_. (9, 9)) (Some (file_of log_line (?rs @ [LogDel ''user1'']))) ?st) = Some st2"
    using st1(1) st2(1) by (subst replay_file_of) (simp_all add: loggable_def needs_quote_def isspace_def)
  with st2(2) show ?thesis
    using torn_line_misread [OF v, where hash = "\<lambda>_. 2" and clock = "\<lambda>_. (9, 9)" and st = ?st, unfolded n]
    by auto
qed

text \<open>A torn line and the line that is appended to it are one line.\<close>

lemma glued_line:
  assumes "loggable k" and "loggable a" and "\<not> needs_quote a" and "loggable x" and "loggable y"
  shows "parseCommand ((''SET '' @ quoteIfNeeded k @ '' '' @ a) @ log_line (LogSet x y)) = log_command (LogSet k (a @ ''SET''))"
proof -
  let ?r = "'' '' @ quoteIfNeeded x @ '' '' @ quoteIfNeeded y"
  have w: "a @ ''SET'' \<noteq> []" "\<forall>c\<in>set (a @ ''SET''). \<not> isspace c" "hd (a @ ''SET'') \<noteq> dquote"
    using assms(2,3) by (cases a; auto simp: loggable_def needs_quote_def isspace_def)+
  have "tokenize (quoteIfNeeded k @ '' '' @ (a @ ''SET'') @ ?r) = k # (a @ ''SET'') # tokenize ?r"
    using tokenize_quoteIfNeeded [OF assms(1), of "'' '' @ (a @ ''SET'') @ ?r"] tokenize_word [OF w, of ?r]
    by (simp add: isspace_def)
  then show ?thesis
    using parseCommand_line [of "''SET''" "quoteIfNeeded k @ '' '' @ (a @ ''SET'') @ ?r"] quoteIfNeeded_ends [OF assms(5)]
    by (simp add: command_of_tokens_def toUpper_def toupper_def isspace_def)
qed

end
