(* ===== verification/Connection.thy ===== *)
theory Connection
  imports Cpp_Std
begin

text \<open>
  One client connection, \<open>src/server/connection.cpp\<close> with \<open>include/server/connection.h\<close>. What
  the operating system answers to \<open>recv\<close> and \<open>send\<close> is an argument of each operation. The
  theory shows that splitting the incoming bytes into chunks does not matter, that outgoing
  bytes are neither lost nor repeated, and in which order they leave.
\<close>

definition READ_BUFFER_SIZE :: nat where
  "READ_BUFFER_SIZE = 4096"

record Connection =
  conn_fd :: fd
  read_buffer :: string
  write_buffer :: string
  has_error :: bool
  conn_in_flight :: bool

definition new_Connection :: "fd \<Rightarrow> Connection" where
  "new_Connection fd = \<lparr>conn_fd = fd, read_buffer = [], write_buffer = [], has_error = False,
     conn_in_flight = False\<rparr>"

text \<open>\<open>recv\<close> fails (for lack of data or for another reason), reports the end of the stream, or
  delivers bytes, at least one and at most the size of the buffer. \<open>send\<close> fails or takes a
  number of bytes.\<close>

datatype recv_result = RecvWouldBlock | RecvError | RecvEOF | RecvBytes string

datatype send_result = SendWouldBlock | SendError | Sent nat

definition recv_ok :: "recv_result \<Rightarrow> bool" where
  "recv_ok r = (case r of RecvBytes bs \<Rightarrow> bs \<noteq> [] \<and> length bs \<le> READ_BUFFER_SIZE | _ \<Rightarrow> True)"

subsection \<open>Reading\<close>

definition strip_cr :: "string \<Rightarrow> string" where
  "strip_cr cmd = (if cmd \<noteq> [] \<and> last cmd = carriage_return then butlast cmd else cmd)"

text \<open>The loop that takes complete lines out of the read buffer: the commands and what is left.\<close>

function extract_commands :: "string \<Rightarrow> string list \<times> string" where
  "extract_commands buf =
     (if newline \<notin> set buf then ([], buf)
      else let line = takeWhile (\<lambda>c. c \<noteq> newline) buf;
               rest = drop (Suc (length line)) buf;
               cmd = strip_cr line;
               (cmds, left) = extract_commands rest
           in (if cmd \<noteq> [] then cmd # cmds else cmds, left))"
  by pat_completeness auto
termination
  by (relation "measure length") (auto dest: length_pos_if_in_set)

declare extract_commands.simps [simp del]

definition readAndParse :: "recv_result \<Rightarrow> Connection \<Rightarrow> Connection \<times> string list" where
  "readAndParse res c = (case res of
      RecvWouldBlock \<Rightarrow> (c, [])
    | RecvError \<Rightarrow> (c\<lparr>has_error := True\<rparr>, [])
    | RecvEOF \<Rightarrow> (c\<lparr>has_error := True\<rparr>, [])
    | RecvBytes bs \<Rightarrow>
        (let (cmds, left) = extract_commands (read_buffer c @ bs)
         in (c\<lparr>read_buffer := left\<rparr>, cmds)))"

lemma extract_tail: "newline \<notin> set t \<Longrightarrow> extract_commands t = ([], t)"
  by (subst extract_commands.simps) simp

lemma extract_line:
  assumes "newline \<notin> set l"
  shows "extract_commands (l @ newline # s) =
    (let (cmds, left) = extract_commands s
     in (if strip_cr l \<noteq> [] then strip_cr l # cmds else cmds, left))"
proof -
  have "takeWhile (\<lambda>c. c \<noteq> newline) (l @ newline # s) = l"
    using assms by (induction l) auto
  then show ?thesis by (subst extract_commands.simps) (simp add: Let_def)
qed

lemma extract_lines:
  assumes "\<forall>l\<in>set ls. newline \<notin> set l"
  shows "extract_commands (concat (map (\<lambda>l. l @ [newline]) ls) @ s) =
    (filter (\<lambda>c. c \<noteq> []) (map strip_cr ls) @ fst (extract_commands s), snd (extract_commands s))"
  using assms
proof (induction ls)
  case (Cons l ls)
  then show ?case
    using extract_line [of l "concat (map (\<lambda>l. l @ [newline]) ls) @ s"] by (simp add: Let_def)
qed simp

text \<open>Every string is a sequence of complete lines and an incomplete one.\<close>

lemma lines_decomp:
  obtains ls t where "s = concat (map (\<lambda>l. l @ [newline]) ls) @ t"
    and "\<forall>l\<in>set ls. newline \<notin> set l" and "newline \<notin> set t"
proof (induction s arbitrary: thesis)
  case Nil
  then show ?case by (metis append_Nil concat.simps(1) empty_iff list.map(1) list.set(1))
next
  case (Cons c s)
  obtain ls t where d: "s = concat (map (\<lambda>l. l @ [newline]) ls) @ t"
    "\<forall>l\<in>set ls. newline \<notin> set l" "newline \<notin> set t" using Cons.IH by blast
  show ?case
  proof (cases "c = newline")
    case True
    show ?thesis by (rule Cons.prems [of "[] # ls" t]) (use True d in simp_all)
  next
    case False
    show ?thesis
    proof (cases ls)
      case Nil
      show ?thesis by (rule Cons.prems [of "[]" "c # t"]) (use False Nil d in simp_all)
    next
      case (Cons l ls')
      show ?thesis by (rule Cons.prems [of "(c # l) # ls'" t]) (use False Cons d in simp_all)
    qed
  qed
qed

lemma extract_append:
  "extract_commands (s @ s') =
    (fst (extract_commands s) @ fst (extract_commands (snd (extract_commands s) @ s')),
     snd (extract_commands (snd (extract_commands s) @ s')))"
proof -
  obtain ls t where d: "s = concat (map (\<lambda>l. l @ [newline]) ls) @ t"
    "\<forall>l\<in>set ls. newline \<notin> set l" "newline \<notin> set t" by (rule lines_decomp)
  have "extract_commands s = (filter (\<lambda>c. c \<noteq> []) (map strip_cr ls), t)"
    unfolding d(1) using extract_lines [OF d(2), of t] extract_tail [OF d(3)] by simp
  then show ?thesis using extract_lines [OF d(2), of "t @ s'"] d(1) by simp
qed

text \<open>Successive reads of a connection, with the commands of all of them.\<close>

fun read_all :: "recv_result list \<Rightarrow> Connection \<Rightarrow> Connection \<times> string list" where
  "read_all [] c = (c, [])"
| "read_all (r # rs) c =
     (let (c1, cmds) = readAndParse r c; (c2, cmds') = read_all rs c1 in (c2, cmds @ cmds'))"

lemma read_all_chunks:
  "read_all (map RecvBytes chunks) c =
    (c\<lparr>read_buffer := snd (extract_commands (read_buffer c @ concat chunks))\<rparr>,
     fst (extract_commands (read_buffer c @ concat chunks)))"
  if "newline \<notin> set (read_buffer c)"
  using that
proof (induction chunks arbitrary: c)
  case Nil
  then show ?case by (simp add: extract_tail)
next
  case (Cons b chunks)
  have left: "newline \<notin> set (snd (extract_commands s))" for s
  proof -
    obtain ls t where d: "s = concat (map (\<lambda>l. l @ [newline]) ls) @ t"
      "\<forall>l\<in>set ls. newline \<notin> set l" "newline \<notin> set t" by (rule lines_decomp)
    then show ?thesis using extract_lines [OF d(2), of t] extract_tail [OF d(3)] by simp
  qed
  let ?c = "c\<lparr>read_buffer := snd (extract_commands (read_buffer c @ b))\<rparr>"
  have "newline \<notin> set (read_buffer ?c)" using left by simp
  from Cons.IH [OF this] extract_append [of "read_buffer c @ b" "concat chunks"] show ?case
    by (simp add: readAndParse_def Let_def case_prod_beta)
qed

text \<open>C16. Reassembly. However the bytes of a client are cut into reads, the commands of a fresh
  connection are the non-empty complete lines, without the carriage return that may end them,
  in order; what follows the last newline stays in the buffer.\<close>

theorem reads_reassemble_lines:
  assumes "concat chunks = concat (map (\<lambda>l. l @ [newline]) ls) @ t"
    and "\<forall>l\<in>set ls. newline \<notin> set l" and "newline \<notin> set t"
  shows "read_all (map RecvBytes chunks) (new_Connection fd) =
    ((new_Connection fd)\<lparr>read_buffer := t\<rparr>, filter (\<lambda>c. c \<noteq> []) (map strip_cr ls))"
  using read_all_chunks [of "new_Connection fd" chunks] extract_lines [OF assms(2), of t] extract_tail [OF assms(3)]
    assms(1) by (simp add: new_Connection_def)

theorem reads_reassemble_lines_witness:
  "read_all (map RecvBytes [''PI'', ''NG'' @ [carriage_return], [newline, newline] @ ''GE'', ''T a'']) (new_Connection 7)
    = ((new_Connection 7)\<lparr>read_buffer := ''GET a''\<rparr>, [''PING''])"
proof -
  have "concat [''PI'', ''NG'' @ [carriage_return], [newline, newline] @ ''GE'', ''T a'']
      = concat (map (\<lambda>l. l @ [newline]) [''PING'' @ [carriage_return], []]) @ ''GET a''" by simp
  from reads_reassemble_lines [OF this, of 7] show ?thesis by (simp add: strip_cr_def)
qed

subsection \<open>Writing\<close>

definition queueResponse :: "string \<Rightarrow> Connection \<Rightarrow> Connection" where
  "queueResponse response c = c\<lparr>write_buffer := write_buffer c @ response\<rparr>"

text \<open>The loop of \<open>sendResponse\<close> on the bytes not yet sent; \<open>outs\<close> is what the calls of \<open>send\<close>
  return. The result holds the connection, the returned flag and the bytes that reached the
  socket; \<open>None\<close> says that the loop is still waiting for an answer.\<close>

fun send_loop :: "send_result list \<Rightarrow> string \<Rightarrow> Connection \<Rightarrow> (Connection \<times> bool \<times> string) option" where
  "send_loop outs [] c = Some (c, True, [])"
| "send_loop [] (b # bs) c = None"
| "send_loop (out # outs) (b # bs) c = (case out of
      SendWouldBlock \<Rightarrow> Some (c\<lparr>write_buffer := write_buffer c @ (b # bs)\<rparr>, False, [])
    | SendError \<Rightarrow> Some (c\<lparr>has_error := True\<rparr>, False, [])
    | Sent n \<Rightarrow>
        (case send_loop outs (drop n (b # bs)) c of None \<Rightarrow> None
         | Some (c', ok, sent) \<Rightarrow> Some (c', ok, take n (b # bs) @ sent)))"

text \<open>One pass of the loop: the connection, the bytes still to send (\<open>None\<close> when the function returns)
  and the bytes sent.\<close>

definition send_step :: "send_result \<Rightarrow> string \<Rightarrow> Connection \<Rightarrow> Connection \<times> string option \<times> string" where
  "send_step out bytes c = (case out of
      SendWouldBlock \<Rightarrow> (c\<lparr>write_buffer := write_buffer c @ bytes\<rparr>, None, [])
    | SendError \<Rightarrow> (c\<lparr>has_error := True\<rparr>, None, [])
    | Sent n \<Rightarrow> (c, Some (drop n bytes), take n bytes))"

lemma send_loop_step:
  "bytes \<noteq> [] \<Longrightarrow> send_loop (out # outs) bytes c = (case send_step out bytes c of
      (c1, None, sent) \<Rightarrow> Some (c1, False, sent)
    | (c1, Some rest, sent) \<Rightarrow> map_option (\<lambda>(c', ok, sent'). (c', ok, sent @ sent')) (send_loop outs rest c1))"
  by (cases bytes) (auto simp: send_step_def split: send_result.splits option.splits)

definition sendResponse :: "send_result list \<Rightarrow> string \<Rightarrow> Connection \<Rightarrow> (Connection \<times> bool \<times> string) option" where
  "sendResponse outs response c = send_loop outs response c"

definition flushWriteBuffer :: "send_result \<Rightarrow> Connection \<Rightarrow> Connection \<times> bool \<times> string" where
  "flushWriteBuffer out c =
     (if write_buffer c = [] then (c, True, [])
      else case out of
        SendWouldBlock \<Rightarrow> (c, False, [])
      | SendError \<Rightarrow> (c\<lparr>has_error := True\<rparr>, False, [])
      | Sent n \<Rightarrow>
          (let rest = drop n (write_buffer c)
           in (c\<lparr>write_buffer := rest\<rparr>, rest = [], take n (write_buffer c))))"

definition wantWrite :: "Connection \<Rightarrow> bool" where
  "wantWrite c \<longleftrightarrow> write_buffer c \<noteq> []"

definition hasError :: "Connection \<Rightarrow> bool" where
  "hasError c = has_error c"

definition isInFlight :: "Connection \<Rightarrow> bool" where
  "isInFlight c = conn_in_flight c"

definition trySetInFlight :: "Connection \<Rightarrow> Connection \<times> bool" where
  "trySetInFlight c = (if conn_in_flight c = False then (c\<lparr>conn_in_flight := True\<rparr>, True) else (c, False))"

definition clearInFlight :: "Connection \<Rightarrow> Connection" where
  "clearInFlight c = c\<lparr>conn_in_flight := False\<rparr>"

lemma send_loop_conserves:
  assumes "send_loop outs bs c = Some (c', ok, sent)"
  shows "\<exists>rest. bs = sent @ rest \<and> (ok \<longleftrightarrow> rest = []) \<and> (ok \<longrightarrow> c' = c)
    \<and> (\<not> ok \<longrightarrow> c' = c\<lparr>write_buffer := write_buffer c @ rest\<rparr> \<or> c' = c\<lparr>has_error := True\<rparr>)"
  using assms
proof (induction outs bs c arbitrary: c' ok sent rule: send_loop.induct)
  case (3 out outs b bs c)
  show ?case
  proof (cases out)
    case (Sent n)
    with 3 obtain sent' where s: "send_loop outs (drop n (b # bs)) c = Some (c', ok, sent')"
      "sent = take n (b # bs) @ sent'"
      by (auto split: option.splits prod.splits)
    from 3(1) [OF Sent s(1)] obtain rest where r: "drop n (b # bs) = sent' @ rest" "ok \<longleftrightarrow> rest = []"
      "ok \<longrightarrow> c' = c"
      "\<not> ok \<longrightarrow> c' = c\<lparr>write_buffer := write_buffer c @ rest\<rparr> \<or> c' = c\<lparr>has_error := True\<rparr>" by blast
    from r(1) have "b # bs = sent @ rest" using s(2) by (metis append_assoc append_take_drop_id)
    with r show ?thesis by blast
  qed (use 3 in auto)
qed auto

text \<open>Conservation of output. When \<open>sendResponse\<close> returns, the bytes that reached the socket
  are a prefix of the response; it answers true exactly when they are all of it; otherwise the
  rest is appended to the write buffer, or the connection is marked as failed. Whenever every
  successful call of \<open>send\<close> takes at least one byte, as many answers as the response has bytes
  are enough for it to return.\<close>

theorem sendResponse_conserves:
  shows "(\<forall>c' ok sent. sendResponse outs response c = Some (c', ok, sent) \<longrightarrow>
      (\<exists>rest. response = sent @ rest \<and> (ok \<longleftrightarrow> rest = []) \<and> (ok \<longrightarrow> c' = c)
        \<and> (\<not> ok \<longrightarrow> c' = c\<lparr>write_buffer := write_buffer c @ rest\<rparr> \<or> c' = c\<lparr>has_error := True\<rparr>)))
    \<and> (length response \<le> length outs \<and> Sent 0 \<notin> set outs \<longrightarrow> sendResponse outs response c \<noteq> None)"
proof (intro conjI impI allI)
  show "\<exists>rest. response = sent @ rest \<and> (ok \<longleftrightarrow> rest = []) \<and> (ok \<longrightarrow> c' = c)
        \<and> (\<not> ok \<longrightarrow> c' = c\<lparr>write_buffer := write_buffer c @ rest\<rparr> \<or> c' = c\<lparr>has_error := True\<rparr>)"
    if "sendResponse outs response c = Some (c', ok, sent)" for c' ok sent
    using send_loop_conserves that by (simp add: sendResponse_def)
  have "send_loop outs bs c \<noteq> None" if "length bs \<le> length outs" "Sent 0 \<notin> set outs" for bs
    using that
  proof (induction outs bs c rule: send_loop.induct)
    case (3 out outs b bs c)
    show ?case
    proof (cases out)
      case (Sent n)
      with 3(2,3) have "length (drop n (b # bs)) \<le> length outs" "Sent 0 \<notin> set outs" by (cases n; auto)+
      from 3(1) [OF Sent this] Sent show ?thesis by (auto split: option.splits prod.splits)
    qed simp_all
  qed simp_all
  then show "sendResponse outs response c \<noteq> None"
    if "length response \<le> length outs \<and> Sent 0 \<notin> set outs"
    using that by (simp add: sendResponse_def)
qed

theorem sendResponse_conserves_witness:
  "(\<exists>rest. sendResponse [Sent 2, SendWouldBlock] ''+OK'' (new_Connection 3)
      = Some ((new_Connection 3)\<lparr>write_buffer := ''K''\<rparr>, False, ''+O'') \<and> ''+OK'' = ''+O'' @ rest \<and> rest \<noteq> [])
   \<and> sendResponse [Sent 1, Sent 1, Sent 1] ''+OK'' (new_Connection 3) \<noteq> None"
proof
  have s: "sendResponse [Sent 2, SendWouldBlock] ''+OK'' (new_Connection 3)
      = Some ((new_Connection 3)\<lparr>write_buffer := ''K''\<rparr>, False, ''+O'')"
    by (simp add: sendResponse_def new_Connection_def)
  with sendResponse_conserves [of "[Sent 2, SendWouldBlock]" "''+OK''" "new_Connection 3"]
  show "\<exists>rest. sendResponse [Sent 2, SendWouldBlock] ''+OK'' (new_Connection 3)
      = Some ((new_Connection 3)\<lparr>write_buffer := ''K''\<rparr>, False, ''+O'') \<and> ''+OK'' = ''+O'' @ rest \<and> rest \<noteq> []"
    by metis
  show "sendResponse [Sent 1, Sent 1, Sent 1] ''+OK'' (new_Connection 3) \<noteq> None"
    by (rule mp [OF conjunct2 [OF sendResponse_conserves]]) simp
qed

subsection \<open>The order of the output\<close>

fun flushes :: "send_result list \<Rightarrow> Connection \<Rightarrow> Connection \<times> string" where
  "flushes [] c = (c, [])"
| "flushes (out # outs) c =
     (let (c1, _, sent) = flushWriteBuffer out c; (c2, sent') = flushes outs c1 in (c2, sent @ sent'))"

lemma flush_conserves:
  "(\<lambda>(c', _, sent). sent @ write_buffer c' = write_buffer c) (flushWriteBuffer out c)"
  by (simp add: flushWriteBuffer_def Let_def split: send_result.splits)

lemma flushes_conserve:
  "(\<lambda>(c', sent). sent @ write_buffer c' = write_buffer c) (flushes outs c)"
proof (induction outs arbitrary: c)
  case (Cons out outs)
  obtain c1 b sent where f: "flushWriteBuffer out c = (c1, b, sent)" by (cases "flushWriteBuffer out c") auto
  with flush_conserves [of c out] Cons [of c1] show ?case
    by (auto simp: Let_def case_prod_beta)
qed simp

text \<open>In-order delivery. A response sent on a connection with nothing pending, followed by any
  number of flushes of the write buffer, has reached the socket byte by byte in order, up to
  what is still in the buffer, as long as \<open>sendResponse\<close> met no error.\<close>

theorem response_delivered_in_order:
  assumes "write_buffer c = []" and "sendResponse outs response c = Some (c1, ok, sent1)"
    and "has_error c1 = has_error c" and "\<not> has_error c" and "flushes fouts c1 = (c2, sent2)"
  shows "sent1 @ sent2 @ write_buffer c2 = response"
proof -
  obtain rest where r: "response = sent1 @ rest" "ok \<longleftrightarrow> rest = []" "ok \<longrightarrow> c1 = c"
    "\<not> ok \<longrightarrow> c1 = c\<lparr>write_buffer := write_buffer c @ rest\<rparr> \<or> c1 = c\<lparr>has_error := True\<rparr>"
    using send_loop_conserves assms(2) unfolding sendResponse_def by blast
  then have "write_buffer c1 = rest" using assms(1,3,4) by (cases ok) auto
  then show ?thesis using r(1) flushes_conserve [of c1 fouts] assms(5) by auto
qed

theorem response_delivered_in_order_witness:
  "\<exists>c1 ok sent1 c2 sent2. sendResponse [Sent 1, SendWouldBlock] ''abc'' (new_Connection 4) = Some (c1, ok, sent1)
    \<and> flushes [Sent 1, SendWouldBlock, Sent 1] c1 = (c2, sent2) \<and> sent1 @ sent2 @ write_buffer c2 = ''abc''"
proof -
  let ?c1 = "(new_Connection 4)\<lparr>write_buffer := ''bc''\<rparr>"
  have s: "sendResponse [Sent 1, SendWouldBlock] ''abc'' (new_Connection 4) = Some (?c1, False, ''a'')"
    by (simp add: sendResponse_def new_Connection_def)
  obtain c2 sent2 where f: "flushes [Sent 1, SendWouldBlock, Sent 1] ?c1 = (c2, sent2)" by fastforce
  have "''a'' @ sent2 @ write_buffer c2 = ''abc''"
    by (rule response_delivered_in_order [OF _ s _ _ f]) (simp_all add: new_Connection_def)
  with s f show ?thesis by blast
qed

text \<open>C36. Overtaking. \<open>sendResponse\<close> does not look at the write buffer: a response sent while the end of
  an earlier one is still in the buffer reaches the socket first, and the client reads it in the
  middle of the earlier one.\<close>

theorem sendResponse_overtakes:
  assumes "write_buffer c = pending" and "pending \<noteq> []" and "response \<noteq> []" and "m = length response"
  shows "\<exists>c2. sendResponse [Sent m] response c = Some (c, True, response)
    \<and> flushes [Sent (length pending)] c = (c2, pending) \<and> write_buffer c2 = []"
proof -
  have "send_loop [Sent m] response c = Some (c, True, response)"
    using assms(3,4) by (cases response) simp_all
  then show ?thesis using assms(1,2) by (simp add: sendResponse_def flushWriteBuffer_def Let_def)
qed

theorem sendResponse_overtakes_witness:
  "\<exists>c2. sendResponse [Sent 2] ''cd'' ((new_Connection 4)\<lparr>write_buffer := ''b''\<rparr>)
      = Some ((new_Connection 4)\<lparr>write_buffer := ''b''\<rparr>, True, ''cd'')
    \<and> flushes [Sent (length ''b'')] ((new_Connection 4)\<lparr>write_buffer := ''b''\<rparr>) = (c2, ''b'') \<and> write_buffer c2 = []"
  by (rule sendResponse_overtakes) simp_all

end
