(* ===== verification/Thread_Pool.thy ===== *)
theory Thread_Pool
  imports Event_System
begin

text \<open>
  The thread pool, \<open>src/server/thread_pool.cpp\<close> with \<open>include/server/thread_pool.h\<close>: a queue of
  tasks and a fixed number of workers. The events are the steps the workers and clients make
  with the mutex held, and the end of a task. \<open>started\<close> records the tasks in the order in which
  workers took them; the code has no such field, it only serves to state what happened. Tasks
  are of any type.
\<close>

datatype 't worker = Idle | Running 't | Exited

record 't ThreadPool =
  tasks :: "'t list"
  workers :: "'t worker list"
  pool_stop :: bool
  started :: "'t list"

text \<open>The constructor makes sure that there is a worker.\<close>

definition new_ThreadPool :: "nat \<Rightarrow> 't ThreadPool" where
  "new_ThreadPool num_threads =
     \<lparr>tasks = [], workers = replicate (if num_threads = 0 then 1 else num_threads) Idle,
      pool_stop = False, started = []\<rparr>"

definition pool_size :: "'t ThreadPool \<Rightarrow> nat" where
  "pool_size p = length (workers p)"

definition submit :: "'t \<Rightarrow> 't ThreadPool \<Rightarrow> 't ThreadPool" where
  "submit t p = p\<lparr>tasks := tasks p @ [t]\<rparr>"

text \<open>A worker that has the mutex after its wait: it returns if a stop is requested and there is
  nothing to do, waits again if there is nothing to do, and otherwise takes the first task.\<close>

definition worker_wake :: "nat \<Rightarrow> 't ThreadPool \<Rightarrow> 't ThreadPool option" where
  "worker_wake i p =
     (if i < length (workers p) \<and> workers p ! i = Idle then
        (if pool_stop p \<and> tasks p = [] then Some (p\<lparr>workers := (workers p)[i := Exited]\<rparr>)
         else case tasks p of
           [] \<Rightarrow> Some p
         | t # ts \<Rightarrow> Some (p\<lparr>tasks := ts, workers := (workers p)[i := Running t], started := started p @ [t]\<rparr>))
      else None)"

definition worker_done :: "nat \<Rightarrow> 't ThreadPool \<Rightarrow> 't ThreadPool option" where
  "worker_done i p =
     (if i < length (workers p) then
        (case workers p ! i of Running t \<Rightarrow> Some (p\<lparr>workers := (workers p)[i := Idle]\<rparr>) | _ \<Rightarrow> None)
      else None)"

text \<open>The destructor of a \<open>jthread\<close> requests the stop and joins the thread; the destructor of the
  pool only wakes the workers up and leaves both to it.\<close>

definition request_stop :: "'t ThreadPool \<Rightarrow> 't ThreadPool" where
  "request_stop p = p\<lparr>pool_stop := True\<rparr>"

datatype 't pool_event = Submit 't | Wake nat | Done nat | RequestStop

definition pool_step :: "'t pool_event \<Rightarrow> 't ThreadPool \<Rightarrow> 't ThreadPool option" where
  "pool_step e p = (case e of
      Submit t \<Rightarrow> Some (submit t p)
    | Wake i \<Rightarrow> worker_wake i p
    | Done i \<Rightarrow> worker_done i p
    | RequestStop \<Rightarrow> Some (request_stop p))"

definition submitted :: "'t pool_event \<Rightarrow> 't list" where
  "submitted e = (case e of Submit t \<Rightarrow> [t] | _ \<Rightarrow> [])"

text \<open>The tasks that workers hold.\<close>

definition running_task :: "'t worker \<Rightarrow> 't list" where
  "running_task w = (case w of Running t \<Rightarrow> [t] | _ \<Rightarrow> [])"

definition running :: "'t ThreadPool \<Rightarrow> 't list" where
  "running p = concat (map running_task (workers p))"

definition pool_ok :: "'t ThreadPool \<Rightarrow> bool" where
  "pool_ok p \<longleftrightarrow> workers p \<noteq> [] \<and> (Exited \<in> set (workers p) \<longrightarrow> pool_stop p)"

lemmas pool_step_defs = pool_step_def submit_def worker_wake_def worker_done_def request_stop_def

interpretation pool_fifo: fifo_system pool_step "\<lambda>_. True" pool_ok "\<lambda>p. started p @ tasks p" submitted
proof (unfold_locales, goal_cases)
  case (1 p e p')
  then show ?case
    by (auto simp: pool_step_defs pool_ok_def split: pool_event.splits if_splits list.splits worker.splits
        dest!: set_update_subset_insert [THEN subsetD])
next
  case (2 p e p')
  then show ?case
    by (auto simp: pool_step_defs submitted_def split: pool_event.splits if_splits list.splits worker.splits)
qed

lemma pool_ok_new: "pool_ok (new_ThreadPool n)"
  by (simp add: pool_ok_def new_ThreadPool_def)

text \<open>C17. Task order. Whatever the clients and workers do, tasks are started in the order of their
  submission, each exactly once, and what has not been started is still in the queue.\<close>

theorem pool_starts_in_order:
  assumes "run pool_step es (new_ThreadPool n) = Some p"
  shows "started p @ tasks p = concat (map submitted es)"
  using pool_fifo.total_run [OF pool_ok_new _ assms] by (simp add: new_ThreadPool_def)

theorem pool_starts_in_order_witness:
  "\<exists>p. run pool_step [Submit ''a'', Submit ''b'', Wake 1, Submit ''c'', Wake 0, Done 1] (new_ThreadPool 2) = Some p
    \<and> started p @ tasks p = [''a'', ''b'', ''c'']"
proof -
  obtain p where p: "run pool_step [Submit ''a'', Submit ''b'', Wake 1, Submit ''c'', Wake 0, Done 1]
      (new_ThreadPool 2) = Some p"
    by (simp add: pool_step_defs new_ThreadPool_def numeral_2_eq_2)
  from pool_starts_in_order [OF this] have "started p @ tasks p = [''a'', ''b'', ''c'']"
    by (simp add: submitted_def)
  with p show ?thesis by blast
qed

subsection \<open>Shutdown\<close>

text \<open>While no new task comes, every step of a stopping pool uses up this measure: two for a queued
  task and one for each worker at work, plus one for each worker that has not returned.\<close>

fun worker_work :: "'t worker \<Rightarrow> nat" where
  "worker_work Idle = 1"
| "worker_work (Running t) = 2"
| "worker_work Exited = 0"

definition pool_work :: "'t ThreadPool \<Rightarrow> nat" where
  "pool_work p = 2 * length (tasks p) + sum_list (map worker_work (workers p))"

definition worker_event :: "'t pool_event \<Rightarrow> bool" where
  "worker_event e = (case e of Wake _ \<Rightarrow> True | Done _ \<Rightarrow> True | _ \<Rightarrow> False)"

lemma sum_list_upd:
  "i < length xs \<Longrightarrow> sum_list (map f (xs[i := y])) + f (xs ! i) = sum_list (map f xs) + (f y :: nat)"
  by (induction xs arbitrary: i) (auto split: nat.splits)

lemma pool_step_decreases:
  assumes "pool_step e p = Some p'" and "worker_event e" and "pool_stop p"
  shows "pool_work p' < pool_work p \<and> pool_stop p'"
proof (cases e)
  case (Wake i)
  from Wake assms(1) have i: "i < length (workers p)" "workers p ! i = Idle"
    by (auto simp: pool_step_defs split: if_splits)
  show ?thesis
  proof (cases "tasks p")
    case Nil
    then show ?thesis
      using Wake assms(1,3) i sum_list_upd [OF i(1), of worker_work Exited]
      by (auto simp: pool_step_defs pool_work_def)
  next
    case (Cons t ts)
    then show ?thesis
      using Wake assms(1,3) i sum_list_upd [OF i(1), of worker_work "Running t"]
      by (auto simp: pool_step_defs pool_work_def)
  qed
next
  case (Done i)
  from Done assms(1) obtain t where i: "i < length (workers p)" "workers p ! i = Running t"
    "p' = p\<lparr>workers := (workers p)[i := Idle]\<rparr>"
    by (auto simp: pool_step_defs split: if_splits worker.splits)
  then show ?thesis
    using assms(3) sum_list_upd [OF i(1), of worker_work Idle] by (auto simp: pool_work_def)
qed (use assms(2) in \<open>simp_all add: worker_event_def\<close>)

lemma pool_progress:
  assumes "pool_stop p" and "\<not> (\<forall>w\<in>set (workers p). w = Exited)"
  shows "\<exists>e p'. worker_event e \<and> pool_step e p = Some p'"
proof -
  from assms(2) obtain i where i: "i < length (workers p)" "workers p ! i \<noteq> Exited"
    by (auto simp: in_set_conv_nth)
  show ?thesis
  proof (cases "workers p ! i")
    case Idle
    then have "pool_step (Wake i) p \<noteq> None"
      using i by (auto simp: pool_step_defs split: list.splits)
    then show ?thesis by (intro exI [of _ "Wake i"]) (auto simp: worker_event_def)
  next
    case (Running t)
    then have "pool_step (Done i) p \<noteq> None" using i by (simp add: pool_step_defs)
    then show ?thesis by (intro exI [of _ "Done i"]) (auto simp: worker_event_def)
  qed (use i in simp)
qed

lemma pool_run_bounded:
  assumes "\<forall>e\<in>set ws. worker_event e" and "pool_stop p" and "run pool_step ws p = Some p'"
  shows "length ws + pool_work p' \<le> pool_work p"
  using assms
proof (induction ws arbitrary: p)
  case (Cons e ws)
  then obtain p1 where p1: "pool_step e p = Some p1" "run pool_step ws p1 = Some p'"
    by (auto split: option.splits)
  have "pool_work p1 < pool_work p" "pool_stop p1"
    using pool_step_decreases [OF p1(1)] Cons.prems by auto
  with Cons.IH [OF _ this(2) p1(2)] Cons.prems(1) show ?case by simp
qed simp

lemma pool_run_finishes:
  assumes "pool_stop p"
  shows "\<exists>ws p'. (\<forall>e\<in>set ws. worker_event e) \<and> run pool_step ws p = Some p'
    \<and> (\<forall>w\<in>set (workers p'). w = Exited)"
  using assms
proof (induction "pool_work p" arbitrary: p rule: less_induct)
  case less
  show ?case
  proof (cases "\<forall>w\<in>set (workers p). w = Exited")
    case True
    then show ?thesis by (intro exI [of _ "[]"] exI [of _ p]) simp
  next
    case False
    from pool_progress [OF less.prems False] obtain e p1 where
      e: "worker_event e" "pool_step e p = Some p1" by blast
    from pool_step_decreases [OF e(2,1) less.prems] less.hyps [of p1] obtain ws p' where
      "\<forall>e\<in>set ws. worker_event e" "run pool_step ws p1 = Some p'" "\<forall>w\<in>set (workers p'). w = Exited"
      by blast
    with e show ?thesis by (intro exI [of _ "e # ws"] exI [of _ p']) simp
  qed
qed

text \<open>A worker returns only when there is nothing left to do.\<close>

definition drained :: "'t ThreadPool \<Rightarrow> bool" where
  "drained p \<longleftrightarrow> workers p \<noteq> [] \<and> (Exited \<in> set (workers p) \<longrightarrow> tasks p = [])"

interpretation pool_drain: event_system pool_step worker_event drained
proof (unfold_locales, goal_cases)
  case (1 p e p')
  then show ?case
    by (auto simp: pool_step_defs drained_def worker_event_def
        split: pool_event.splits if_splits list.splits worker.splits
        dest!: set_update_subset_insert [THEN subsetD])
qed

lemma no_stop_no_exit:
  assumes "run pool_step es p = Some p'" and "RequestStop \<notin> set es" and "\<not> pool_stop p"
  shows "\<not> pool_stop p'"
  using assms
proof (induction es arbitrary: p)
  case (Cons e es)
  then obtain p1 where p1: "pool_step e p = Some p1" "run pool_step es p1 = Some p'"
    by (auto split: option.splits)
  have "\<not> pool_stop p1" using p1(1) Cons.prems(2,3)
    by (auto simp: pool_step_defs split: pool_event.splits if_splits list.splits worker.splits)
  with Cons.IH [OF p1(2)] Cons.prems(2) show ?case by simp
qed simp



end
