(* ===== verification/Event_Loop.thy ===== *)
theory Event_Loop
  imports CF_Prelude
begin

text \<open>
  The wrapper around \<open>epoll\<close>, \<open>src/server/event_loop.cpp\<close> with \<open>include/server/event_loop.h\<close>.
  What the kernel answers is an argument (the return code of \<open>epoll_create1\<close> and
  \<open>epoll_ctl\<close>, the events of \<open>epoll_wait\<close>); \<open>interest\<close> is the table that the successful calls
  have built up in the kernel.
\<close>

type_synonym epoll_events = "32 word"

unbundle bit_operations_syntax

definition EPOLLIN :: epoll_events where "EPOLLIN = 1"
definition EPOLLOUT :: epoll_events where "EPOLLOUT = 4"
definition EPOLLERR :: epoll_events where "EPOLLERR = 8"
definition EPOLLHUP :: epoll_events where "EPOLLHUP = 16"

definition has_event :: "epoll_events \<Rightarrow> epoll_events \<Rightarrow> bool" where
  "has_event ev bits \<longleftrightarrow> ev AND bits \<noteq> 0"

datatype loop_error = CreateFailed | AddFailed | ModifyFailed

record EventLoop =
  epoll_fd :: fd
  interest :: "(fd \<times> epoll_events) list"

definition MAX_EVENTS :: nat where
  "MAX_EVENTS = 64"

definition new_EventLoop :: "int \<Rightarrow> loop_error + EventLoop" where
  "new_EventLoop rc = (if rc < 0 then Inl CreateFailed else Inr \<lparr>epoll_fd = rc, interest = []\<rparr>)"

definition addFd :: "int \<Rightarrow> fd \<Rightarrow> epoll_events \<Rightarrow> EventLoop \<Rightarrow> loop_error + EventLoop" where
  "addFd rc fd ev el =
     (if rc < 0 then Inl AddFailed else Inr (el\<lparr>interest := AList.update fd ev (interest el)\<rparr>))"

definition modifyFd :: "int \<Rightarrow> fd \<Rightarrow> epoll_events \<Rightarrow> EventLoop \<Rightarrow> loop_error + EventLoop" where
  "modifyFd rc fd ev el =
     (if rc < 0 then Inl ModifyFailed else Inr (el\<lparr>interest := AList.update fd ev (interest el)\<rparr>))"

definition removeFd :: "fd \<Rightarrow> EventLoop \<Rightarrow> EventLoop" where
  "removeFd fd el = el\<lparr>interest := AList.delete fd (interest el)\<rparr>"

text \<open>\<open>wait\<close> copies the first \<open>n\<close> of the kernel's events; a negative \<open>n\<close> (an interrupted
  call) gives none.\<close>

definition wait_events :: "int \<Rightarrow> (fd \<times> epoll_events) list \<Rightarrow> (fd \<times> epoll_events) list" where
  "wait_events n events = map (\<lambda>i. events ! i) [0..<nat n]"

lemma wait_events_take: "nat n \<le> length events \<Longrightarrow> wait_events n events = take (nat n) events"
  by (auto simp: wait_events_def intro: nth_equalityI)

end
