(* ===== verification/Server.thy ===== *)
theory Server
  imports Dispatcher Connection Thread_Pool Event_Loop
begin

text \<open>
  The server, \<open>src/server/server.cpp\<close> with \<open>include/server/server.h\<close>: the \<open>epoll\<close> thread accepts
  connections, reads commands and hands them to the thread pool; a worker dispatches the
  command, sends the response and clears the connection's in-flight flag. A connection is a
  shared object: \<open>connections\<close> maps a descriptor to an object, and a task keeps its object
  alive after the descriptor has been closed, so objects live in a store \<open>objects\<close> of their own.

  What the operating system answers is an argument of the handlers. Two fields have no
  counterpart in the code and record what happens outside: \<open>peers\<close> is the client at the other
  end of each open descriptor, \<open>delivered\<close> the bytes that clients have received, with the
  connection object that sent them. Console output is left out.
\<close>

text \<open>A task is the lambda given to \<open>submit\<close>. Its stage says how far the worker that runs it has come:
  before the dispatch, in the loop of \<open>sendResponse\<close> with bytes left, before \<open>clearInFlight\<close>.\<close>

datatype stage = ToDispatch | ToSend string | ToClear

record Task =
  task_conn :: nat
  task_cmd :: Command
  task_stage :: stage

definition new_Task :: "nat \<Rightarrow> Command \<Rightarrow> Task" where
  "new_Task cid cmd = \<lparr>task_conn = cid, task_cmd = cmd, task_stage = ToDispatch\<rparr>"

datatype server_error =
    LoopError loop_error | NonBlockingFailed | SocketFailed | ReuseAddrFailed | BindFailed
  | ListenFailed | AofOpenFailed | UndefinedBehaviour

record Server =
  port :: nat
  server_fd :: fd
  running_flag :: bool
  ds :: DispState
  loop :: EventLoop
  pool :: "Task ThreadPool"
  sweeper :: SweepThread
  connections :: "(fd \<times> nat) list"
  objects :: "nat \<Rightarrow> Connection"
  next_object :: nat
  peers :: "(fd \<times> nat) list"
  delivered :: "(nat \<times> nat \<times> string) list"

definition set_object :: "nat \<Rightarrow> Connection \<Rightarrow> Server \<Rightarrow> Server" where
  "set_object cid c s = s\<lparr>objects := (objects s)(cid := c)\<rparr>"

definition deliver :: "fd \<Rightarrow> nat \<Rightarrow> string \<Rightarrow> Server \<Rightarrow> Server" where
  "deliver fd cid bytes s =
     (if bytes = [] then s
      else case map_of (peers s) fd of None \<Rightarrow> s
        | Some client \<Rightarrow> s\<lparr>delivered := delivered s @ [(client, cid, bytes)]\<rparr>)"

subsection \<open>The handlers of the epoll thread\<close>

definition closeConnection :: "fd \<Rightarrow> Server \<Rightarrow> Server" where
  "closeConnection fd s =
     s\<lparr>loop := removeFd fd (loop s), connections := AList.delete fd (connections s),
       peers := AList.delete fd (peers s)\<rparr>"

definition updateEpollEvents :: "int \<Rightarrow> fd \<Rightarrow> Server \<Rightarrow> server_error + Server" where
  "updateEpollEvents rc fd s =
     (case map_of (connections s) fd of
        None \<Rightarrow> Inr s
      | Some cid \<Rightarrow>
          let events = (if wantWrite (objects s cid) then EPOLLIN OR EPOLLOUT else EPOLLIN)
          in case modifyFd rc fd events (loop s) of
               Inl e \<Rightarrow> Inl (LoopError e)
             | Inr l \<Rightarrow> Inr (s\<lparr>loop := l\<rparr>))"

text \<open>\<open>fcntl\<close> is called for the flags (a negative answer is an error) and to set them.\<close>

definition setNonBlocking :: "int \<Rightarrow> int \<Rightarrow> bool" where
  "setNonBlocking getfl setfl \<longleftrightarrow> \<not> (getfl < 0 \<or> setfl < 0)"

text \<open>An answer of \<open>accept\<close>: a new descriptor comes with the answers of the two calls of \<open>fcntl\<close> and
  of \<open>epoll_ctl\<close> for it. The list ends where no more connection is pending.\<close>

datatype accept_result = AcceptWouldBlock | AcceptFailed | Accepted fd int int int

fun acceptConnection :: "accept_result list \<Rightarrow> Server \<Rightarrow> server_error + Server" where
  "acceptConnection [] s = Inr s"
| "acceptConnection (r # rs) s = (case r of
      AcceptWouldBlock \<Rightarrow> Inr s
    | AcceptFailed \<Rightarrow> Inr s
    | Accepted fd getfl setfl rc \<Rightarrow>
        if \<not> setNonBlocking getfl setfl then Inl NonBlockingFailed
        else let cid = next_object s;
                 s1 = s\<lparr>connections := AList.update fd cid (connections s),
                        objects := (objects s)(cid := new_Connection fd),
                        next_object := Suc cid,
                        peers := AList.update fd cid (peers s)\<rparr>
             in case addFd rc fd EPOLLIN (loop s1) of
                  Inl e \<Rightarrow> Inl (LoopError e)
                | Inr l \<Rightarrow> acceptConnection rs (s1\<lparr>loop := l\<rparr>))"

text \<open>The loop over the commands of one read. The branch for a connection whose flag is set already
  dispatches on the \<open>epoll\<close> thread and goes on; the other one submits a task and leaves the
  loop.\<close>

fun process_commands ::
  "(string \<Rightarrow> size_t) \<Rightarrow> clock2 \<Rightarrow> nat \<Rightarrow> string list \<Rightarrow> Server \<Rightarrow> server_error + Server" where
  "process_commands hash now cid [] s = Inr s"
| "process_commands hash now cid (cmd_str # rest) s =
     (let (c, was_free) = trySetInFlight (objects s cid) in
      if \<not> was_free then
        (case dispatch hash now (parseCommand cmd_str) (ds s) of
           None \<Rightarrow> Inl UndefinedBehaviour
         | Some (d, response) \<Rightarrow>
             process_commands hash now cid rest
               (set_object cid (queueResponse response (objects s cid)) (s\<lparr>ds := d\<rparr>)))
      else Inr (set_object cid c
             (s\<lparr>pool := submit (new_Task cid (parseCommand cmd_str)) (pool s)\<rparr>)))"

definition handleRead ::
  "(string \<Rightarrow> size_t) \<Rightarrow> clock2 \<Rightarrow> recv_result \<Rightarrow> int \<Rightarrow> fd \<Rightarrow> Server \<Rightarrow> server_error + Server" where
  "handleRead hash now res rc fd s =
     (case map_of (connections s) fd of
        None \<Rightarrow> Inr s
      | Some cid \<Rightarrow>
          if isInFlight (objects s cid) then Inr s
          else let (c, commands) = readAndParse res (objects s cid);
                   s1 = set_object cid c s
               in if hasError c then Inr (closeConnection fd s1)
                  else case process_commands hash now cid commands s1 of
                         Inl e \<Rightarrow> Inl e
                       | Inr s2 \<Rightarrow> updateEpollEvents rc fd s2)"

definition handleWrite :: "send_result \<Rightarrow> int \<Rightarrow> fd \<Rightarrow> Server \<Rightarrow> server_error + Server" where
  "handleWrite out rc fd s =
     (case map_of (connections s) fd of
        None \<Rightarrow> Inr s
      | Some cid \<Rightarrow>
          let (c, _, sent) = flushWriteBuffer out (objects s cid);
              s1 = deliver fd cid sent (set_object cid c s)
          in if hasError c then Inr (closeConnection fd s1)
             else updateEpollEvents rc fd s1)"

text \<open>The answers of the operating system during the handling of one event.\<close>

record Io =
  io_accepts :: "accept_result list"
  io_recv :: recv_result
  io_send :: send_result
  io_mod_read :: int
  io_mod_write :: int

text \<open>The body of the loop of \<open>run\<close> for one event.\<close>

definition handle_event ::
  "(string \<Rightarrow> size_t) \<Rightarrow> clock2 \<Rightarrow> Io \<Rightarrow> fd \<Rightarrow> epoll_events \<Rightarrow> Server \<Rightarrow> server_error + Server" where
  "handle_event hash now io fd ev s =
     (if fd = server_fd s then acceptConnection (io_accepts io) s
      else if has_event ev (EPOLLERR OR EPOLLHUP) then Inr (closeConnection fd s)
      else case (if has_event ev EPOLLIN then handleRead hash now (io_recv io) (io_mod_read io) fd s else Inr s) of
        Inl e \<Rightarrow> Inl e
      | Inr s1 \<Rightarrow>
          if map_of (connections s1) fd = None then Inr s1
          else if has_event ev EPOLLOUT then handleWrite (io_send io) (io_mod_write io) fd s1
          else Inr s1)"

fun handle_events ::
  "(string \<Rightarrow> size_t) \<Rightarrow> (clock2 \<times> Io \<times> fd \<times> epoll_events) list \<Rightarrow> Server \<Rightarrow> server_error + Server" where
  "handle_events hash [] s = Inr s"
| "handle_events hash ((now, io, fd, ev) # es) s =
     (case handle_event hash now io fd ev s of
        Inl e \<Rightarrow> Inl e
      | Inr s' \<Rightarrow> handle_events hash es s')"

text \<open>\<open>run\<close>: each element is what the flag \<open>running_\<close> holds before a wait, and the events of the wait.\<close>

fun run_rounds ::
  "(string \<Rightarrow> size_t) \<Rightarrow> (bool \<times> (clock2 \<times> Io \<times> fd \<times> epoll_events) list) list \<Rightarrow> Server \<Rightarrow> server_error + Server" where
  "run_rounds hash [] s = Inr s"
| "run_rounds hash ((still_running, es) # rounds) s =
     (if \<not> still_running then Inr (s\<lparr>running_flag := False\<rparr>)
      else case handle_events hash es s of Inl e \<Rightarrow> Inl e | Inr s' \<Rightarrow> run_rounds hash rounds s')"

definition server_run ::
  "(string \<Rightarrow> size_t) \<Rightarrow> (bool \<times> (clock2 \<times> Io \<times> fd \<times> epoll_events) list) list \<Rightarrow> Server \<Rightarrow> server_error + Server" where
  "server_run hash rounds s = run_rounds hash rounds (s\<lparr>running_flag := True\<rparr>)"

definition server_stop :: "Server \<Rightarrow> Server" where
  "server_stop s = s\<lparr>running_flag := False\<rparr>"

subsection \<open>The body of a task\<close>

text \<open>The three statements of the lambda. Other threads run between them, and between the calls of
  \<open>send\<close>: each of these is a step of its own. The worker goes back to its loop with the last one,
  after which it does not touch the connection any more.\<close>

definition to_send :: "string \<Rightarrow> stage" where
  "to_send bytes = (if bytes = [] then ToClear else ToSend bytes)"

definition set_task :: "nat \<Rightarrow> Task \<Rightarrow> Server \<Rightarrow> Server" where
  "set_task i t s = s\<lparr>pool := (pool s)\<lparr>workers := (workers (pool s))[i := Running t]\<rparr>\<rparr>"

definition task_dispatch :: "(string \<Rightarrow> size_t) \<Rightarrow> clock2 \<Rightarrow> nat \<Rightarrow> Task \<Rightarrow> Server \<Rightarrow> server_error + Server" where
  "task_dispatch hash now i t s =
     (case dispatch hash now (task_cmd t) (ds s) of
        None \<Rightarrow> Inl UndefinedBehaviour
      | Some (d, response) \<Rightarrow> Inr (set_task i (t\<lparr>task_stage := to_send response\<rparr>) (s\<lparr>ds := d\<rparr>)))"

definition task_send :: "send_result \<Rightarrow> nat \<Rightarrow> Task \<Rightarrow> string \<Rightarrow> Server \<Rightarrow> Server" where
  "task_send out i t bytes s =
     (let cid = task_conn t; (c, left, sent) = send_step out bytes (objects s cid);
          next_stage = (case left of None \<Rightarrow> ToClear | Some rest \<Rightarrow> to_send rest)
      in deliver (conn_fd c) cid sent (set_object cid c (set_task i (t\<lparr>task_stage := next_stage\<rparr>) s)))"

definition task_clear :: "nat \<Rightarrow> Task \<Rightarrow> Server \<Rightarrow> Server option" where
  "task_clear i t s =
     map_option (\<lambda>p. set_object (task_conn t) (clearInFlight (objects s (task_conn t))) (s\<lparr>pool := p\<rparr>))
       (worker_done i (pool s))"

text \<open>The task of worker \<open>i\<close>.\<close>

definition held :: "nat \<Rightarrow> Server \<Rightarrow> Task option" where
  "held i s = (if i < length (workers (pool s))
     then (case workers (pool s) ! i of Running t \<Rightarrow> Some t | _ \<Rightarrow> None) else None)"

lemma held_iff: "held i s = Some t \<longleftrightarrow> i < length (workers (pool s)) \<and> workers (pool s) ! i = Running t"
  by (auto simp: held_def split: worker.splits)

subsection \<open>Construction and destruction\<close>

text \<open>What the constructor is told by its environment: the clock, the readings during the replay, the
  log file (\<open>None\<close> when it cannot be read), whether it opens for appending, the processor count,
  and the answers of the system calls.\<close>

record Startup =
  su_now :: time_point
  su_clock :: "nat \<Rightarrow> clock2"
  su_file :: "string option"
  su_opens :: bool
  su_cpus :: nat
  su_epoll :: int
  su_socket :: int
  su_setsockopt :: int
  su_bind :: int
  su_listen :: int
  su_getfl :: int
  su_setfl :: int
  su_add :: int

definition DEFAULT_MAX_KEYS :: nat where
  "DEFAULT_MAX_KEYS = 100000"

definition DEFAULT_FSYNC_INTERVAL :: int where
  "DEFAULT_FSYNC_INTERVAL = 100 * 1000000"

text \<open>The log part of the constructor: create the writer disabled, replay, enable, start.\<close>

definition start_aof ::
  "(string \<Rightarrow> size_t) \<Rightarrow> Startup \<Rightarrow> bool \<Rightarrow> ShardedStorage \<Rightarrow> server_error + ShardedStorage \<times> AOFWriter option" where
  "start_aof hash su aof_enabled st =
     (if \<not> aof_enabled then Inr (st, None)
      else let w = setEnabled False (new_AOFWriter (su_now su) DEFAULT_FSYNC_INTERVAL)
           in case replay hash (su_clock su) (su_file su) st of
                None \<Rightarrow> Inl UndefinedBehaviour
              | Some (st', stats) \<Rightarrow>
                  (case aof_start (su_opens su) (case su_file su of None \<Rightarrow> [] | Some b \<Rightarrow> b) (setEnabled True w) of
                     Inl _ \<Rightarrow> Inl AofOpenFailed
                   | Inr w' \<Rightarrow> Inr (st', Some w')))"

definition new_Server ::
  "(string \<Rightarrow> size_t) \<Rightarrow> Startup \<Rightarrow> nat \<Rightarrow> nat \<Rightarrow> bool \<Rightarrow> server_error + Server" where
  "new_Server hash su prt num_threads aof_enabled =
     (case start_aof hash su aof_enabled (new_ShardedStorage DEFAULT_MAX_KEYS) of
        Inl e \<Rightarrow> Inl e
      | Inr (st, w) \<Rightarrow>
     case new_EventLoop (su_epoll su) of
        Inl e \<Rightarrow> Inl (LoopError e)
      | Inr el \<Rightarrow>
     if su_socket su < 0 then Inl SocketFailed
     else if su_setsockopt su < 0 then Inl ReuseAddrFailed
     else if su_bind su < 0 then Inl BindFailed
     else if su_listen su < 0 then Inl ListenFailed
     else if \<not> setNonBlocking (su_getfl su) (su_setfl su) then Inl NonBlockingFailed
     else case addFd (su_add su) (su_socket su) EPOLLIN el of
        Inl e \<Rightarrow> Inl (LoopError e)
      | Inr el' \<Rightarrow>
          Inr \<lparr>port = prt, server_fd = su_socket su, running_flag = False,
               ds = \<lparr>disp = new_Dispatcher (su_now su), storage = st, aof = w\<rparr>,
               loop = el',
               pool = new_ThreadPool (if num_threads = 0 then su_cpus su else num_threads),
               sweeper = startExpirationSweep \<lparr>joinable = False, stop_requested = False\<rparr>,
               connections = [], objects = (\<lambda>_. new_Connection 0), next_object = 0,
               peers = [], delivered = []\<rparr>)"

text \<open>The destructor: stop, stop the log writer (its thread is joined before the next statement),
  close every connection. The pool's workers are joined only afterwards, when the members are
  destroyed.\<close>

definition map_aof :: "(AOFWriter \<Rightarrow> AOFWriter) \<Rightarrow> Server \<Rightarrow> Server" where
  "map_aof f s = s\<lparr>ds := (ds s)\<lparr>aof := map_option f (aof (ds s))\<rparr>\<rparr>"

definition destroy_begin :: "Server \<Rightarrow> Server" where
  "destroy_begin s = map_aof stop_request (server_stop s)"

definition destroy_close :: "Server \<Rightarrow> Server" where
  "destroy_close s = s\<lparr>loop := fold removeFd (map fst (connections s)) (loop s), connections := [], peers := []\<rparr>"

subsection \<open>The running system\<close>

text \<open>The steps of all threads: an event handled by the \<open>epoll\<close> thread, a worker taking a task or going
  on with it, a sweep of a shard, a step of the log writer, a signal. A handler that throws ends the
  server, so its event has no successor state.\<close>

datatype server_event =
    EvEvent clock2 Io fd epoll_events
  | EvTake nat
  | EvDispatch nat clock2
  | EvSend nat send_result
  | EvClear nat
  | EvSweep nat time_point "string list"
  | EvAof aof_event
  | EvSignal

definition server_step :: "(string \<Rightarrow> size_t) \<Rightarrow> server_event \<Rightarrow> Server \<Rightarrow> Server option" where
  "server_step hash e s = (case e of
      EvEvent now io fd ev \<Rightarrow>
        (case handle_event hash now io fd ev s of Inl _ \<Rightarrow> None | Inr s' \<Rightarrow> Some s')
    | EvTake i \<Rightarrow> map_option (\<lambda>p. s\<lparr>pool := p\<rparr>) (worker_wake i (pool s))
    | EvDispatch i now \<Rightarrow>
        (case held i s of
           Some t \<Rightarrow> if task_stage t = ToDispatch
             then (case task_dispatch hash now i t s of Inl _ \<Rightarrow> None | Inr s' \<Rightarrow> Some s') else None
         | None \<Rightarrow> None)
    | EvSend i out \<Rightarrow>
        (case held i s of
           Some t \<Rightarrow> (case task_stage t of ToSend bytes \<Rightarrow> Some (task_send out i t bytes s) | _ \<Rightarrow> None)
         | None \<Rightarrow> None)
    | EvClear i \<Rightarrow>
        (case held i s of
           Some t \<Rightarrow> if task_stage t = ToClear then task_clear i t s else None
         | None \<Rightarrow> None)
    | EvSweep i now order \<Rightarrow>
        map_option (\<lambda>st. s\<lparr>ds := (ds s)\<lparr>storage := st\<rparr>\<rparr>) (sweep_shard_at i now order (storage (ds s)))
    | EvAof a \<Rightarrow>
        (case aof (ds s) of None \<Rightarrow> None
         | Some w \<Rightarrow> map_option (\<lambda>w'. s\<lparr>ds := (ds s)\<lparr>aof := Some w'\<rparr>\<rparr>) (aof_step a w))
    | EvSignal \<Rightarrow> Some (server_stop s))"

end
