(* ===== verification/Server_Inv.thy ===== *)
theory Server_Inv
  imports Server
begin

text \<open>
  Invariants of the running server: how connections, tasks and descriptors belong together, in
  every interleaving of the threads. On them rest the theorems on who receives a response, on what a
  read does with several commands, and on writes during the shutdown.
\<close>

subsection \<open>At most one command of a connection at a time\<close>

definition in_pool :: "Task ThreadPool \<Rightarrow> Task list" where
  "in_pool p = tasks p @ running p"

definition flight :: "nat \<Rightarrow> Task ThreadPool \<Rightarrow> nat" where
  "flight cid p = length (filter (\<lambda>t. task_conn t = cid) (in_pool p))"

definition server_ok :: "Server \<Rightarrow> bool" where
  "server_ok s \<longleftrightarrow>
     (\<forall>cid. flight cid (pool s) = (if conn_in_flight (objects s cid) then 1 else 0))
     \<and> (\<forall>cid \<ge> next_object s. \<not> conn_in_flight (objects s cid))
     \<and> (\<forall>fd cid. map_of (connections s) fd = Some cid \<longrightarrow>
          cid < next_object s \<and> conn_fd (objects s cid) = fd)"

lemma flight_sum:
  "flight cid p = length (filter (\<lambda>t. task_conn t = cid) (tasks p))
     + sum_list (map (\<lambda>w. length (filter (\<lambda>t. task_conn t = cid) (running_task w))) (workers p))"
proof -
  have "length (filter P (concat (map f ws))) = sum_list (map (\<lambda>w. length (filter P (f w))) ws)" for P f ws
    by (induction ws) auto
  then show ?thesis by (simp add: flight_def in_pool_def running_def)
qed

lemma flight_submit: "flight cid (submit t p) = flight cid p + (if task_conn t = cid then 1 else 0)"
  by (simp add: flight_sum submit_def)

lemma new_Task_sel [simp]:
  "task_conn (new_Task cid cmd) = cid" "task_cmd (new_Task cid cmd) = cmd" "task_stage (new_Task cid cmd) = ToDispatch"
  by (simp_all add: new_Task_def)

lemma flight_take:
  assumes "worker_wake i p = Some p'"
  shows "flight cid p' = flight cid p"
proof -
  let ?f = "\<lambda>w. length (filter (\<lambda>t. task_conn t = cid) (running_task w))"
  have i: "i < length (workers p)" "workers p ! i = Idle"
    using assms by (auto simp: worker_wake_def split: if_splits)
  show ?thesis
  proof (cases "tasks p")
    case Nil
    then show ?thesis
      using assms i sum_list_upd [OF i(1), of ?f Exited]
      by (auto simp: flight_sum worker_wake_def running_task_def split: if_splits)
  next
    case (Cons t ts)
    then show ?thesis
      using assms i sum_list_upd [OF i(1), of ?f "Running t"]
      by (auto simp: flight_sum worker_wake_def running_task_def split: if_splits)
  qed
qed

lemma flight_done:
  assumes "worker_done i p = Some p'" and "workers p ! i = Running t"
  shows "flight cid p = flight cid p' + (if task_conn t = cid then 1 else 0)"
proof -
  let ?f = "\<lambda>w. length (filter (\<lambda>t. task_conn t = cid) (running_task w))"
  have i: "i < length (workers p)" "p' = p\<lparr>workers := (workers p)[i := Idle]\<rparr>"
    using assms by (auto simp: worker_done_def split: if_splits)
  show ?thesis
    using i assms(2) sum_list_upd [OF i(1), of ?f Idle]
    by (auto simp: flight_sum running_task_def)
qed

lemma server_okD:
  assumes "server_ok s"
  shows "flight cid (pool s) = (if conn_in_flight (objects s cid) then 1 else 0)"
    "next_object s \<le> cid \<Longrightarrow> \<not> conn_in_flight (objects s cid)"
    "map_of (connections s) fd = Some cid \<Longrightarrow> cid < next_object s \<and> conn_fd (objects s cid) = fd"
  using assms by (auto simp: server_ok_def)

lemma server_ok_set_object [inv_intros]:
  assumes "server_ok s" and "conn_in_flight c = conn_in_flight (objects s cid)"
    and "conn_fd c = conn_fd (objects s cid)"
  shows "server_ok (set_object cid c s)"
  using assms by (auto simp: server_ok_def set_object_def)

lemma server_ok_close [inv_intros]: "server_ok s \<Longrightarrow> server_ok (closeConnection fd s)"
  by (auto simp: server_ok_def closeConnection_def AList.delete_conv)

lemma server_ok_deliver [inv_intros]: "server_ok s \<Longrightarrow> server_ok (deliver fd cid b s)"
  by (auto simp: server_ok_def deliver_def split: option.splits)

lemma server_ok_update:
  "server_ok s \<Longrightarrow> updateEpollEvents rc fd s = Inr s' \<Longrightarrow> server_ok s'"
  by (auto simp: server_ok_def updateEpollEvents_def Let_def split: option.splits sum.splits)

lemma server_ok_accept:
  "server_ok s \<Longrightarrow> acceptConnection rs s = Inr s' \<Longrightarrow> server_ok s'"
proof (induction rs s rule: acceptConnection.induct)
  case (2 r rs s)
  show ?case
  proof (cases r)
    case (Accepted fd getfl setfl rc)
    let ?cid = "next_object s"
    let ?s1 = "s\<lparr>connections := AList.update fd ?cid (connections s),
        objects := (objects s)(?cid := new_Connection fd), next_object := Suc ?cid,
        peers := AList.update fd ?cid (peers s)\<rparr>"
    from 2 Accepted obtain l where l: "setNonBlocking getfl setfl" "addFd rc fd EPOLLIN (loop ?s1) = Inr l"
      "acceptConnection rs (?s1\<lparr>loop := l\<rparr>) = Inr s'"
      by (auto simp: Let_def split: if_splits sum.splits)
    have "server_ok (?s1\<lparr>loop := l\<rparr>)"
      using server_okD [OF 2(2)] by (auto simp: server_ok_def new_Connection_def AList.update_conv less_SucI)
    with 2(1) [OF Accepted] l show ?thesis by simp
  qed (use 2 in simp_all)
qed simp

lemma readAndParse_keeps:
  "readAndParse res c = (c', cmds) \<Longrightarrow> conn_in_flight c' = conn_in_flight c \<and> conn_fd c' = conn_fd c"
  by (auto simp: readAndParse_def split: recv_result.splits prod.splits)

lemma flush_keeps:
  "flushWriteBuffer out c = (c', b, sent) \<Longrightarrow> conn_in_flight c' = conn_in_flight c \<and> conn_fd c' = conn_fd c"
  by (auto simp: flushWriteBuffer_def Let_def split: send_result.splits if_splits)

text \<open>The flag of a connection that is being read is clear, so the first command is submitted and the
  loop left: the synchronous branch is never taken.\<close>

lemma process_commands_free:
  assumes "\<not> conn_in_flight (objects s cid)"
  shows "process_commands hash now cid cmds s = (case cmds of [] \<Rightarrow> Inr s
    | cmd # _ \<Rightarrow> Inr (set_object cid ((objects s cid)\<lparr>conn_in_flight := True\<rparr>)
        (s\<lparr>pool := submit (new_Task cid (parseCommand cmd)) (pool s)\<rparr>)))"
  using assms by (cases cmds) (simp_all add: trySetInFlight_def)

text \<open>So a read changes the connection it reads and submits at most one task.\<close>

definition submit_first :: "nat \<Rightarrow> Connection \<Rightarrow> string list \<Rightarrow> Server \<Rightarrow> Server" where
  "submit_first cid c cmds s = (case cmds of
      [] \<Rightarrow> set_object cid c s
    | cmd # _ \<Rightarrow> set_object cid (c\<lparr>conn_in_flight := True\<rparr>)
        (s\<lparr>pool := submit (new_Task cid (parseCommand cmd)) (pool s)\<rparr>))"

lemma handleRead_eq:
  "handleRead hash now res rc fd s =
     (case map_of (connections s) fd of None \<Rightarrow> Inr s
      | Some cid \<Rightarrow>
          if conn_in_flight (objects s cid) then Inr s
          else let (c, cmds) = readAndParse res (objects s cid)
               in if hasError c then Inr (closeConnection fd (set_object cid c s))
                  else updateEpollEvents rc fd (submit_first cid c cmds s))"
proof (cases "map_of (connections s) fd")
  case (Some cid)
  obtain c cmds where r: "readAndParse res (objects s cid) = (c, cmds)"
    by (cases "readAndParse res (objects s cid)")
  show ?thesis
  proof (cases "conn_in_flight (objects s cid)")
    case False
    then have "\<not> conn_in_flight (objects (set_object cid c s) cid)"
      using readAndParse_keeps [OF r] by (simp add: set_object_def)
    from process_commands_free [OF this, of hash now cmds]
    have "process_commands hash now cid cmds (set_object cid c s) = Inr (submit_first cid c cmds s)"
      by (cases cmds) (simp_all add: submit_first_def set_object_def del: process_commands.simps)
    with Some r False show ?thesis by (simp add: handleRead_def isInFlight_def)
  qed (use Some in \<open>simp add: handleRead_def isInFlight_def\<close>)
qed (simp add: handleRead_def)

lemma server_ok_submit_first:
  assumes ok: "server_ok s" and r: "readAndParse res (objects s cid) = (c, cmds)"
    and "\<not> conn_in_flight (objects s cid)" and "cid < next_object s"
  shows "server_ok (submit_first cid c cmds s)"
proof (cases cmds)
  case Nil
  then show ?thesis
    using ok readAndParse_keeps [OF r] by (auto simp: submit_first_def intro!: inv_intros)
next
  case (Cons cmd rest)
  then show ?thesis
    using assms server_okD [OF ok] readAndParse_keeps [OF r]
    by (auto simp: submit_first_def server_ok_def set_object_def flight_submit split: if_splits)
qed

lemma server_ok_read:
  assumes ok: "server_ok s" and "handleRead hash now res rc fd s = Inr s'"
  shows "server_ok s'"
proof -
  have sub: "server_ok (submit_first cid c cmds s)"
    if "map_of (connections s) fd = Some cid" "\<not> conn_in_flight (objects s cid)"
      "readAndParse res (objects s cid) = (c, cmds)" for cid c cmds
    using server_ok_submit_first [OF ok that(3,2)] server_okD(3) [OF ok that(1)] by blast
  show ?thesis
    using assms
    by (auto simp: handleRead_eq readAndParse_keeps split: option.splits if_splits prod.splits
        intro!: inv_intros dest: server_ok_update [OF sub])
qed

lemma server_ok_write:
  assumes ok: "server_ok s" and "handleWrite out rc fd s = Inr s'"
  shows "server_ok s'"
proof (cases "map_of (connections s) fd")
  case (Some cid)
  obtain c b sent where f: "flushWriteBuffer out (objects s cid) = (c, b, sent)"
    by (cases "flushWriteBuffer out (objects s cid)") auto
  have "server_ok (deliver fd cid sent (set_object cid c s))"
    using ok flush_keeps [OF f] by (intro inv_intros) simp_all
  with assms(2) Some f show ?thesis
    by (auto simp: handleWrite_def Let_def split: if_splits intro: inv_intros server_ok_update)
qed (use assms in \<open>simp add: handleWrite_def\<close>)

lemma server_ok_event:
  assumes "server_ok s" and "handle_event hash now io fd ev s = Inr s'"
  shows "server_ok s'"
  using assms
  by (auto simp: handle_event_def split: if_splits sum.splits
      intro: inv_intros dest: server_ok_accept server_ok_read server_ok_write)

lemma flight_set_task:
  assumes "held i s = Some t" and "task_conn t' = task_conn t"
  shows "flight cid (pool (set_task i t' s)) = flight cid (pool s)"
proof -
  let ?f = "\<lambda>w. length (filter (\<lambda>t. task_conn t = cid) (running_task w))"
  have i: "i < length (workers (pool s))" "workers (pool s) ! i = Running t"
    using assms(1) by (simp_all add: held_iff)
  show ?thesis
    using sum_list_upd [OF i(1), of ?f "Running t'"] assms(2) i(2)
    by (cases "task_conn t = cid") (simp_all add: flight_sum set_task_def running_task_def)
qed

lemma server_ok_set_task:
  "server_ok s \<Longrightarrow> held i s = Some t \<Longrightarrow> task_conn t' = task_conn t \<Longrightarrow> server_ok (set_task i t' s)"
  using flight_set_task [of i s t t'] by (auto simp: server_ok_def set_task_def)

lemma set_task_sel [simp]:
  "objects (set_task i t s) = objects s" "ds (set_task i t s) = ds s" "connections (set_task i t s) = connections s"
  "peers (set_task i t s) = peers s" "delivered (set_task i t s) = delivered s"
  "next_object (set_task i t s) = next_object s"
  by (simp_all add: set_task_def)

lemma held_ds [simp]: "held i (s\<lparr>ds := d\<rparr>) = held i s"
  by (simp add: held_def)

lemma server_ok_ds [inv_intros]: "server_ok s \<Longrightarrow> server_ok (s\<lparr>ds := d\<rparr>)"
  by (simp add: server_ok_def)

lemma send_step_keeps:
  "send_step out bytes c = (c', left, sent) \<Longrightarrow> conn_in_flight c' = conn_in_flight c \<and> conn_fd c' = conn_fd c"
  by (auto simp: send_step_def split: send_result.splits)

lemma server_ok_send:
  assumes ok: "server_ok s" and h: "held i s = Some t"
  shows "server_ok (task_send out i t bytes s)"
proof -
  obtain c left sent where st: "send_step out bytes (objects s (task_conn t)) = (c, left, sent)"
    by (cases "send_step out bytes (objects s (task_conn t))")
  have "server_ok (set_task i (t\<lparr>task_stage := stg\<rparr>) s)" for stg
    by (rule server_ok_set_task [OF ok h]) simp
  then show ?thesis
    using send_step_keeps [OF st] by (auto simp: task_send_def Let_def st intro!: inv_intros)
qed

lemma server_ok_clear:
  assumes ok: "server_ok s" and h: "held i s = Some t" and c: "task_clear i t s = Some s'"
  shows "server_ok s'"
proof -
  let ?cid = "task_conn t"
  from c obtain p where p: "worker_done i (pool s) = Some p"
    "s' = set_object ?cid (clearInFlight (objects s ?cid)) (s\<lparr>pool := p\<rparr>)"
    by (auto simp: task_clear_def)
  have fl: "flight cid (pool s) = flight cid p + (if ?cid = cid then 1 else 0)" for cid
    using flight_done [OF p(1)] h by (simp add: held_iff)
  have "flight cid p = (if conn_in_flight (((objects s)(?cid := clearInFlight (objects s ?cid))) cid) then 1 else 0)" for cid
    using server_okD(1) [OF ok, of cid] fl [of cid] by (auto simp: clearInFlight_def split: if_splits)
  then show ?thesis
    using server_okD(2,3) [OF ok] unfolding server_ok_def p(2)
    by (auto simp: clearInFlight_def set_object_def)
qed

interpretation server_sys: event_system "server_step hash" "\<lambda>_. True" server_ok
  for hash :: "string \<Rightarrow> size_t"
proof (unfold_locales, goal_cases)
  case (1 s e s')
  then show ?case
  proof (cases e)
    case (EvTake i)
    with 1 show ?thesis by (auto simp: server_step_def server_ok_def flight_take)
  next
    case (EvDispatch i now)
    with 1 show ?thesis
      by (auto simp: server_step_def task_dispatch_def split: option.splits if_splits sum.splits
          intro!: server_ok_set_task server_ok_ds)
  next
    case (EvSend i out)
    with 1 show ?thesis
      by (auto simp: server_step_def split: option.splits stage.splits intro: server_ok_send)
  next
    case (EvClear i)
    with 1 show ?thesis
      by (auto simp: server_step_def split: option.splits if_splits intro: server_ok_clear)
  next
    case (EvEvent now io fd ev)
    with 1 show ?thesis
      by (auto simp: server_step_def split: sum.splits intro: server_ok_event)
  qed (auto simp: server_step_def server_ok_def server_stop_def split: option.splits)
qed

lemma server_ok_new: "new_Server hash su prt n on = Inr s \<Longrightarrow> server_ok s"
  by (auto simp: new_Server_def server_ok_def flight_sum new_ThreadPool_def new_Connection_def running_task_def
      split: sum.splits if_splits prod.splits)

text \<open>C9. One command of a connection at a time. In every state a server reaches, a connection has
  exactly one task in the pool, queued or running, while its in-flight flag is set, and none
  otherwise; and a descriptor in the table belongs to the connection registered for it.\<close>

theorem one_task_per_connection:
  assumes "new_Server hash su prt n on = Inr s0" and "run (server_step hash) es s0 = Some s"
  shows "(\<forall>cid. flight cid (pool s) = (if conn_in_flight (objects s cid) then 1 else 0))
    \<and> (\<forall>fd cid. map_of (connections s) fd = Some cid \<longrightarrow> cid < next_object s \<and> conn_fd (objects s cid) = fd)"
  using server_sys.inv_run [OF server_ok_new [OF assms(1)] _ assms(2)] by (simp add: server_ok_def)

subsection \<open>Who receives a response\<close>

text \<open>The descriptors that an event may register.\<close>

fun accepted_fd :: "accept_result \<Rightarrow> fd list" where
  "accepted_fd (Accepted fd _ _ _) = [fd]"
| "accepted_fd AcceptWouldBlock = []"
| "accepted_fd AcceptFailed = []"

definition accepted_fds :: "server_event \<Rightarrow> fd list" where
  "accepted_fds e = (case e of EvEvent now io fd ev \<Rightarrow> concat (map accepted_fd (io_accepts io)) | _ \<Rightarrow> [])"

text \<open>\<open>used\<close> holds every descriptor so far; no two connections ever had the same one.\<close>

definition owned :: "fd set \<Rightarrow> Server \<Rightarrow> bool" where
  "owned used s \<longleftrightarrow>
     (\<forall>cid < next_object s. conn_fd (objects s cid) \<in> used)
     \<and> (\<forall>cid < next_object s. \<forall>cid' < next_object s. conn_fd (objects s cid) = conn_fd (objects s cid') \<longrightarrow> cid = cid')
     \<and> (\<forall>fd cid. map_of (peers s) fd = Some cid \<longrightarrow> cid < next_object s \<and> conn_fd (objects s cid) = fd)
     \<and> (\<forall>(client, cid, bytes)\<in>set (delivered s). client = cid)"

lemma owned_set_object [inv_intros]:
  assumes "owned used s" and "conn_fd c = conn_fd (objects s cid)"
  shows "owned used (set_object cid c s)"
proof -
  have "conn_fd (objects (set_object cid c s) cid') = conn_fd (objects s cid')" for cid'
    using assms(2) by (simp add: set_object_def)
  moreover have "next_object (set_object cid c s) = next_object s" "peers (set_object cid c s) = peers s"
    "delivered (set_object cid c s) = delivered s"
    by (simp_all add: set_object_def)
  ultimately show ?thesis using assms(1) unfolding owned_def by simp
qed

lemma owned_close [inv_intros]: "owned used s \<Longrightarrow> owned used (closeConnection fd s)"
  by (auto simp: owned_def closeConnection_def AList.delete_conv)

lemma owned_deliver:
  "owned used s \<Longrightarrow> cid < next_object s \<Longrightarrow> conn_fd (objects s cid) = fd \<Longrightarrow> owned used (deliver fd cid bytes s)"
  by (auto simp: owned_def deliver_def split: option.splits)

lemma owned_update: "owned used s \<Longrightarrow> updateEpollEvents rc fd s = Inr s' \<Longrightarrow> owned used s'"
  by (auto simp: owned_def updateEpollEvents_def Let_def split: option.splits sum.splits)

lemma owned_accept:
  "owned used s \<Longrightarrow> acceptConnection rs s = Inr s' \<Longrightarrow> distinct (concat (map accepted_fd rs)) \<Longrightarrow>
   used \<inter> set (concat (map accepted_fd rs)) = {} \<Longrightarrow> owned (used \<union> set (concat (map accepted_fd rs))) s'"
proof (induction rs s arbitrary: used rule: acceptConnection.induct)
  case (2 r rs s)
  show ?case
  proof (cases r)
    case (Accepted fd getfl setfl rc)
    let ?cid = "next_object s"
    let ?s1 = "s\<lparr>connections := AList.update fd ?cid (connections s),
        objects := (objects s)(?cid := new_Connection fd), next_object := Suc ?cid,
        peers := AList.update fd ?cid (peers s)\<rparr>"
    from 2 Accepted obtain l where l: "setNonBlocking getfl setfl" "addFd rc fd EPOLLIN (loop ?s1) = Inr l"
      "acceptConnection rs (?s1\<lparr>loop := l\<rparr>) = Inr s'"
      by (auto simp: Let_def split: if_splits sum.splits)
    have fresh: "fd \<notin> used" using 2(5) Accepted by simp
    have "owned (insert fd used) (?s1\<lparr>loop := l\<rparr>)"
      using 2(2) fresh unfolding owned_def
      by (auto simp: less_Suc_eq new_Connection_def AList.update_conv)
    with 2(1) [OF Accepted _ refl refl l(2), of "insert fd used"] l 2(4,5) Accepted show ?thesis by simp
  qed (use 2 in \<open>auto simp: owned_def\<close>)
qed simp

lemma owned_more: "owned used s \<Longrightarrow> used \<subseteq> used' \<Longrightarrow> owned used' s"
  by (auto simp: owned_def)

lemma owned_pool [inv_intros]: "owned used s \<Longrightarrow> owned used (s\<lparr>pool := p\<rparr>)"
  by (simp add: owned_def)

lemma owned_ds [inv_intros]: "owned used s \<Longrightarrow> owned used (s\<lparr>ds := d\<rparr>)"
  by (simp add: owned_def)

lemma owned_read:
  assumes o: "owned used s" and "handleRead hash now res rc fd s = Inr s'"
  shows "owned used s'"
proof -
  have sub: "owned used (submit_first cid c cmds s)" if "readAndParse res (objects s cid) = (c, cmds)" for cid c cmds
    using o readAndParse_keeps [OF that] by (auto simp: submit_first_def intro!: inv_intros split: list.splits)
  show ?thesis
    using assms
    by (auto simp: handleRead_eq readAndParse_keeps split: option.splits if_splits prod.splits
        intro!: inv_intros dest: owned_update [OF sub])
qed

lemma owned_write:
  assumes o: "owned used s" and ok: "server_ok s" and "handleWrite out rc fd s = Inr s'"
  shows "owned used s'"
proof (cases "map_of (connections s) fd")
  case (Some cid)
  obtain c b sent where f: "flushWriteBuffer out (objects s cid) = (c, b, sent)"
    by (cases "flushWriteBuffer out (objects s cid)") auto
  let ?s1 = "set_object cid c s"
  have "owned used ?s1" "cid < next_object ?s1" "conn_fd (objects ?s1 cid) = fd"
    using o flush_keeps [OF f] server_okD(3) [OF ok Some]
    by (auto simp: set_object_def [of cid c s] intro!: owned_set_object [unfolded set_object_def])
  then have "owned used (deliver fd cid sent ?s1)" by (rule owned_deliver)
  with assms(3) Some f show ?thesis
    by (auto simp: handleWrite_def Let_def split: if_splits intro: inv_intros owned_update)
qed (use assms in \<open>simp add: handleWrite_def\<close>)

lemma owned_set_task [inv_intros]: "owned used s \<Longrightarrow> owned used (set_task i t s)"
  by (simp add: owned_def)

lemma owned_send:
  assumes o: "owned used s" and cid: "task_conn t < next_object s"
  shows "owned used (task_send out i t bytes s)"
proof -
  let ?cid = "task_conn t"
  obtain c left sent where st: "send_step out bytes (objects s ?cid) = (c, left, sent)"
    by (cases "send_step out bytes (objects s ?cid)")
  let ?s1 = "set_object ?cid c (set_task i (t\<lparr>task_stage := case left of None \<Rightarrow> ToClear | Some rest \<Rightarrow> to_send rest\<rparr>) s)"
  have "owned used ?s1" using o send_step_keeps [OF st] by (intro inv_intros) simp_all
  then have "owned used (deliver (conn_fd c) ?cid sent ?s1)"
    by (rule owned_deliver) (use cid in \<open>simp_all add: set_object_def\<close>)
  then show ?thesis by (simp add: task_send_def Let_def st)
qed

lemma owned_clear:
  assumes "owned used s" and "task_clear i t s = Some s'"
  shows "owned used s'"
  using assms by (auto simp: task_clear_def clearInFlight_def intro!: inv_intros)

lemma running_flight:
  assumes "i < length (workers p)" and "workers p ! i = Running t"
  shows "flight (task_conn t) p > 0"
proof -
  have "t \<in> set (running p)"
    using assms nth_mem [OF assms(1)] by (force simp: running_def running_task_def)
  then show ?thesis by (auto simp: flight_def in_pool_def filter_empty_conv)
qed

lemma held_object:
  assumes "server_ok s" and "held i s = Some t"
  shows "task_conn t < next_object s"
  using running_flight [of i "pool s" t] assms(2) server_okD(1,2) [OF assms(1), of "task_conn t"]
  by (cases "conn_in_flight (objects s (task_conn t))") (auto simp: held_iff not_less [symmetric])

lemma owned_event:
  assumes o: "owned used s" and ok: "server_ok s" and h: "handle_event hash now io fd ev s = Inr s'"
    and "distinct (concat (map accepted_fd (io_accepts io)))"
    and "used \<inter> set (concat (map accepted_fd (io_accepts io))) = {}"
  shows "owned (used \<union> set (concat (map accepted_fd (io_accepts io)))) s'"
proof (cases "fd = server_fd s")
  case True
  with h owned_accept [OF o _ assms(4,5)] show ?thesis by (simp add: handle_event_def)
next
  case False
  with o ok h have "owned used s'"
    by (auto simp: handle_event_def split: if_splits sum.splits
        intro: inv_intros dest: owned_read owned_write server_ok_read)
  then show ?thesis by (rule owned_more) blast
qed

lemma owned_step:
  assumes o: "owned used s" and ok: "server_ok s" and st: "server_step hash e s = Some s'"
    and "distinct (accepted_fds e)" and "used \<inter> set (accepted_fds e) = {}"
  shows "owned (used \<union> set (accepted_fds e)) s'"
proof (cases e)
  case (EvEvent now io fd ev)
  with st owned_event [OF o ok] assms(4,5) show ?thesis
    by (auto simp: server_step_def accepted_fds_def split: sum.splits)
next
  case (EvDispatch i now)
  with st o show ?thesis
    by (auto simp: server_step_def task_dispatch_def accepted_fds_def
        split: option.splits if_splits sum.splits intro!: inv_intros)
next
  case (EvSend i out)
  with st obtain t bytes where t: "held i s = Some t" "s' = task_send out i t bytes s"
    by (auto simp: server_step_def split: option.splits stage.splits)
  with EvSend owned_send [OF o held_object [OF ok t(1)]] show ?thesis by (simp add: accepted_fds_def)
next
  case (EvClear i)
  with st o show ?thesis
    by (auto simp: server_step_def accepted_fds_def split: option.splits if_splits intro: owned_clear)
qed (use st o in \<open>auto simp: server_step_def accepted_fds_def server_stop_def owned_def split: option.splits\<close>)

lemma owned_run:
  assumes "owned used s" and "server_ok s" and "run (server_step hash) es s = Some s'"
    and "distinct (concat (map accepted_fds es))" and "used \<inter> set (concat (map accepted_fds es)) = {}"
  shows "owned (used \<union> set (concat (map accepted_fds es))) s'"
  using assms
proof (induction es arbitrary: s used)
  case (Cons e es)
  then obtain s1 where s1: "server_step hash e s = Some s1" "run (server_step hash) es s1 = Some s'"
    by (auto split: option.splits)
  have "owned (used \<union> set (accepted_fds e)) s1"
    using owned_step [OF Cons.prems(1,2) s1(1)] Cons.prems(4,5) by auto
  moreover have "server_ok s1" by (rule server_sys.inv_step [OF Cons.prems(2) _ s1(1)]) simp
  ultimately show ?case using Cons.IH [OF _ _ s1(2), of "used \<union> set (accepted_fds e)"] Cons.prems(4,5)
    by (auto simp: Un_assoc)
qed simp

lemma owned_new: "new_Server hash su prt n on = Inr s \<Longrightarrow> owned {} s"
  by (auto simp: new_Server_def owned_def split: sum.splits if_splits prod.splits)

subsection \<open>A sample server\<close>

definition demo_startup :: Startup where
  "demo_startup = \<lparr>su_now = 0, su_clock = (\<lambda>_. (0, 0)), su_file = None, su_opens = True, su_cpus = 4,
     su_epoll = 3, su_socket = 4, su_setsockopt = 0, su_bind = 0, su_listen = 0, su_getfl = 2, su_setfl = 0, su_add = 0\<rparr>"

definition demo_server :: Server where
  "demo_server =
     \<lparr>port = 6380, server_fd = 4, running_flag = False,
      ds = \<lparr>disp = new_Dispatcher 0, storage = new_ShardedStorage DEFAULT_MAX_KEYS, aof = None\<rparr>,
      loop = \<lparr>epoll_fd = 3, interest = [(4, EPOLLIN)]\<rparr>, pool = new_ThreadPool 1,
      sweeper = startExpirationSweep \<lparr>joinable = False, stop_requested = False\<rparr>,
      connections = [], objects = (\<lambda>_. new_Connection 0), next_object = 0, peers = [], delivered = []\<rparr>"

lemma demo_new: "new_Server hash demo_startup 6380 1 False = Inr demo_server"
  by (simp add: new_Server_def demo_startup_def demo_server_def start_aof_def new_EventLoop_def addFd_def
      setNonBlocking_def)

definition quiet :: Io where
  "quiet = \<lparr>io_accepts = [], io_recv = RecvWouldBlock, io_send = SendWouldBlock, io_mod_read = 0, io_mod_write = 0\<rparr>"

definition demo_accept :: "fd \<Rightarrow> server_event" where
  "demo_accept fd = EvEvent (1, 1) (quiet\<lparr>io_accepts := [Accepted fd 2 0 0, AcceptWouldBlock]\<rparr>) 4 EPOLLIN"

definition demo_ping :: "fd \<Rightarrow> server_event" where
  "demo_ping fd = EvEvent (2, 2) (quiet\<lparr>io_recv := RecvBytes (''PING'' @ [newline])\<rparr>) fd EPOLLIN"

lemmas handler_defs = setNonBlocking_def server_step_def handle_event_def handleRead_def handleWrite_def closeConnection_def
  updateEpollEvents_def addFd_def modifyFd_def removeFd_def set_object_def deliver_def has_event_def
  EPOLLIN_def EPOLLOUT_def EPOLLERR_def EPOLLHUP_def task_dispatch_def task_send_def task_clear_def
  held_def set_task_def to_send_def new_Task_def send_step_def trySetInFlight_def clearInFlight_def
  wantWrite_def submit_def worker_wake_def worker_done_def Let_def

lemma extract_ping: "extract_commands (''PING'' @ [newline]) = ([''PING''], [])"
  by code_simp

lemma read_ping:
  "readAndParse (RecvBytes (''PING'' @ [newline])) (new_Connection fd) = (new_Connection fd, [''PING''])"
  by (simp add: readAndParse_def new_Connection_def extract_ping [simplified])

lemma parse_ping: "parseCommand ''PING'' = \<lparr>cmd_type = PING, args = []\<rparr>"
  by code_simp

lemma dispatch_ping:
  "dispatch hash now \<lparr>cmd_type = PING, args = []\<rparr> s = Some (with_disp count_request s, pongResponse)"
  by (simp add: dispatch_def Let_def)

lemma fresh_connection:
  "conn_in_flight (new_Connection fd) = False" "conn_fd (new_Connection fd) = fd"
  "write_buffer (new_Connection fd) = []" "hasError (new_Connection fd) = False"
  "isInFlight (new_Connection fd) = False"
  by (simp_all add: new_Connection_def hasError_def isInFlight_def)

lemmas demo_simps = handler_defs demo_accept_def demo_ping_def demo_server_def quiet_def read_ping [simplified]
  parse_ping dispatch_ping fresh_connection new_ThreadPool_def pongResponse_def

theorem one_task_per_connection_witness:
  "\<exists>s. run (server_step (\<lambda>_. 0)) [demo_accept 5, demo_ping 5, EvTake 0] demo_server = Some s
    \<and> conn_in_flight (objects s 0) \<and> flight 0 (pool s) = 1"
proof -
  have "\<exists>s. run (server_step (\<lambda>_. 0)) [demo_accept 5, demo_ping 5, EvTake 0] demo_server = Some s
      \<and> conn_in_flight (objects s 0)"
    by (simp add: demo_simps)
  then obtain s where s: "run (server_step (\<lambda>_. 0)) [demo_accept 5, demo_ping 5, EvTake 0] demo_server = Some s"
    "conn_in_flight (objects s 0)" by blast
  with conjunct1 [OF one_task_per_connection [OF demo_new s(1)]] show ?thesis by auto
qed




subsection \<open>Pipelined commands\<close>

text \<open>C32. One command per read. A read that finds several complete commands submits the first one
  and leaves the rest nowhere: neither in the pool, nor in the read buffer, nor answered.\<close>

theorem handleRead_keeps_first_command:
  assumes "map_of (connections s) fd = Some cid" and "\<not> isInFlight (objects s cid)"
    and "readAndParse res (objects s cid) = (c, cmd # rest)" and "\<not> hasError c" and "0 \<le> rc"
  shows "\<exists>s'. handleRead hash now res rc fd s = Inr s'
    \<and> pool s' = submit (new_Task cid (parseCommand cmd)) (pool s)
    \<and> objects s' = (objects s)(cid := c\<lparr>conn_in_flight := True\<rparr>)
    \<and> ds s' = ds s \<and> connections s' = connections s \<and> delivered s' = delivered s"
  using assms
  by (simp add: handleRead_eq isInFlight_def submit_first_def set_object_def updateEpollEvents_def modifyFd_def Let_def)

theorem handleRead_keeps_first_command_witness:
  "\<exists>s s'. run (server_step (\<lambda>_. 0)) [demo_accept 5] demo_server = Some s
    \<and> handleRead (\<lambda>_. 0) (1, 1) (RecvBytes (''PING'' @ [newline] @ ''STATS'' @ [newline])) 0 5 s = Inr s'
    \<and> tasks (pool s') = [new_Task 0 \<lparr>cmd_type = PING, args = []\<rparr>]
    \<and> read_buffer (objects s' 0) = [] \<and> write_buffer (objects s' 0) = []"
proof -
  have "\<exists>s. run (server_step (\<lambda>_. 0)) [demo_accept 5] demo_server = Some s
      \<and> map_of (connections s) 5 = Some 0 \<and> objects s 0 = new_Connection 5 \<and> tasks (pool s) = []"
    by (simp add: demo_simps)
  then obtain s where s: "run (server_step (\<lambda>_. 0)) [demo_accept 5] demo_server = Some s"
    "map_of (connections s) 5 = Some 0" "objects s 0 = new_Connection 5" "tasks (pool s) = []" by blast
  have "extract_commands (''PING'' @ [newline] @ ''STATS'' @ [newline]) = ([''PING'', ''STATS''], [])"
    by code_simp
  then have r: "readAndParse (RecvBytes (''PING'' @ [newline] @ ''STATS'' @ [newline])) (objects s 0)
      = (new_Connection 5, [''PING'', ''STATS''])"
    by (simp add: s(3) readAndParse_def new_Connection_def)
  from handleRead_keeps_first_command [OF s(2) _ r _ order.refl, of "\<lambda>_. 0" "(1, 1)"] s(3,4)
  obtain s' where
    "handleRead (\<lambda>_. 0) (1, 1) (RecvBytes (''PING'' @ [newline] @ ''STATS'' @ [newline])) 0 5 s = Inr s'"
    "pool s' = submit (new_Task 0 (parseCommand ''PING'')) (pool s)"
    "objects s' = (objects s)(0 := (new_Connection 5)\<lparr>conn_in_flight := True\<rparr>)"
    by (auto simp: fresh_connection)
  with s(1,4) show ?thesis
    by (intro exI [of _ s] exI [of _ s']) (simp add: submit_def parse_ping new_Connection_def)
qed

subsection \<open>Writes during the shutdown\<close>

text \<open>C35. The unlogged acknowledgement. The destructor stops the log before the workers are joined:
  a worker that still has a \<open>SET\<close> to run in between changes the storage and sends \<open>+OK\<close> to its
  client, and the log does not get the line.\<close>

theorem write_after_stop_unlogged:
  assumes "storage_ok hash (storage (ds s))" and "aof (ds s) = Some w"
    and h: "held i s = Some t" and t: "task_stage t = ToDispatch" "task_cmd t = \<lparr>cmd_type = SET, args = [k, x]\<rparr>"
    and peer: "map_of (peers s) (conn_fd (objects s (task_conn t))) = Some client"
  shows "\<exists>s'. run (server_step hash) [EvDispatch i now, EvSend i (Sent (length okResponse)), EvClear i]
      (destroy_begin s) = Some s'
    \<and> delivered s' = delivered s @ [(client, task_conn t, okResponse)]
    \<and> storage_view hash (storage (ds s')) k = Some (x, None)
    \<and> aof (ds s') = aof (ds (destroy_begin s))"
proof -
  let ?s = "destroy_begin s"
  have s: "storage (ds ?s) = storage (ds s)" "aof (ds ?s) = Some (stop_request w)" "objects ?s = objects s"
    "peers ?s = peers s" "delivered ?s = delivered s" "pool ?s = pool s"
    by (simp_all add: destroy_begin_def map_aof_def server_stop_def assms(2))
  have i: "i < length (workers (pool s))" "workers (pool s) ! i = Running t" using h by (simp_all add: held_iff)
  obtain st where st: "storage_set hash k x (storage (ds s)) = Some st" "storage_view hash st k = Some (x, None)"
    using storage_kv.put_law [OF assms(1), of None k x] by (auto simp: storage_set_insert)
  have d: "dispatch hash now (task_cmd t) (ds ?s) =
      Some (log_if True (LogSet k x) ((with_disp count_write (with_disp count_request (ds ?s)))\<lparr>storage := st\<rparr>), okResponse)"
    by (simp add: t dispatch_def Let_def s st)
  let ?d = "log_if True (LogSet k x) ((with_disp count_write (with_disp count_request (ds ?s)))\<lparr>storage := st\<rparr>)"
  have a: "aof ?d = aof (ds ?s)"
    by (simp add: log_if_def with_disp_def s aof_log_def enqueue_def stop_request_def)
  show ?thesis
    using i s d st(2) a t(1) peer
    by (simp add: server_step_def held_def task_dispatch_def task_send_def task_clear_def set_task_def
        set_object_def deliver_def send_step_def to_send_def worker_done_def okResponse_def Let_def)
qed

theorem write_after_stop_unlogged_witness:
  "\<exists>(s :: Server) s'. held 0 s = Some (new_Task 0 \<lparr>cmd_type = SET, args = [''a'', ''1'']\<rparr>)
    \<and> run (server_step (\<lambda>_. 0)) [EvDispatch 0 (2, 2), EvSend 0 (Sent (length okResponse)), EvClear 0] (destroy_begin s) = Some s'
    \<and> delivered s' = [(0, 0, okResponse)] \<and> storage_view (\<lambda>_. 0) (storage (ds s')) ''a'' = Some (''1'', None)
    \<and> aof (ds s') = aof (ds (destroy_begin s))"
proof -
  let ?s0 = "demo_server\<lparr>ds := (ds demo_server)\<lparr>aof := Some (new_AOFWriter 0 100)\<rparr>\<rparr>"
  let ?t = "new_Task 0 \<lparr>cmd_type = SET, args = [''a'', ''1'']\<rparr>"
  have "\<exists>s. run (server_step (\<lambda>_. 0)) [demo_accept 5] ?s0 = Some s
      \<and> storage (ds s) = new_ShardedStorage DEFAULT_MAX_KEYS \<and> aof (ds s) = Some (new_AOFWriter 0 100)
      \<and> map_of (peers s) (conn_fd (objects s 0)) = Some 0 \<and> delivered s = [] \<and> workers (pool s) = [Idle]"
    by (simp add: demo_simps)
  then obtain s1 :: Server where s1: "storage (ds s1) = new_ShardedStorage DEFAULT_MAX_KEYS"
    "aof (ds s1) = Some (new_AOFWriter 0 100)" "map_of (peers s1) (conn_fd (objects s1 0)) = Some 0"
    "delivered s1 = []" "workers (pool s1) = [Idle]" by blast
  let ?s = "set_task 0 ?t s1"
  have h: "held 0 ?s = Some ?t" using s1(5) by (simp add: held_def set_task_def)
  have ok: "storage_ok (\<lambda>_. 0) (storage (ds ?s))" using s1(1) by (simp add: storage_ok_new)
  have t: "task_stage ?t = ToDispatch" "task_cmd ?t = \<lparr>cmd_type = SET, args = [''a'', ''1'']\<rparr>" "task_conn ?t = 0"
    by simp_all
  have "aof (ds ?s) = Some (new_AOFWriter 0 100)"
    "map_of (peers ?s) (conn_fd (objects ?s (task_conn ?t))) = Some 0" using s1 t(3) by simp_all
  from write_after_stop_unlogged [OF ok this(1) h t(1,2) this(2), of "(2, 2)"]
  obtain s' where "run (server_step (\<lambda>_. 0))
      [EvDispatch 0 (2, 2), EvSend 0 (Sent (length okResponse)), EvClear 0] (destroy_begin ?s) = Some s'"
    "delivered s' = [(0, 0, okResponse)]" "storage_view (\<lambda>_. 0) (storage (ds s')) ''a'' = Some (''1'', None)"
    "aof (ds s') = aof (ds (destroy_begin ?s))"
    unfolding set_task_sel s1(4) t(3) append_Nil by blast
  with h show ?thesis by blast
qed

end
