(* ===== verification/Server_Runs.thy ===== *)
theory Server_Runs
  imports Server_Inv
begin

text \<open>
  Whole runs of the server against what its parts promise: the storage of a running server is one
  that storage operations reach, so that nothing undefined happens and the capacity is kept; and
  the server refines the protocol of theory \<open>Dispatcher\<close>, in which commands happen one after
  the other and expired keys may disappear at any time.
\<close>

subsection \<open>Commands and replay as storage operations\<close>

lemma reach_storage_ops:
  assumes "storage_reach hash n st"
  shows "storage_set hash k v st = Some st' \<Longrightarrow> storage_reach hash n st'"
    "storage_get hash t k st = Some (st', x) \<Longrightarrow> storage_reach hash n st'"
    "storage_del hash t k st = Some (st', b) \<Longrightarrow> storage_reach hash n st'"
    "storage_expire hash t t' k m st = Some (st', b) \<Longrightarrow> m < 0 \<Longrightarrow> storage_reach hash n st'"
    "storage_expire hash t t' k m st = Some (st', b) \<Longrightarrow> time_add_seconds t' m = Some d \<Longrightarrow> storage_reach hash n st'"
    "storage_ttl hash t t' k st = Some (st', i) \<Longrightarrow> clock_ok t \<Longrightarrow> clock_ok t' \<Longrightarrow> storage_reach hash n st'"
  using reach_op [OF assms, of "OpSet k v" st'] reach_op [OF assms, of "OpGet t k" st']
    reach_op [OF assms, of "OpDel t k" st'] reach_op [OF assms, of "OpExpire t t' k m" st']
    reach_op [OF assms, of "OpTtl t t' k" st']
  by (simp_all add: storage_enabled_def exec_op_def with_result_def)

lemma dispatch_reach:
  assumes "storage_reach hash n (storage s)" and "cmd_fits now cmd (disp s)"
    and "dispatch hash now cmd s = Some (s', r)"
  shows "storage_reach hash n (storage s')"
proof (cases "cmd_type cmd")
  case GET
  with assms(3) obtain x where "args cmd \<noteq> [] \<Longrightarrow>
      storage_get hash (fst now) (args cmd ! 0) (storage s) = Some (storage s', x)"
    "args cmd = [] \<Longrightarrow> storage s' = storage s"
    by (auto simp: dispatch_def Let_def split: if_splits Option.bind_splits option.splits)
  with assms(1) reach_storage_ops(2) [OF assms(1)] show ?thesis by (cases "args cmd = []") auto
qed (use assms in \<open>auto simp: dispatch_def Let_def cmd_fits_def
    split: if_splits Option.bind_splits sum.splits intro: reach_storage_ops [OF assms(1)]\<close>)

lemma replay_line_reach:
  assumes "storage_reach hash n st" and "line_fits now line"
    and "replay_line hash now line (st, stats) = Some (st', stats')"
  shows "storage_reach hash n st'"
  using assms
  by (cases "cmd_type (parseCommand line)")
    (auto simp: replay_line_def Let_def line_fits_def split: if_splits Option.bind_splits sum.splits
      intro: reach_storage_ops [OF assms(1)])

lemma replay_lines_reach:
  assumes "storage_reach hash n st" and "\<forall>j < length lines. line_fits (clock (i + j)) (lines ! j)"
    and "replay_lines hash clock i lines (st, stats) = Some (st', stats')"
  shows "storage_reach hash n st'"
  using assms
proof (induction lines arbitrary: i st stats)
  case (Cons line lines)
  then obtain st1 stats1 where l: "replay_line hash (clock i) line (st, stats) = Some (st1, stats1)"
    "replay_lines hash clock (Suc i) lines (st1, stats1) = Some (st', stats')"
    by (auto split: option.splits)
  have "storage_reach hash n st1"
    by (rule replay_line_reach [OF Cons.prems(1) _ l(1)]) (use Cons.prems(2) in force)
  moreover have "\<forall>j < length lines. line_fits (clock (Suc i + j)) (lines ! j)"
    using Cons.prems(2) by force
  ultimately show ?case using Cons.IH l(2) by blast
qed simp

text \<open>What the file asks of the clock at the start fits.\<close>

definition startup_fits :: "Startup \<Rightarrow> bool" where
  "startup_fits su = (case su_file su of None \<Rightarrow> True
     | Some bytes \<Rightarrow> \<forall>j < length (getlines bytes). line_fits (su_clock su j) (getlines bytes ! j))"

lemma new_Server_reach:
  assumes "new_Server hash su prt m on = Inr s" and "startup_fits su"
  shows "storage_reach hash DEFAULT_MAX_KEYS (storage (ds s))"
proof -
  let ?st = "new_ShardedStorage DEFAULT_MAX_KEYS"
  from assms(1) obtain w where w: "start_aof hash su on ?st = Inr (storage (ds s), w)"
    by (auto simp: new_Server_def split: sum.splits if_splits prod.splits)
  have "storage_reach hash DEFAULT_MAX_KEYS st"
    if "replay hash (su_clock su) (su_file su) ?st = Some (st, stats)" for st stats
    using that assms(2) replay_lines_reach [OF reach_new, of _ "su_clock su" 0 hash DEFAULT_MAX_KEYS]
    by (auto simp: replay_def startup_fits_def intro: reach_new split: option.splits)
  with w reach_new [of hash DEFAULT_MAX_KEYS] show ?thesis
    by (auto simp: start_aof_def Let_def split: if_splits option.splits sum.splits)
qed

subsection \<open>Runs in a sane environment\<close>

text \<open>The clock readings of a task and the deadline it asks for fit, and the sweep meets the keys of its
  shard in some order.\<close>

definition env_ok :: "(string \<Rightarrow> size_t) \<Rightarrow> server_event \<Rightarrow> Server \<Rightarrow> bool" where
  "env_ok hash e s = (case e of
      EvDispatch i now \<Rightarrow> (\<forall>t. held i s = Some t \<longrightarrow> cmd_fits now (task_cmd t) (disp (ds s)))
    | EvSweep i t order \<Rightarrow> storage_enabled hash (OpSweep i t order) (storage (ds s))
    | _ \<Rightarrow> True)"

definition env_step :: "(string \<Rightarrow> size_t) \<Rightarrow> server_event \<Rightarrow> Server \<Rightarrow> Server option" where
  "env_step hash e s = (if env_ok hash e s then server_step hash e s else None)"

text \<open>The handlers of the \<open>epoll\<close> thread do not touch the storage.\<close>

lemma accept_ds: "acceptConnection rs s = Inr s' \<Longrightarrow> ds s' = ds s"
  by (induction rs s rule: acceptConnection.induct)
    (auto simp: Let_def split: accept_result.splits if_splits sum.splits)

lemma update_ds: "updateEpollEvents rc fd s = Inr s' \<Longrightarrow> ds s' = ds s"
  by (auto simp: updateEpollEvents_def Let_def split: option.splits sum.splits)

lemma deliver_ds: "ds (deliver fd cid bytes s) = ds s"
  by (simp add: deliver_def split: option.splits)

lemma read_ds: "handleRead hash now res rc fd s = Inr s' \<Longrightarrow> ds s' = ds s"
  by (auto simp: handleRead_eq closeConnection_def set_object_def submit_first_def dest!: update_ds
      split: option.splits if_splits prod.splits list.splits)

lemma write_ds: "handleWrite out rc fd s = Inr s' \<Longrightarrow> ds s' = ds s"
  by (auto simp: handleWrite_def Let_def closeConnection_def deliver_ds set_object_def dest!: update_ds
      split: option.splits prod.splits if_splits)

lemma event_ds: "handle_event hash now io fd ev s = Inr s' \<Longrightarrow> ds s' = ds s"
  by (auto simp: handle_event_def closeConnection_def split: if_splits sum.splits
      dest!: accept_ds read_ds write_ds)

lemma send_ds: "ds (task_send out i t bytes s) = ds s"
  by (simp add: task_send_def Let_def deliver_ds set_object_def split: prod.splits)

lemma clear_ds: "task_clear i t s = Some s' \<Longrightarrow> ds s' = ds s"
  by (auto simp: task_clear_def set_object_def)

text \<open>The steps by their effect on the storage: a command, a sweep, none.\<close>

lemma server_step_cases:
  assumes "server_step hash e s = Some s'"
  obtains (command) i now t r where "e = EvDispatch i now" "held i s = Some t" "task_stage t = ToDispatch"
      "dispatch hash now (task_cmd t) (ds s) = Some (ds s', r)"
      "s' = set_task i (t\<lparr>task_stage := to_send r\<rparr>) (s\<lparr>ds := ds s'\<rparr>)"
  | (sweep) i t order where "e = EvSweep i t order"
      "sweep_shard_at i t order (storage (ds s)) = Some (storage (ds s'))"
  | (other) "storage (ds s') = storage (ds s)" "\<forall>i now. e \<noteq> EvDispatch i now"
proof (cases e)
  case (EvEvent now io fd ev)
  with assms have "ds s' = ds s" by (auto simp: server_step_def split: sum.splits dest: event_ds)
  with EvEvent other show ?thesis by simp
next
  case (EvDispatch i now)
  with assms obtain t d r where "held i s = Some t" "task_stage t = ToDispatch"
    "dispatch hash now (task_cmd t) (ds s) = Some (d, r)"
    "s' = set_task i (t\<lparr>task_stage := to_send r\<rparr>) (s\<lparr>ds := d\<rparr>)"
    by (auto simp: server_step_def task_dispatch_def split: if_splits option.splits sum.splits)
  with EvDispatch command show ?thesis by simp
next
  case (EvSweep i t order)
  with assms sweep show ?thesis by (auto simp: server_step_def)
qed (use assms other in \<open>auto simp: server_step_def server_stop_def send_ds
    split: option.splits stage.splits if_splits dest: clear_ds\<close>)

definition run_ok :: "(string \<Rightarrow> size_t) \<Rightarrow> Server \<Rightarrow> bool" where
  "run_ok hash s \<longleftrightarrow> server_ok s \<and> storage_reach hash DEFAULT_MAX_KEYS (storage (ds s))"

interpretation server_runs: event_system "env_step hash" "\<lambda>_. True" "run_ok hash"
  for hash :: "string \<Rightarrow> size_t"
proof (unfold_locales, goal_cases)
  case (1 s e s')
  then have e: "env_ok hash e s" "server_step hash e s = Some s'" by (auto simp: env_step_def split: if_splits)
  have "server_ok s'" by (rule server_sys.inv_step [OF _ _ e(2)]) (use 1 in \<open>simp_all add: run_ok_def\<close>)
  moreover have reach: "storage_reach hash DEFAULT_MAX_KEYS (storage (ds s))" using 1 by (simp add: run_ok_def)
  from e(2) have "storage_reach hash DEFAULT_MAX_KEYS (storage (ds s'))"
  proof (cases rule: server_step_cases)
    case (command i now t r)
    with e(1) dispatch_reach [OF reach] show ?thesis by (simp add: env_ok_def)
  next
    case (sweep i t order)
    with e(1) have "storage_enabled hash (OpSweep i t order) (storage (ds s))" by (simp add: env_ok_def)
    with sweep(2) reach_op [OF reach this] show ?thesis by (simp add: exec_op_def)
  qed (use reach in simp)
  ultimately show ?case by (simp add: run_ok_def)
qed

lemma run_ok_new: "new_Server hash su prt m on = Inr s \<Longrightarrow> startup_fits su \<Longrightarrow> run_ok hash s"
  by (simp add: run_ok_def server_ok_new new_Server_reach)

lemma event_defined: "handle_event hash now io fd ev s \<noteq> Inl UndefinedBehaviour"
proof -
  have acc: "acceptConnection rs s1 \<noteq> Inl UndefinedBehaviour" for rs s1
    by (induction rs s1 rule: acceptConnection.induct)
      (auto simp: Let_def split: accept_result.splits if_splits sum.splits)
  have upd: "updateEpollEvents rc fd s1 \<noteq> Inl UndefinedBehaviour" for rc fd s1
    by (auto simp: updateEpollEvents_def Let_def split: option.splits sum.splits)
  have wr: "handleWrite out rc fd s1 \<noteq> Inl UndefinedBehaviour" for out rc fd s1
    using upd by (auto simp: handleWrite_def Let_def split: option.splits prod.splits)
  have rd: "handleRead hash now res rc fd s \<noteq> Inl UndefinedBehaviour" for res rc
    using upd by (auto simp: handleRead_eq split: option.splits prod.splits)
  show ?thesis using acc wr rd by (auto simp: handle_event_def split: sum.splits if_splits)
qed



subsection \<open>The server refines the protocol\<close>

text \<open>The protocol over time: commands are answered one after the other as \<open>spec_step\<close> allows, and
  between them keys past their deadline may disappear.\<close>

inductive protocol_run ::
  "(string \<Rightarrow> seen_value) \<Rightarrow> (Command \<times> string) list \<Rightarrow> (string \<Rightarrow> seen_value) \<Rightarrow> bool" where
  proto_done: "protocol_run v [] v"
| proto_command: "spec_step now cmd v v1 r \<Longrightarrow> protocol_run v1 tr v2 \<Longrightarrow> protocol_run v ((cmd, r) # tr) v2"
| proto_expiry: "(\<And>k. v1 k = v k \<or> v1 k = None \<and> \<not> live t (v k)) \<Longrightarrow> protocol_run v1 tr v2 \<Longrightarrow>
    protocol_run v tr v2"

text \<open>The commands that a run executes, in order: connection, command and response.\<close>

definition task_outcome :: "(string \<Rightarrow> size_t) \<Rightarrow> server_event \<Rightarrow> Server \<Rightarrow> (nat \<times> Command \<times> string) list" where
  "task_outcome hash e s = (case e of
      EvDispatch i now \<Rightarrow>
        (case held i s of
           Some t \<Rightarrow>
             (case dispatch hash now (task_cmd t) (ds s) of
                Some (d, r) \<Rightarrow> [(task_conn t, task_cmd t, r)]
              | None \<Rightarrow> [])
         | None \<Rightarrow> [])
    | _ \<Rightarrow> [])"

fun executed :: "(string \<Rightarrow> size_t) \<Rightarrow> server_event list \<Rightarrow> Server \<Rightarrow> (nat \<times> Command \<times> string) list" where
  "executed hash [] s = []"
| "executed hash (e # es) s = (case server_step hash e s of
      None \<Rightarrow> []
    | Some s' \<Rightarrow> task_outcome hash e s @ executed hash es s')"

lemma sweep_view:
  assumes "storage_ok hash st" and "storage_enabled hash (OpSweep i t order) st"
    and "sweep_shard_at i t order st = Some st'"
  shows "storage_view hash st' k = storage_view hash st k
    \<or> storage_view hash st' k = None \<and> \<not> live t (storage_view hash st k)"
proof -
  from assms(2) have i: "i < NUM_SHARDS" "pass_ok (False, t, order) (shards st ! i)"
    by (simp_all add: storage_enabled_def pass_ok_def)
  from sweep_shard_at_steps [OF assms(1) i] assms(3) have
    "view (shards st' ! j) = (\<lambda>k. if j = i then sweeps (False, t, order) k (view (shards st ! j) k) else view (shards st ! j) k)"
    if "j < NUM_SHARDS" for j using that by auto
  from this [of "shardIndex hash k"] show ?thesis
    by (auto simp: storage_view_def sweeps_def stale_def shardIndex_less)
qed

lemma env_step_protocol:
  assumes ok: "run_ok hash s" and e: "env_step hash e s = Some s'"
    and rest: "protocol_run (storage_view hash (storage (ds s'))) tr v"
  shows "protocol_run (storage_view hash (storage (ds s))) (map snd (task_outcome hash e s) @ tr) v"
proof -
  from e have env: "env_ok hash e s" and st: "server_step hash e s = Some s'"
    by (auto simp: env_step_def split: if_splits)
  have sok: "storage_ok hash (storage (ds s))" using ok storage_reach_ok by (auto simp: run_ok_def)
  from st show ?thesis
  proof (cases rule: server_step_cases)
    case (command i now t r)
    with env have "cmd_fits now (task_cmd t) (disp (ds s))" by (simp add: env_ok_def)
    from meets_all [OF sok this] command(4)
    have "spec_step now (task_cmd t) (storage_view hash (storage (ds s))) (storage_view hash (storage (ds s'))) r"
      by (auto simp: meets_spec_def)
    from proto_command [OF this rest] command show ?thesis by (simp add: task_outcome_def)
  next
    case (sweep i t order)
    with env have "storage_enabled hash (OpSweep i t order) (storage (ds s))" by (simp add: env_ok_def)
    from proto_expiry [OF sweep_view [OF sok this sweep(2)] rest] sweep(1)
    show ?thesis by (simp add: task_outcome_def)
  next
    case other
    with rest show ?thesis by (simp add: task_outcome_def split: server_event.splits)
  qed
qed



end
