(* ===== verification/Server_Delivery.thy ===== *)
theory Server_Delivery
  imports Server_Runs
begin

text \<open>
  The output of a connection over a whole run of the server: worker threads that dispatch and send in
  pieces (\<open>Server::handleRead\<close>, \<open>Connection::sendResponse\<close>) and the \<open>epoll\<close> thread that flushes what
  the socket did not take (\<open>Server::handleWrite\<close>), interleaved with everything else.
\<close>

subsection \<open>Sent, buffered and in progress\<close>

text \<open>What connection \<open>cid\<close> has sent, what a worker still has to send for it, and what it was answered.\<close>

definition sent_by :: "nat \<Rightarrow> Server \<Rightarrow> string" where
  "sent_by cid s = concat (map (\<lambda>(client, c, bytes). if c = cid then bytes else []) (delivered s))"

definition stage_out :: "nat \<Rightarrow> Task \<Rightarrow> string" where
  "stage_out cid t = (if task_conn t = cid then (case task_stage t of ToSend bytes \<Rightarrow> bytes | _ \<Rightarrow> []) else [])"

definition in_progress :: "nat \<Rightarrow> Task ThreadPool \<Rightarrow> string" where
  "in_progress cid p = concat (map (stage_out cid) (running p))"

definition replies_to :: "nat \<Rightarrow> (nat \<times> Command \<times> string) list \<Rightarrow> string" where
  "replies_to cid tr = concat (map (\<lambda>(c, cmd, r). if c = cid then r else []) tr)"

lemma replies_to_append [simp]: "replies_to cid (tr @ tr') = replies_to cid tr @ replies_to cid tr'"
  by (simp add: replies_to_def)

text \<open>No worker sends while bytes of an earlier response wait in the buffer of the connection.\<close>

definition orderly :: "server_event \<Rightarrow> Server \<Rightarrow> bool" where
  "orderly e s = (case e of
      EvSend i out \<Rightarrow> (\<forall>t. held i s = Some t \<longrightarrow> write_buffer (objects s (task_conn t)) = [])
    | _ \<Rightarrow> True)"

definition orderly_step :: "(string \<Rightarrow> size_t) \<Rightarrow> server_event \<Rightarrow> Server \<Rightarrow> Server option" where
  "orderly_step hash e s = (if orderly e s then server_step hash e s else None)"

definition registered :: "nat \<Rightarrow> Server \<Rightarrow> bool" where
  "registered cid s \<longleftrightarrow> map_of (connections s) (conn_fd (objects s cid)) = Some cid"

text \<open>The running tasks, seen from worker \<open>i\<close>.\<close>

lemma running_at:
  assumes "i < length (workers p)"
  shows "\<exists>A B. running p = A @ running_task (workers p ! i) @ B
    \<and> (\<forall>w. running (p\<lparr>workers := (workers p)[i := w]\<rparr>) = A @ running_task w @ B)"
proof -
  let ?A = "take i (workers p)" and ?B = "drop (Suc i) (workers p)"
  have "workers p = ?A @ workers p ! i # ?B" by (rule id_take_nth_drop [OF assms])
  then have "map running_task (workers p) = map running_task ?A @ running_task (workers p ! i) # map running_task ?B"
    by (metis list.simps(9) map_append)
  then have "running p = concat (map running_task ?A) @ running_task (workers p ! i) @ concat (map running_task ?B)"
    unfolding running_def by (simp only: concat_append concat.simps)
  moreover have "running (p\<lparr>workers := (workers p)[i := w]\<rparr>)
      = concat (map running_task ?A) @ running_task w @ concat (map running_task ?B)" for w
    using assms by (simp add: running_def upd_conv_take_nth_drop)
  ultimately show ?thesis by blast
qed

lemma in_progress_update:
  assumes i: "i < length (workers p)" "workers p ! i = Running t" and one: "flight cid p \<le> 1"
    and w: "\<And>t'. w = Running t' \<Longrightarrow> task_conn t' = task_conn t"
  shows "task_conn t = cid \<Longrightarrow> in_progress cid p = stage_out cid t
      \<and> in_progress cid (p\<lparr>workers := (workers p)[i := w]\<rparr>) = concat (map (stage_out cid) (running_task w))"
    and "task_conn t \<noteq> cid \<Longrightarrow> in_progress cid (p\<lparr>workers := (workers p)[i := w]\<rparr>) = in_progress cid p"
proof -
  obtain A B where r: "running p = A @ [t] @ B"
    "running (p\<lparr>workers := (workers p)[i := w]\<rparr>) = A @ running_task w @ B"
    using running_at [OF i(1)] i(2) by (auto simp: running_task_def)
  show "in_progress cid p = stage_out cid t
      \<and> in_progress cid (p\<lparr>workers := (workers p)[i := w]\<rparr>) = concat (map (stage_out cid) (running_task w))"
    if "task_conn t = cid"
  proof -
    have "filter (\<lambda>t. task_conn t = cid) (A @ B) = []"
      using one that by (auto simp: flight_def in_pool_def r(1))
    then have "concat (map (stage_out cid) A) = []" "concat (map (stage_out cid) B) = []"
      by (auto simp: stage_out_def filter_empty_conv)
    then show ?thesis
      by (simp only: in_progress_def r map_append concat_append list.map concat.simps append_Nil append_Nil2 simp_thms)
  qed
  show "in_progress cid (p\<lparr>workers := (workers p)[i := w]\<rparr>) = in_progress cid p" if "task_conn t \<noteq> cid"
  proof -
    have "\<forall>t'\<in>set (running_task w). task_conn t' = task_conn t"
      using w by (cases w) (simp_all add: running_task_def)
    then have "concat (map (stage_out cid) (running_task w)) = []" "stage_out cid t = []"
      using that by (auto simp: stage_out_def)
    then show ?thesis
      by (simp only: in_progress_def r map_append concat_append list.map concat.simps append_Nil append_Nil2 simp_thms)
  qed
qed

lemma in_progress_held:
  assumes "server_ok s" and "held i s = Some t" and "\<And>t'. w = Running t' \<Longrightarrow> task_conn t' = task_conn t"
  shows "in_progress cid ((pool s)\<lparr>workers := (workers (pool s))[i := w]\<rparr>) =
      (if task_conn t = cid then concat (map (stage_out cid) (running_task w)) else in_progress cid (pool s))"
    and "task_conn t = cid \<Longrightarrow> in_progress cid (pool s) = stage_out cid t"
proof -
  have i: "i < length (workers (pool s))" "workers (pool s) ! i = Running t" using assms(2) by (simp_all add: held_iff)
  have one: "flight cid (pool s) \<le> 1" using server_okD(1) [OF assms(1), of cid] by simp
  note upd = in_progress_update [OF i one, where w = w, OF assms(3)]
  show "in_progress cid ((pool s)\<lparr>workers := (workers (pool s))[i := w]\<rparr>) =
      (if task_conn t = cid then concat (map (stage_out cid) (running_task w)) else in_progress cid (pool s))"
    using upd by (cases "task_conn t = cid") simp_all
  show "in_progress cid (pool s) = stage_out cid t" if "task_conn t = cid" using upd(1) that by blast
qed

lemma in_progress_none:
  assumes "flight cid p = 0"
  shows "in_progress cid p = []"
  using assms by (auto simp: in_progress_def stage_out_def flight_def in_pool_def filter_empty_conv)

lemma in_progress_take:
  assumes "worker_wake i p = Some p'" and "\<forall>t\<in>set (tasks p). task_stage t = ToDispatch"
  shows "in_progress cid p' = in_progress cid p \<and> (\<forall>t\<in>set (tasks p'). task_stage t = ToDispatch)"
proof -
  have i: "i < length (workers p)" "workers p ! i = Idle" using assms(1) by (auto simp: worker_wake_def split: if_splits)
  obtain A B where r: "running p = A @ B" "\<And>w. running (p\<lparr>workers := (workers p)[i := w]\<rparr>) = A @ running_task w @ B"
    using running_at [OF i(1)] i(2) by (auto simp: running_task_def)
  have e: "running (p\<lparr>tasks := ts, workers := ws, started := st\<rparr>) = running (p\<lparr>workers := ws\<rparr>)" for ts ws st
    by (simp add: running_def)
  show ?thesis
    using assms i r by (auto simp: worker_wake_def in_progress_def e running_task_def stage_out_def
        split: if_splits list.splits)
qed

subsection \<open>The invariant\<close>

definition delivery :: "nat \<Rightarrow> string \<Rightarrow> Server \<Rightarrow> bool" where
  "delivery cid reps s \<longleftrightarrow> peers s = connections s
     \<and> (\<forall>t\<in>set (tasks (pool s)). task_stage t = ToDispatch)
     \<and> (\<forall>(client, c, bytes)\<in>set (delivered s). c < next_object s)
     \<and> (next_object s \<le> cid \<longrightarrow> reps = [])
     \<and> (registered cid s \<and> \<not> has_error (objects s cid) \<longrightarrow>
          sent_by cid s @ write_buffer (objects s cid) @ in_progress cid (pool s) = reps)"

text \<open>A connection that is changed in no other way than by a read.\<close>

lemma delivery_set_object:
  assumes "delivery cid reps s" and "conn_fd c = conn_fd (objects s cid')"
    and "write_buffer c = write_buffer (objects s cid')" and "has_error (objects s cid') \<Longrightarrow> has_error c"
  shows "delivery cid reps (set_object cid' c s)"
  using assms by (auto simp: delivery_def set_object_def registered_def sent_by_def)

lemma delivery_close:
  assumes "delivery cid reps s"
  shows "delivery cid reps (closeConnection fd s)"
  using assms by (auto simp: delivery_def closeConnection_def registered_def sent_by_def AList.delete_conv split: if_splits)

lemma delivery_update:
  "delivery cid reps s \<Longrightarrow> updateEpollEvents rc fd s = Inr s' \<Longrightarrow> delivery cid reps s'"
  by (auto simp: delivery_def updateEpollEvents_def Let_def registered_def sent_by_def split: option.splits sum.splits)

lemma delivery_submit:
  "delivery cid reps s \<Longrightarrow> task_stage t = ToDispatch \<Longrightarrow> delivery cid reps (s\<lparr>pool := submit t (pool s)\<rparr>)"
  by (auto simp: delivery_def submit_def registered_def sent_by_def in_progress_def running_def)

lemma sent_by_none:
  "\<forall>(client, c, bytes)\<in>set (delivered s). c < next_object s \<Longrightarrow> next_object s \<le> cid \<Longrightarrow> sent_by cid s = []"
  by (auto simp: sent_by_def)

lemma delivery_accept:
  "delivery cid reps s \<Longrightarrow> server_ok s \<Longrightarrow> acceptConnection rs s = Inr s' \<Longrightarrow> delivery cid reps s'"
proof (induction rs s rule: acceptConnection.induct)
  case (2 r rs s)
  show ?case
  proof (cases r)
    case (Accepted fd getfl setfl rc)
    let ?cid = "next_object s"
    let ?s1 = "s\<lparr>connections := AList.update fd ?cid (connections s),
        objects := (objects s)(?cid := new_Connection fd), next_object := Suc ?cid,
        peers := AList.update fd ?cid (peers s)\<rparr>"
    from 2 Accepted obtain l where l: "setNonBlocking getfl setfl" "addFd rc fd EPOLLIN (loop ?s1) = Inr l"
      "acceptConnection rs (?s1\<lparr>loop := l\<rparr>) = Inr s'"
      by (auto simp: Let_def split: if_splits sum.splits)
    have ok: "server_ok (?s1\<lparr>loop := l\<rparr>)"
      by (rule server_ok_accept [of s "[r]"]) (use 2(3) Accepted l(1,2) in \<open>simp_all add: Let_def\<close>)
    have "flight cid (pool s) = 0" if "?cid \<le> cid" using server_okD(1,2) [OF 2(3), of cid] that by simp
    then have new: "in_progress cid (pool s) = []" "sent_by cid s = []" "reps = []" if "?cid \<le> cid"
      using that 2(2) by (simp_all add: in_progress_none sent_by_none delivery_def)
    have "delivery cid reps (?s1\<lparr>loop := l\<rparr>)"
    proof (cases "cid = ?cid")
      case True
      with 2(2) new show ?thesis
        by (auto simp: delivery_def sent_by_def new_Connection_def)
    next
      case False
      with 2(2) show ?thesis
        by (auto simp: delivery_def sent_by_def registered_def AList.update_conv split: if_splits)
    qed
    with 2(1) [OF Accepted _ refl refl l(2)] ok l Accepted show ?thesis by simp
  qed (use 2 in simp_all)
qed simp

lemma delivery_read:
  assumes d: "delivery cid reps s" and "handleRead hash now res rc fd s = Inr s'"
  shows "delivery cid reps s'"
proof -
  have obj: "delivery cid reps (set_object cid' c s)" if "readAndParse res (objects s cid') = (c, cmds)" for cid' c cmds
    by (rule delivery_set_object [OF d])
      (use that in \<open>auto simp: readAndParse_def split: recv_result.splits prod.splits\<close>)
  have sub: "delivery cid reps (submit_first cid' c cmds s)" if "readAndParse res (objects s cid') = (c, cmds)" for cid' c cmds
  proof (cases cmds)
    case Nil
    then show ?thesis using obj [OF that] by (simp add: submit_first_def)
  next
    case (Cons cmd rest)
    have "delivery cid reps (s\<lparr>pool := submit (new_Task cid' (parseCommand cmd)) (pool s)\<rparr>)"
      by (rule delivery_submit [OF d]) simp
    then show ?thesis unfolding submit_first_def Cons list.case
      by (rule delivery_set_object)
        (use that in \<open>auto simp: readAndParse_def split: recv_result.splits prod.splits\<close>)
  qed
  show ?thesis
    using assms
    by (auto simp: handleRead_eq split: option.splits if_splits prod.splits
        intro!: delivery_close obj dest: delivery_update [OF sub])
qed

text \<open>Bytes that a connection sends are taken from the front of what it still has to send.\<close>

lemma delivery_output:
  assumes d: "delivery cid reps s" and cid': "cid' < next_object s" and p': "p' = pool s \<or> cid' = cid \<or> in_progress cid p' = in_progress cid (pool s)"
    and ts: "tasks p' = tasks (pool s)"
    and c: "conn_fd c = conn_fd (objects s cid')" "has_error (objects s cid') \<Longrightarrow> has_error c"
    and out: "cid' = cid \<Longrightarrow> \<not> has_error c \<Longrightarrow>
      sent @ write_buffer c @ in_progress cid p' = write_buffer (objects s cid) @ in_progress cid (pool s)"
  shows "delivery cid reps (deliver (conn_fd c) cid' sent (set_object cid' c (s\<lparr>pool := p'\<rparr>)))"
proof -
  let ?s1 = "set_object cid' c (s\<lparr>pool := p'\<rparr>)"
  let ?s = "deliver (conn_fd c) cid' sent ?s1"
  have sel: "peers ?s = peers s" "connections ?s = connections s" "objects ?s = (objects s)(cid' := c)"
    "pool ?s = p'" "next_object ?s = next_object s" "set (delivered ?s) \<subseteq> set (delivered s) \<union> {(x, cid', y) | x y. True}"
    by (auto simp: deliver_def set_object_def split: option.splits)
  have reg: "registered cid ?s \<longleftrightarrow> registered cid s" unfolding registered_def sel using c(1) by simp
  have sent: "sent_by cid ?s = sent_by cid s @ (if cid' = cid then sent else [])" if "registered cid s"
    using that d c(1) by (auto simp: delivery_def registered_def deliver_def set_object_def sent_by_def split: option.splits)
  have "sent_by cid ?s @ write_buffer (((objects s)(cid' := c)) cid) @ in_progress cid p' = reps"
    if r: "registered cid s" and e: "\<not> has_error (((objects s)(cid' := c)) cid)"
  proof (cases "cid' = cid")
    case True
    with e c(2) have "\<not> has_error (objects s cid)" by auto
    with d r True out e show ?thesis unfolding sent [OF r] by (simp add: delivery_def)
  next
    case False
    with d r e p' show ?thesis unfolding sent [OF r] by (auto simp: delivery_def)
  qed
  moreover have "\<forall>(client, x, bytes)\<in>set (delivered ?s). x < next_object s"
    using d sel(6) cid' unfolding delivery_def by blast
  ultimately show ?thesis using d unfolding delivery_def sel(1-5) reg ts by blast
qed

lemma delivery_write:
  assumes d: "delivery cid reps s" and ok: "server_ok s" and "handleWrite out rc fd s = Inr s'"
  shows "delivery cid reps s'"
proof (cases "map_of (connections s) fd")
  case (Some cid')
  obtain c b sent where f: "flushWriteBuffer out (objects s cid') = (c, b, sent)"
    by (cases "flushWriteBuffer out (objects s cid')") auto
  note own = server_okD(3) [OF ok Some]
  have "delivery cid reps (deliver (conn_fd c) cid' sent (set_object cid' c (s\<lparr>pool := pool s\<rparr>)))"
    by (rule delivery_output [OF d])
      (use own f flush_keeps [OF f] flush_conserves [of "objects s cid'" out] in
        \<open>auto simp: flushWriteBuffer_def Let_def split: send_result.splits if_splits\<close>)
  then have "delivery cid reps (deliver fd cid' sent (set_object cid' c s))"
    using own flush_keeps [OF f] by simp
  with assms(3) Some f show ?thesis
    by (auto simp: handleWrite_def Let_def split: if_splits intro: delivery_close delivery_update)
qed (use assms in \<open>simp add: handleWrite_def\<close>)

lemma delivery_event:
  assumes "delivery cid reps s" and "server_ok s" and "handle_event hash now io fd ev s = Inr s'"
  shows "delivery cid reps s'"
  using assms
  by (auto simp: handle_event_def split: if_splits sum.splits
      intro: delivery_close dest: delivery_accept delivery_read delivery_write server_ok_read)

lemma set_task_pool:
  "set_task i t s = s\<lparr>pool := (pool s)\<lparr>workers := (workers (pool s))[i := Running t]\<rparr>\<rparr>"
  by (simp add: set_task_def)

lemma delivery_send:
  assumes d: "delivery cid reps s" and ok: "server_ok s" and h: "held i s = Some t" and st: "task_stage t = ToSend bytes"
    and empty: "write_buffer (objects s (task_conn t)) = []"
  shows "delivery cid reps (task_send out i t bytes s)"
proof -
  let ?cid = "task_conn t"
  obtain c left sent where o: "send_step out bytes (objects s ?cid) = (c, left, sent)"
    by (cases "send_step out bytes (objects s ?cid)")
  let ?t = "t\<lparr>task_stage := case left of None \<Rightarrow> ToClear | Some rest \<Rightarrow> to_send rest\<rparr>"
  let ?p = "(pool s)\<lparr>workers := (workers (pool s))[i := Running ?t]\<rparr>"
  note upd = in_progress_held [OF ok h, where w = "Running ?t" and cid = cid]
  have "delivery cid reps (deliver (conn_fd c) ?cid sent (set_object ?cid c (s\<lparr>pool := ?p\<rparr>)))"
  proof (rule delivery_output [OF d held_object [OF ok h]])
    show "?p = pool s \<or> ?cid = cid \<or> in_progress cid ?p = in_progress cid (pool s)" using upd(1) by auto
    show "conn_fd c = conn_fd (objects s ?cid)" "has_error (objects s ?cid) \<Longrightarrow> has_error c"
      using o by (auto simp: send_step_def split: send_result.splits)
    show "sent @ write_buffer c @ in_progress cid ?p = write_buffer (objects s cid) @ in_progress cid (pool s)"
      if "?cid = cid" "\<not> has_error c"
    proof -
      from upd that(1) have "in_progress cid (pool s) = bytes" "in_progress cid ?p = stage_out cid ?t"
        using st by (simp_all add: stage_out_def running_task_def)
      then show ?thesis using o that empty
        by (auto simp: send_step_def stage_out_def to_send_def split: send_result.splits)
    qed
  qed simp
  then show ?thesis by (simp add: task_send_def Let_def o set_task_pool)
qed

lemma delivery_dispatch:
  assumes d: "delivery cid reps s" and ok: "server_ok s" and h: "held i s = Some t" and st: "task_stage t = ToDispatch"
  shows "delivery cid (reps @ (if task_conn t = cid then r else []))
    (set_task i (t\<lparr>task_stage := to_send r\<rparr>) (s\<lparr>ds := d'\<rparr>))"
proof -
  let ?t = "t\<lparr>task_stage := to_send r\<rparr>"
  let ?p = "(pool s)\<lparr>workers := (workers (pool s))[i := Running ?t]\<rparr>"
  have "in_progress cid ?p = in_progress cid (pool s) @ (if task_conn t = cid then r else [])"
    using in_progress_held [OF ok h, where w = "Running ?t" and cid = cid] st
    by (auto simp: stage_out_def running_task_def to_send_def)
  then show ?thesis
    using d held_object [OF ok h] by (auto simp: delivery_def set_task_pool registered_def sent_by_def)
qed

lemma delivery_clear:
  assumes d: "delivery cid reps s" and ok: "server_ok s" and h: "held i s = Some t" and st: "task_stage t = ToClear"
    and c: "task_clear i t s = Some s'"
  shows "delivery cid reps s'"
proof -
  let ?p = "(pool s)\<lparr>workers := (workers (pool s))[i := Idle]\<rparr>"
  have "in_progress cid ?p = in_progress cid (pool s)"
    using in_progress_held [OF ok h, where w = Idle and cid = cid] st
    by (cases "task_conn t = cid") (auto simp: stage_out_def running_task_def)
  then have "delivery cid reps (s\<lparr>pool := ?p\<rparr>)" using d by (simp add: delivery_def registered_def sent_by_def)
  then have "delivery cid reps (set_object (task_conn t) (clearInFlight (objects s (task_conn t))) (s\<lparr>pool := ?p\<rparr>))"
    by (rule delivery_set_object) (simp_all add: clearInFlight_def)
  with c h show ?thesis by (auto simp: task_clear_def worker_done_def held_iff)
qed

lemma delivery_step:
  assumes d: "delivery cid reps s" and ok: "server_ok s" and e: "orderly_step hash e s = Some s'"
  shows "delivery cid (reps @ replies_to cid (task_outcome hash e s)) s'"
proof -
  have o: "orderly e s" and st: "server_step hash e s = Some s'"
    using e by (auto simp: orderly_step_def split: if_splits)
  show ?thesis
  proof (cases e)
    case (EvDispatch i now)
    from st EvDispatch show ?thesis
    proof (cases rule: server_step_cases)
      case (command i' now' t r)
      with EvDispatch delivery_dispatch [OF d ok command(2,3), of r "ds s'"] show ?thesis
        by (simp add: task_outcome_def replies_to_def)
    qed simp_all
  next
    case (EvSend i out)
    with st o d ok show ?thesis
      by (auto simp: server_step_def orderly_def task_outcome_def replies_to_def
          split: option.splits stage.splits intro!: delivery_send)
  next
    case (EvClear i)
    with st d ok show ?thesis
      by (auto simp: server_step_def task_outcome_def replies_to_def split: option.splits if_splits intro: delivery_clear)
  next
    case (EvEvent now io fd ev)
    with st d ok show ?thesis
      by (auto simp: server_step_def task_outcome_def replies_to_def split: sum.splits intro: delivery_event)
  next
    case (EvTake i)
    with st d in_progress_take [of i "pool s"] show ?thesis
      by (auto simp: server_step_def task_outcome_def replies_to_def delivery_def registered_def sent_by_def)
  qed (use st d in \<open>auto simp: server_step_def server_stop_def task_outcome_def replies_to_def delivery_def registered_def
      sent_by_def split: option.splits\<close>)
qed

lemma delivery_run:
  assumes "delivery cid reps s" and "server_ok s" and "run (orderly_step hash) es s = Some s'"
  shows "delivery cid (reps @ replies_to cid (executed hash es s)) s'"
  using assms
proof (induction es arbitrary: s reps)
  case (Cons e es)
  then obtain s1 where s1: "orderly_step hash e s = Some s1" "run (orderly_step hash) es s1 = Some s'"
    by (auto split: option.splits)
  then have st: "server_step hash e s = Some s1" by (auto simp: orderly_step_def split: if_splits)
  have "server_ok s1" by (rule server_sys.inv_step [OF Cons.prems(2) _ st]) simp
  from Cons.IH [OF delivery_step [OF Cons.prems(1,2) s1(1)] this s1(2)] st show ?case by simp
qed (simp add: replies_to_def)

lemma delivery_new: "new_Server hash su prt n on = Inr s \<Longrightarrow> delivery cid [] s"
  by (auto simp: new_Server_def delivery_def registered_def new_ThreadPool_def split: sum.splits if_splits prod.splits)

text \<open>C11. Responses in order, over whole runs. As long as no worker sends while bytes of an earlier response wait in
  the buffer of the connection, in every state a server reaches, in whatever order its threads take
  their steps and however the sockets cut the sends: for a connection that is open and has met
  no error, what it has sent, followed by its buffer and by what a worker still has to send for it, is
  exactly the responses to its commands, in the order in which they were executed.\<close>

theorem server_delivers_in_order:
  assumes "new_Server hash su prt n on = Inr s0" and "run (orderly_step hash) es s0 = Some s"
    and "map_of (connections s) fd = Some cid" and "\<not> has_error (objects s cid)"
  shows "sent_by cid s @ write_buffer (objects s cid) @ in_progress cid (pool s) = replies_to cid (executed hash es s0)"
proof -
  have run: "run (server_step hash) es s1 = Some s" if "run (orderly_step hash) es s1 = Some s" for s1
    using that by (induction es arbitrary: s1) (auto simp: orderly_step_def split: option.splits if_splits)
  have "server_ok s" by (rule server_sys.inv_run [OF server_ok_new [OF assms(1)] _ run [OF assms(2)]]) simp
  then have "registered cid s" using server_okD(3) [OF _ assms(3)] assms(3) by (simp add: registered_def)
  with delivery_run [OF delivery_new [OF assms(1)] server_ok_new [OF assms(1)] assms(2), of cid] assms(4)
  show ?thesis by (simp add: delivery_def)
qed

theorem server_delivers_in_order_witness:
  "\<exists>s. run (orderly_step (\<lambda>_. 0)) [demo_accept 5, demo_ping 5, EvTake 0, EvDispatch 0 (3, 3), EvSend 0 (Sent 2),
        EvSend 0 SendWouldBlock, EvClear 0] demo_server = Some s
    \<and> sent_by 0 s = ''+P'' \<and> sent_by 0 s @ write_buffer (objects s 0) @ in_progress 0 (pool s) = pongResponse"
proof -
  let ?es = "[demo_accept 5, demo_ping 5, EvTake 0, EvDispatch 0 (3, 3), EvSend 0 (Sent 2), EvSend 0 SendWouldBlock, EvClear 0]"
  have "\<exists>s. run (orderly_step (\<lambda>_. 0)) ?es demo_server = Some s \<and> map_of (connections s) 5 = Some 0
      \<and> \<not> has_error (objects s 0) \<and> sent_by 0 s = ''+P''"
    by (simp add: orderly_step_def orderly_def demo_simps sent_by_def, simp add: new_Connection_def)
  then obtain s where s: "run (orderly_step (\<lambda>_. 0)) ?es demo_server = Some s" "map_of (connections s) 5 = Some 0"
    "\<not> has_error (objects s 0)" "sent_by 0 s = ''+P''" by blast
  have "replies_to 0 (executed (\<lambda>_. 0) ?es demo_server) = pongResponse"
    by (simp add: task_outcome_def demo_simps replies_to_def)
  with server_delivers_in_order [OF demo_new s(1-3)] s(1,4) show ?thesis by auto
qed

subsection \<open>Tasks come to an end\<close>

lemma sends_end:
  assumes "held i s = Some t" and "task_stage t = ToSend bytes" and "length bytes \<le> length outs" and "Sent 0 \<notin> set outs"
    and "bytes \<noteq> []"
  shows "\<exists>k\<le>length bytes. \<exists>s'. run (server_step hash) (map (EvSend i) (take k outs)) s = Some s'
    \<and> held i s' = Some (t\<lparr>task_stage := ToClear\<rparr>)"
  using assms
proof (induction outs arbitrary: s t bytes)
  case (Cons out outs)
  let ?s1 = "task_send out i t bytes s"
  have step: "server_step hash (EvSend i out) s = Some ?s1" using Cons.prems(1,2) by (simp add: server_step_def)
  obtain c left sent where o: "send_step out bytes (objects s (task_conn t)) = (c, left, sent)"
    by (cases "send_step out bytes (objects s (task_conn t))")
  let ?t = "t\<lparr>task_stage := case left of None \<Rightarrow> ToClear | Some rest \<Rightarrow> to_send rest\<rparr>"
  have h: "held i ?s1 = Some ?t"
    using Cons.prems(1) by (auto simp: task_send_def Let_def o deliver_def set_object_def set_task_def held_def split: option.splits if_splits)
  show ?case
  proof (cases "left = None \<or> left = Some []")
    case True
    with h step Cons.prems(5) show ?thesis
      by (intro exI [of _ 1] conjI exI [of _ ?s1]) (auto simp: to_send_def Suc_le_eq)
  next
    case False
    then obtain m where m: "out = Sent m" "left = Some (drop m bytes)" "drop m bytes \<noteq> []"
      using o by (auto simp: send_step_def split: send_result.splits)
    with Cons.prems(4) have "0 < m" by (cases m) auto
    with Cons.prems(3,5) have le: "length (drop m bytes) \<le> length outs" "Suc (length (drop m bytes)) \<le> length bytes"
      by (cases bytes; simp)+
    have "task_stage ?t = ToSend (drop m bytes)" using m by (simp add: to_send_def)
    from Cons.IH [OF h this le(1) _ m(3)] Cons.prems(4) obtain k s' where
      k: "k \<le> length (drop m bytes)" "run (server_step hash) (map (EvSend i) (take k outs)) ?s1 = Some s'"
        "held i s' = Some (t\<lparr>task_stage := ToClear\<rparr>)" by auto
    with step le(2) show ?thesis by (intro exI [of _ "Suc k"]) auto
  qed
qed simp

lemma sends_ds: "run (server_step hash) (map (EvSend i) outs) s = Some s' \<Longrightarrow> ds s' = ds s"
  by (induction outs arbitrary: s) (auto simp: server_step_def send_ds split: option.splits stage.splits)

lemma clear_ends:
  assumes "held i s = Some t" and "task_stage t = ToClear"
  shows "\<exists>s'. server_step hash (EvClear i) s = Some s' \<and> ds s' = ds s \<and> workers (pool s') ! i = Idle
    \<and> \<not> conn_in_flight (objects s' (task_conn t))"
proof -
  have "i < length (workers (pool s))" "workers (pool s) ! i = Running t" using assms(1) by (simp_all add: held_iff)
  with assms show ?thesis
    by (simp add: server_step_def task_clear_def worker_done_def set_object_def clearInFlight_def)
qed

text \<open>C12. Tasks end. A worker that has taken a command finishes it by its own steps alone, however the calls of
  \<open>send\<close> answer as long as a successful one takes at least a byte: it makes at most as many calls as
  the response has bytes, is idle again, and the connection is free for its next command.\<close>

theorem task_completes:
  assumes "storage_ok hash (storage (ds s))" and "held i s = Some t" and "task_stage t = ToDispatch"
    and "cmd_fits now (task_cmd t) (disp (ds s))" and "Sent 0 \<notin> set outs"
  shows "\<exists>d response. dispatch hash now (task_cmd t) (ds s) = Some (d, response)
    \<and> (length response \<le> length outs \<longrightarrow> (\<exists>k\<le>length response. \<exists>s'.
        run (server_step hash) (EvDispatch i now # map (EvSend i) (take k outs) @ [EvClear i]) s = Some s'
        \<and> ds s' = d \<and> workers (pool s') ! i = Idle \<and> \<not> conn_in_flight (objects s' (task_conn t))))"
proof -
  from meets_all [OF assms(1,4)] obtain d r where dr: "dispatch hash now (task_cmd t) (ds s) = Some (d, r)"
    by (auto simp: meets_spec_def)
  let ?t = "t\<lparr>task_stage := to_send r\<rparr>"
  let ?s1 = "set_task i ?t (s\<lparr>ds := d\<rparr>)"
  have step: "server_step hash (EvDispatch i now) s = Some ?s1"
    using assms(2,3) dr by (simp add: server_step_def task_dispatch_def)
  have h: "held i ?s1 = Some ?t" using assms(2) by (auto simp: held_def set_task_def split: if_splits)
  have "\<exists>k\<le>length r. \<exists>s2. run (server_step hash) (map (EvSend i) (take k outs)) ?s1 = Some s2
      \<and> held i s2 = Some (t\<lparr>task_stage := ToClear\<rparr>)" if "length r \<le> length outs"
  proof (cases "r = []")
    case True
    with h show ?thesis by (simp add: to_send_def)
  next
    case False
    with sends_end [OF h _ that assms(5) False] show ?thesis by (simp add: to_send_def)
  qed
  moreover have "\<exists>s'. run (server_step hash) (EvDispatch i now # map (EvSend i) (take k outs) @ [EvClear i]) s = Some s'
      \<and> ds s' = d \<and> workers (pool s') ! i = Idle \<and> \<not> conn_in_flight (objects s' (task_conn t))"
    if "run (server_step hash) (map (EvSend i) (take k outs)) ?s1 = Some s2"
      "held i s2 = Some (t\<lparr>task_stage := ToClear\<rparr>)" for k s2
    using clear_ends [OF that(2), of hash] sends_ds [OF that(1)] step that(1) by (auto simp: run_append_Some)
  ultimately show ?thesis using dr by blast
qed

theorem task_completes_witness:
  "\<exists>s k s'. held 0 s = Some (new_Task 0 \<lparr>cmd_type = PING, args = []\<rparr>) \<and> k \<le> 7
    \<and> run (server_step (\<lambda>_. 0)) (EvDispatch 0 (3, 3) # map (EvSend 0) (take k (replicate 7 (Sent 1))) @ [EvClear 0]) s = Some s'
    \<and> workers (pool s') ! 0 = Idle"
proof -
  let ?t = "new_Task 0 \<lparr>cmd_type = PING, args = []\<rparr>"
  have "\<exists>s. run (server_step (\<lambda>_. 0)) [demo_accept 5, demo_ping 5, EvTake 0] demo_server = Some s
      \<and> held 0 s = Some ?t \<and> ds s = ds demo_server"
    by (simp add: demo_simps)
  then obtain s where s: "held 0 s = Some ?t" "ds s = ds demo_server" by blast
  have ok: "storage_ok (\<lambda>_. 0) (storage (ds s))" by (simp add: s(2) demo_server_def storage_ok_new)
  have fits: "cmd_fits (3, 3) (task_cmd ?t) (disp (ds s))"
    by (simp add: s(2) demo_server_def cmd_fits_def clock_ok_def int64_ok_def new_Dispatcher_def)
  have len: "length r \<le> 7" if "dispatch (\<lambda>_. 0) (3, 3) (task_cmd ?t) (ds s) = Some (d, r)" for d r
    using that by (auto simp: dispatch_def Let_def pongResponse_def)
  let ?outs = "replicate 7 (Sent 1)"
  have "task_stage ?t = ToDispatch" "Sent 0 \<notin> set ?outs" by simp_all
  from task_completes [OF ok s(1) this(1) fits this(2)] obtain d r where
    dr: "dispatch (\<lambda>_. 0) (3, 3) (task_cmd ?t) (ds s) = Some (d, r)" and
    ends: "length r \<le> length ?outs \<Longrightarrow> \<exists>k\<le>length r. \<exists>s'.
        run (server_step (\<lambda>_. 0)) (EvDispatch 0 (3, 3) # map (EvSend 0) (take k ?outs) @ [EvClear 0]) s = Some s'
        \<and> ds s' = d \<and> workers (pool s') ! 0 = Idle \<and> \<not> conn_in_flight (objects s' (task_conn ?t))" by blast
  have "length r \<le> length ?outs" using len [OF dr] by simp
  from ends [OF this] obtain k s' where k: "k \<le> length r"
    "run (server_step (\<lambda>_. 0)) (EvDispatch 0 (3, 3) # map (EvSend 0) (take k ?outs) @ [EvClear 0]) s = Some s'"
    "workers (pool s') ! 0 = Idle" by blast
  from k(1) len [OF dr] have "k \<le> 7" by (rule le_trans)
  with s(1) k(2,3) show ?thesis by blast
qed

subsection \<open>A response that does not fit the socket\<close>

text \<open>No event of descriptor \<open>fd\<close> is reported, and the kernel does not give it out again.\<close>

definition silent :: "fd \<Rightarrow> server_event \<Rightarrow> bool" where
  "silent fd e = (case e of EvEvent now io fd' ev \<Rightarrow> fd' \<noteq> fd \<and> fd \<notin> set (accepted_fds e) | _ \<Rightarrow> True)"

text \<open>An idle connection, with its buffer, the events it waits for and what it has sent.\<close>

definition parked :: "fd \<Rightarrow> nat \<Rightarrow> string \<Rightarrow> epoll_events \<Rightarrow> string \<Rightarrow> Server \<Rightarrow> bool" where
  "parked fd cid buf ev out s \<longleftrightarrow> map_of (connections s) fd = Some cid \<and> \<not> conn_in_flight (objects s cid)
     \<and> write_buffer (objects s cid) = buf \<and> map_of (interest (loop s)) fd = Some ev \<and> sent_by cid s = out"

lemma parked_set_object:
  "parked fd cid buf ev out s \<Longrightarrow> cid' \<noteq> cid \<Longrightarrow> parked fd cid buf ev out (set_object cid' c s)"
  by (auto simp: parked_def set_object_def sent_by_def)

lemma parked_deliver:
  "parked fd cid buf ev out s \<Longrightarrow> cid' \<noteq> cid \<Longrightarrow> parked fd cid buf ev out (deliver fd' cid' bytes s)"
  by (auto simp: parked_def deliver_def sent_by_def split: option.splits)

lemma parked_close:
  "parked fd cid buf ev out s \<Longrightarrow> fd' \<noteq> fd \<Longrightarrow> parked fd cid buf ev out (closeConnection fd' s)"
  by (auto simp: parked_def closeConnection_def removeFd_def sent_by_def AList.delete_conv)

lemma parked_update:
  "parked fd cid buf ev out s \<Longrightarrow> fd' \<noteq> fd \<Longrightarrow> updateEpollEvents rc fd' s = Inr s' \<Longrightarrow> parked fd cid buf ev out s'"
  by (auto simp: parked_def updateEpollEvents_def modifyFd_def Let_def sent_by_def AList.update_conv
      split: option.splits sum.splits if_splits)

lemma parked_pool: "parked fd cid buf ev out s \<Longrightarrow> parked fd cid buf ev out (s\<lparr>pool := p\<rparr>)"
  by (simp add: parked_def sent_by_def)

lemma parked_accept:
  "parked fd cid buf ev out s \<Longrightarrow> server_ok s \<Longrightarrow> acceptConnection rs s = Inr s' \<Longrightarrow>
   fd \<notin> set (concat (map accepted_fd rs)) \<Longrightarrow> parked fd cid buf ev out s'"
proof (induction rs s rule: acceptConnection.induct)
  case (2 r rs s)
  show ?case
  proof (cases r)
    case (Accepted fd' getfl setfl rc)
    let ?s1 = "s\<lparr>connections := AList.update fd' (next_object s) (connections s),
        objects := (objects s)(next_object s := new_Connection fd'), next_object := Suc (next_object s),
        peers := AList.update fd' (next_object s) (peers s)\<rparr>"
    from 2 Accepted obtain l where l: "setNonBlocking getfl setfl" "addFd rc fd' EPOLLIN (loop ?s1) = Inr l"
      "acceptConnection rs (?s1\<lparr>loop := l\<rparr>) = Inr s'"
      by (auto simp: Let_def split: if_splits sum.splits)
    have ok: "server_ok (?s1\<lparr>loop := l\<rparr>)"
      by (rule server_ok_accept [of s "[r]"]) (use 2(3) Accepted l(1,2) in \<open>simp_all add: Let_def\<close>)
    have "cid < next_object s" using server_okD(3) [OF 2(3)] 2(2) by (auto simp: parked_def)
    then have "parked fd cid buf ev out (?s1\<lparr>loop := l\<rparr>)"
      using 2(2,5) l(2) Accepted
      by (auto simp: parked_def sent_by_def addFd_def AList.update_conv split: if_splits)
    with 2(1) [OF Accepted _ refl refl l(2)] ok l 2(5) Accepted show ?thesis by simp
  qed (use 2 in simp_all)
qed simp

lemma parked_other:
  assumes "parked fd cid buf ev out s" and "server_ok s"
  shows "map_of (connections s) fd' = Some cid' \<Longrightarrow> fd' \<noteq> fd \<Longrightarrow> cid' \<noteq> cid"
    and "held i s = Some t \<Longrightarrow> task_conn t \<noteq> cid"
proof -
  have c: "map_of (connections s) fd = Some cid" "\<not> conn_in_flight (objects s cid)" using assms(1) by (simp_all add: parked_def)
  show "cid' \<noteq> cid" if "map_of (connections s) fd' = Some cid'" "fd' \<noteq> fd"
    using server_okD(3) [OF assms(2) that(1)] server_okD(3) [OF assms(2) c(1)] that(2) by auto
  show "task_conn t \<noteq> cid" if "held i s = Some t"
    using running_flight [of i "pool s" t] that server_okD(1) [OF assms(2), of cid] c(2) by (auto simp: held_iff)
qed

lemma parked_event:
  assumes p: "parked fd cid buf ev out s" and ok: "server_ok s" and h: "handle_event hash now io fd' e s = Inr s'"
    and ne: "fd' \<noteq> fd" and acc: "fd \<notin> set (concat (map accepted_fd (io_accepts io)))"
  shows "parked fd cid buf ev out s'"
proof -
  have rd: "parked fd cid buf ev out s1" if "handleRead hash now res rc fd' s = Inr s1" for res rc s1
  proof (cases "map_of (connections s) fd'")
    case (Some cid')
    note oth = parked_other(1) [OF p ok Some ne]
    have "parked fd cid buf ev out (submit_first cid' c cmds s)" for c cmds
      unfolding submit_first_def by (cases cmds) (auto intro!: parked_set_object parked_pool p oth)
    with that Some p oth ne show ?thesis
      by (auto simp: handleRead_eq split: if_splits prod.splits intro: parked_update parked_close parked_set_object)
  qed (use that p in \<open>simp add: handleRead_eq\<close>)
  have wr: "parked fd cid buf ev out s2"
    if "parked fd cid buf ev out s1" "server_ok s1" "handleWrite res rc fd' s1 = Inr s2" for res rc s1 s2
  proof (cases "map_of (connections s1) fd'")
    case (Some cid')
    note oth = parked_other(1) [OF that(1,2) Some ne]
    have "parked fd cid buf ev out (deliver fd' cid' sent (set_object cid' c s1))" for c sent
      by (intro parked_deliver parked_set_object that(1) oth)
    with that(3) Some ne show ?thesis
      by (auto simp: handleWrite_def Let_def split: if_splits prod.splits intro: parked_close parked_update [OF _ ne])
  qed (use that in \<open>simp add: handleWrite_def\<close>)
  show ?thesis
    using h p ok acc ne
    by (auto simp: handle_event_def split: if_splits sum.splits intro: parked_close parked_accept rd
        wr [OF rd server_ok_read] wr)
qed

lemma parked_step:
  assumes p: "parked fd cid buf ev out s" and ok: "server_ok s" and st: "server_step hash e s = Some s'" and "silent fd e"
  shows "parked fd cid buf ev out s'"
proof (cases e)
  case (EvEvent now io fd' ev')
  with st assms(4) parked_event [OF p ok] show ?thesis
    by (auto simp: server_step_def silent_def accepted_fds_def split: sum.splits)
next
  case (EvSend i res)
  with st obtain t bytes where t: "held i s = Some t" "s' = task_send res i t bytes s"
    by (auto simp: server_step_def split: option.splits stage.splits)
  show ?thesis
    unfolding t(2) task_send_def Let_def set_task_def
    by (auto split: prod.splits intro!: parked_deliver parked_set_object parked_pool p parked_other(2) [OF p ok t(1)])
next
  case (EvClear i)
  with st obtain t where t: "held i s = Some t" "task_clear i t s = Some s'"
    by (auto simp: server_step_def split: option.splits if_splits)
  then show ?thesis
    by (auto simp: task_clear_def intro!: parked_set_object parked_pool p parked_other(2) [OF p ok t(1)])
next
  case (EvDispatch i now)
  with st p show ?thesis
    by (auto simp: server_step_def task_dispatch_def set_task_pool parked_def sent_by_def split: option.splits if_splits sum.splits)
qed (use st p in \<open>auto simp: server_step_def server_stop_def parked_def sent_by_def split: option.splits\<close>)

lemma parked_run:
  assumes "parked fd cid buf ev out s" and "server_ok s" and "run (server_step hash) es s = Some s'"
    and "\<forall>e\<in>set es. silent fd e"
  shows "parked fd cid buf ev out s'"
  using assms
proof (induction es arbitrary: s)
  case (Cons e es)
  then obtain s1 where s1: "server_step hash e s = Some s1" "run (server_step hash) es s1 = Some s'"
    by (auto split: option.splits)
  have "server_ok s1" by (rule server_sys.inv_step [OF Cons.prems(2) _ s1(1)]) simp
  with Cons.IH parked_step [OF Cons.prems(1,2) s1(1)] s1(2) Cons.prems(4) show ?case by simp
qed simp

text \<open>C33. A blocked response is stranded. When the socket does not take the rest of a response, the worker
  leaves it in the buffer of the connection and does not ask for the event that the socket can be
  written to: whatever the server does afterwards, and for however long, nothing more of the response is
  sent until something else happens on the connection, such as the client sending more.\<close>

theorem blocked_response_stranded:
  assumes "new_Server hash su prt n on = Inr s0" and "run (server_step hash) es0 s0 = Some s"
    and h: "held i s = Some t" "task_stage t = ToSend bytes"
    and c: "map_of (connections s) fd = Some (task_conn t)" "write_buffer (objects s (task_conn t)) = []"
    and ev: "map_of (interest (loop s)) fd = Some EPOLLIN"
    and r: "run (server_step hash) (EvSend i SendWouldBlock # EvClear i # es) s = Some s'" and "\<forall>e\<in>set es. silent fd e"
  shows "write_buffer (objects s' (task_conn t)) = bytes \<and> map_of (interest (loop s')) fd = Some EPOLLIN
    \<and> sent_by (task_conn t) s' = sent_by (task_conn t) s"
proof -
  from r obtain s1 s2 where s12: "server_step hash (EvSend i SendWouldBlock) s = Some s1" "server_step hash (EvClear i) s1 = Some s2"
    "run (server_step hash) es s2 = Some s'" by (auto split: option.splits)
  have ok: "server_ok s" by (rule server_sys.inv_run [OF server_ok_new [OF assms(1)] _ assms(2)]) simp
  have ok1: "server_ok s1" by (rule server_sys.inv_step [OF ok _ s12(1)]) simp
  have ok2: "server_ok s2" by (rule server_sys.inv_step [OF ok1 _ s12(2)]) simp
  have i: "i < length (workers (pool s))" "workers (pool s) ! i = Running t" using h(1) by (simp_all add: held_iff)
  have s1: "s1 = task_send SendWouldBlock i t bytes s" using s12(1) h by (simp add: server_step_def)
  have "parked fd (task_conn t) bytes EPOLLIN (sent_by (task_conn t) s) s2"
    using s12(2) i c ev unfolding s1
    by (auto simp: parked_def server_step_def held_def task_send_def task_clear_def send_step_def set_task_def set_object_def
        deliver_def clearInFlight_def worker_done_def sent_by_def Let_def)
  from parked_run [OF this ok2 s12(3) assms(9)] show ?thesis by (simp add: parked_def)
qed

theorem blocked_response_stranded_witness:
  "\<exists>s'. run (server_step (\<lambda>_. 0)) ([demo_accept 5, demo_ping 5, EvTake 0, EvDispatch 0 (3, 3)] @
        [EvSend 0 SendWouldBlock, EvClear 0, demo_accept 6, demo_ping 6, EvTake 0]) demo_server = Some s'
    \<and> write_buffer (objects s' 0) = pongResponse \<and> map_of (interest (loop s')) 5 = Some EPOLLIN \<and> sent_by 0 s' = []"
proof -
  let ?es = "[demo_accept 6, demo_ping 6, EvTake 0]"
  have "\<exists>s. run (server_step (\<lambda>_. 0)) [demo_accept 5, demo_ping 5, EvTake 0, EvDispatch 0 (3, 3)] demo_server = Some s
      \<and> held 0 s = Some ((new_Task 0 \<lparr>cmd_type = PING, args = []\<rparr>)\<lparr>task_stage := ToSend pongResponse\<rparr>)
      \<and> map_of (connections s) 5 = Some 0 \<and> objects s 0 = (new_Connection 5)\<lparr>conn_in_flight := True\<rparr>
      \<and> map_of (interest (loop s)) 5 = Some EPOLLIN \<and> sent_by 0 s = []
      \<and> (\<exists>s'. run (server_step (\<lambda>_. 0)) (EvSend 0 SendWouldBlock # EvClear 0 # ?es) s = Some s')"
    by (simp add: demo_simps sent_by_def)
  then obtain s s' where s: "run (server_step (\<lambda>_. 0)) [demo_accept 5, demo_ping 5, EvTake 0, EvDispatch 0 (3, 3)] demo_server = Some s"
    "held 0 s = Some ((new_Task 0 \<lparr>cmd_type = PING, args = []\<rparr>)\<lparr>task_stage := ToSend pongResponse\<rparr>)"
    "map_of (connections s) 5 = Some 0" "objects s 0 = (new_Connection 5)\<lparr>conn_in_flight := True\<rparr>"
    "map_of (interest (loop s)) 5 = Some EPOLLIN" "sent_by 0 s = []"
    "run (server_step (\<lambda>_. 0)) (EvSend 0 SendWouldBlock # EvClear 0 # ?es) s = Some s'" by blast
  have sil: "\<forall>e\<in>set ?es. silent 5 e" by (simp add: silent_def demo_accept_def demo_ping_def quiet_def accepted_fds_def)
  from blocked_response_stranded [OF demo_new s(1,2) _ _ _ s(5,7) sil] s(3,4,6)
  have "write_buffer (objects s' 0) = pongResponse \<and> map_of (interest (loop s')) 5 = Some EPOLLIN \<and> sent_by 0 s' = []"
    by (simp add: new_Connection_def)
  with s(1,7) show ?thesis unfolding run_append_Some by blast
qed

end
