(* ===== verification/Server_Main.thy ===== *)
theory Server_Main
  imports Server
begin

text \<open>
  The server program, \<open>src/server/main.cpp\<close>: the command line, the signal handler and \<open>main\<close>.
  What the texts on the console say is left out; the ways out of the argument loop are the
  constructors of \<open>arg_exit\<close>. The argument list is the one after the program name.
\<close>

subsection \<open>The command line\<close>

datatype arg_exit = PortRange | PortInvalid | ThreadRange | ThreadInvalid | HelpShown

definition exit_status :: "arg_exit \<Rightarrow> int" where
  "exit_status e = (if e = HelpShown then 0 else 1)"

record Options =
  opt_port :: "16 word"
  opt_threads :: size_t
  opt_aof :: bool
  opt_path :: string

definition default_options :: Options where
  "default_options = \<lparr>opt_port = 6380, opt_threads = 0, opt_aof = True, opt_path = ''./cache.aof''\<rparr>"

definition parse_port :: "string \<Rightarrow> arg_exit + 16 word" where
  "parse_port a = (case stoi a of
      Inl _ \<Rightarrow> Inl PortInvalid
    | Inr p \<Rightarrow> if p < 1 \<or> p > 65535 then Inl PortRange else Inr (word_of_int p))"

definition parse_threads :: "string \<Rightarrow> arg_exit + size_t" where
  "parse_threads a = (case stoi a of
      Inl _ \<Rightarrow> Inl ThreadInvalid
    | Inr t \<Rightarrow> if t \<le> 0 then Inl ThreadRange else Inr (word_of_int t))"

definition dashed :: "string \<Rightarrow> bool" where
  "dashed a = (case a of [] \<Rightarrow> False | c # _ \<Rightarrow> c = CHR ''-'')"

definition flag :: "string list \<Rightarrow> string \<Rightarrow> bool" where
  "flag names a \<longleftrightarrow> a \<in> set names"

text \<open>One pass of the argument loop at argument \<open>a\<close>, with \<open>rest\<close> after it, a branch per test of the
  chain: the arguments left for the next pass and the options. An option without its value is
  the last argument; it changes nothing.\<close>

definition parse_arg :: "string \<Rightarrow> string list \<Rightarrow> Options \<Rightarrow> arg_exit + string list \<times> Options" where
  "parse_arg a rest opts =
     (if flag [''-p'', ''--port''] a then
        (case rest of [] \<Rightarrow> Inr (rest, opts)
         | v # rest' \<Rightarrow>
             (case parse_port v of Inl e \<Rightarrow> Inl e | Inr p \<Rightarrow> Inr (rest', opts\<lparr>opt_port := p\<rparr>)))
      else if flag [''-t'', ''--threads''] a then
        (case rest of [] \<Rightarrow> Inr (rest, opts)
         | v # rest' \<Rightarrow>
             (case parse_threads v of Inl e \<Rightarrow> Inl e | Inr t \<Rightarrow> Inr (rest', opts\<lparr>opt_threads := t\<rparr>)))
      else if flag [''--aof-enabled''] a then
        (case rest of [] \<Rightarrow> Inr (rest, opts)
         | v # rest' \<Rightarrow> Inr (rest', opts\<lparr>opt_aof := flag [''true'', ''1''] v\<rparr>))
      else if flag [''--aof-path''] a then
        (case rest of [] \<Rightarrow> Inr (rest, opts) | v # rest' \<Rightarrow> Inr (rest', opts\<lparr>opt_path := v\<rparr>))
      else if flag [''-h'', ''--help''] a then Inl HelpShown
      else if \<not> dashed a then
        (case parse_port a of Inl e \<Rightarrow> Inl e
         | Inr p \<Rightarrow>
             (case rest of [] \<Rightarrow> Inr (rest, opts\<lparr>opt_port := p\<rparr>)
              | v # rest' \<Rightarrow>
                  if dashed v then Inr (rest, opts\<lparr>opt_port := p\<rparr>)
                  else (case parse_threads v of Inl e \<Rightarrow> Inl e
                        | Inr t \<Rightarrow> Inr (rest', opts\<lparr>opt_port := p, opt_threads := t\<rparr>))))
      else Inr (rest, opts))"

lemma parse_arg_shrinks: "parse_arg a rest opts = Inr (rest', opts') \<Longrightarrow> length rest' \<le> length rest"
  by (auto simp: parse_arg_def split: if_splits list.splits sum.splits)

function parse_args :: "string list \<Rightarrow> Options \<Rightarrow> arg_exit + Options" where
  "parse_args [] opts = Inr opts"
| "parse_args (a # rest) opts = (case parse_arg a rest opts of
      Inl e \<Rightarrow> Inl e
    | Inr (rest', opts') \<Rightarrow> parse_args rest' opts')"
  by pat_completeness auto
termination
  by (relation "measure (length \<circ> fst)") (auto simp: le_imp_less_Suc dest: parse_arg_shrinks)

subsection \<open>The program\<close>

text \<open>\<open>g_server\<close> is set when the server has been constructed.\<close>

definition signalHandler :: "Server option \<Rightarrow> Server option" where
  "signalHandler g_server = map_option server_stop g_server"

datatype main_result = ExitStatus int | StillRunning | Undefined

text \<open>\<open>env\<close> is what the constructor meets for a given log path, \<open>rounds\<close> what \<open>run\<close> meets.\<close>

definition server_main ::
  "(string \<Rightarrow> size_t) \<Rightarrow> (string \<Rightarrow> Startup) \<Rightarrow> string list
    \<Rightarrow> (bool \<times> (clock2 \<times> Io \<times> fd \<times> epoll_events) list) list \<Rightarrow> main_result" where
  "server_main hash env argv rounds = (case parse_args argv default_options of
      Inl e \<Rightarrow> ExitStatus (exit_status e)
    | Inr opts \<Rightarrow>
        (case new_Server hash (env (opt_path opts)) (unat (opt_port opts)) (unat (opt_threads opts)) (opt_aof opts) of
           Inl e \<Rightarrow> if e = UndefinedBehaviour then Undefined else ExitStatus 1
         | Inr s \<Rightarrow>
             (case server_run hash rounds s of
                Inl e \<Rightarrow> if e = UndefinedBehaviour then Undefined else ExitStatus 1
              | Inr s' \<Rightarrow> if running_flag s' then StillRunning else ExitStatus 0)))"

subsection \<open>What the command line can say\<close>

definition options_ok :: "Options \<Rightarrow> bool" where
  "options_ok opts \<longleftrightarrow> opt_port opts \<noteq> 0 \<and> unat (opt_threads opts) < 2 ^ 31"

lemma stoi_range: "stoi a = Inr v \<Longrightarrow> int32_ok v"
  by (auto simp: stoi_def split: option.splits if_splits)

lemma parse_port_ok: "parse_port a = Inr p \<Longrightarrow> p \<noteq> 0"
proof -
  have "word_of_int v \<noteq> (0 :: 16 word)" if "1 \<le> v" "v \<le> 65535" for v :: int
  proof -
    have "uint (word_of_int v :: 16 word) = v" using that by (simp add: uint_word_of_int)
    then show ?thesis using that by auto
  qed
  then show "parse_port a = Inr p \<Longrightarrow> p \<noteq> 0"
    by (auto simp: parse_port_def split: sum.splits if_splits)
qed

lemma parse_threads_ok: "parse_threads a = Inr t \<Longrightarrow> 0 < unat t \<and> unat t < 2 ^ 31"
proof -
  assume "parse_threads a = Inr t"
  then obtain v where v: "stoi a = Inr v" "0 < v" "t = word_of_int v"
    by (auto simp: parse_threads_def split: sum.splits if_splits)
  with stoi_range [OF v(1)] have "uint t = v" by (simp add: int32_ok_def uint_word_of_int)
  with v(2) stoi_range [OF v(1)] show ?thesis by (simp add: unat_eq_nat_uint int32_ok_def nat_less_iff)
qed

lemma options_ok_upd [simp]:
  "options_ok opts \<Longrightarrow> parse_port a = Inr p \<Longrightarrow> options_ok (opts\<lparr>opt_port := p\<rparr>)"
  "options_ok opts \<Longrightarrow> parse_threads b = Inr t \<Longrightarrow> options_ok (opts\<lparr>opt_threads := t\<rparr>)"
  "options_ok opts \<Longrightarrow> parse_port a = Inr p \<Longrightarrow> parse_threads b = Inr t \<Longrightarrow>
     options_ok (opts\<lparr>opt_port := p, opt_threads := t\<rparr>)"
  "options_ok (opts\<lparr>opt_aof := on\<rparr>) = options_ok opts" "options_ok (opts\<lparr>opt_path := path\<rparr>) = options_ok opts"
  using parse_port_ok parse_threads_ok by (simp_all add: options_ok_def)

lemma parse_arg_ok: "options_ok opts \<Longrightarrow> parse_arg a rest opts = Inr (rest', opts') \<Longrightarrow> options_ok opts'"
  by (auto simp: parse_arg_def split: if_splits list.splits sum.splits)

lemma parse_args_ok: "options_ok opts \<Longrightarrow> parse_args argv opts = Inr opts' \<Longrightarrow> options_ok opts'"
  by (induction argv opts rule: parse_args.induct) (auto split: sum.splits prod.splits dest: parse_arg_ok)

lemma default_options_ok: "options_ok default_options"
  by (simp add: options_ok_def default_options_def)

text \<open>C30. Accepted command lines. Whatever the arguments, a server is only constructed with a port
  from 1 to 65535 and fewer than \<open>2 ^ 31\<close> threads; every other outcome of the argument loop
  ends the program at once, with status 0 for a request for help and 1 for an error.\<close>

theorem accepted_options_in_range:
  "(\<exists>opts. parse_args argv default_options = Inr opts
      \<and> 1 \<le> unat (opt_port opts) \<and> unat (opt_port opts) \<le> 65535 \<and> unat (opt_threads opts) < 2 ^ 31)
   \<or> (\<exists>e. parse_args argv default_options = Inl e
      \<and> server_main hash env argv rounds = ExitStatus (if e = HelpShown then 0 else 1))"
proof (cases "parse_args argv default_options")
  case (Inr opts)
  have "unat (opt_port opts) < 65536" using unsigned_less [of "opt_port opts", where 'a = nat] by simp
  with parse_args_ok [OF default_options_ok Inr] Inr show ?thesis
    by (auto simp: options_ok_def Suc_le_eq neq0_conv [symmetric] unat_eq_0 simp del: neq0_conv)
qed (simp add: server_main_def exit_status_def)

text \<open>The three ways to spell options: long names, short names, positional.\<close>

datatype spelling = Long | Short | Positional

definition spell :: "spelling \<Rightarrow> Options \<Rightarrow> string list" where
  "spell sp opts =
     (let p = to_string (uint (opt_port opts)); t = to_string (uint (opt_threads opts)) in
      (case sp of
         Long \<Rightarrow> [''--port'', p, ''--threads'', t]
       | Short \<Rightarrow> [''-p'', p, ''-t'', t]
       | Positional \<Rightarrow> [p, t])
      @ [''--aof-enabled'', if opt_aof opts then ''true'' else ''false'', ''--aof-path'', opt_path opts])"

lemma stoi_to_string: "int32_ok v \<Longrightarrow> stoi (to_string v) = Inr v"
  by (simp add: stoi_def strtol_to_string)

lemma parse_port_to_string: "p \<noteq> 0 \<Longrightarrow> parse_port (to_string (uint p)) = Inr p"
proof -
  assume "p \<noteq> 0"
  have range: "int32_ok v \<and> \<not> (v < 1 \<or> v > 65535)" if "v \<noteq> 0" "0 \<le> v" "v < 65536" for v
    using that by (simp add: int32_ok_def)
  from \<open>p \<noteq> 0\<close> have "uint p \<noteq> 0" by (simp add: uint_0_iff)
  moreover have "0 \<le> uint p" "uint p < 65536" using uint_lt2p [of p] by simp_all
  ultimately have r: "int32_ok (uint p)" "\<not> (uint p < 1 \<or> uint p > 65535)" using range by blast+
  show ?thesis by (simp only: parse_port_def stoi_to_string [OF r(1)] sum.case r(2) if_False word_of_int_uint)
qed

lemma parse_threads_to_string:
  assumes "0 < unat t" and "unat t < 2 ^ 31"
  shows "parse_threads (to_string (uint t)) = Inr t"
proof -
  have range: "int32_ok v \<and> \<not> v \<le> 0" if "0 < nat v" "nat v < 2 ^ 31" for v
    using that by (simp add: int32_ok_def nat_less_iff)
  have r: "int32_ok (uint t)" "\<not> uint t \<le> 0" using range assms unfolding unat_eq_nat_uint by blast+
  show ?thesis by (simp only: parse_threads_def stoi_to_string [OF r(1)] sum.case r(2) if_False word_of_int_uint)
qed

lemma to_string_not_dashed: "0 \<le> v \<Longrightarrow> \<not> dashed (to_string v)"
  using hd_string_of_nat [of "nat v"] sign_not_digit
  by (auto simp: to_string_def dashed_def split: list.splits)

lemma positional_no_flag:
  "\<not> dashed a \<Longrightarrow> \<not> flag [''-p'', ''--port''] a \<and> \<not> flag [''-t'', ''--threads''] a \<and> \<not> flag [''--aof-enabled''] a
    \<and> \<not> flag [''--aof-path''] a \<and> \<not> flag [''-h'', ''--help''] a"
  by (auto simp: flag_def dashed_def)

text \<open>Command line round trip. Every port from 1 on, positive thread count below \<open>2 ^ 31\<close>, log
  switch and log path can be asked for, in each of the three spellings, and is understood as
  meant.\<close>

theorem command_line_roundtrip:
  assumes "opt_port opts \<noteq> 0" and "0 < unat (opt_threads opts)" and "unat (opt_threads opts) < 2 ^ 31"
  shows "parse_args (spell sp opts) default_options = Inr opts"
proof -
  note ps = parse_port_to_string [OF assms(1)] parse_threads_to_string [OF assms(2,3)]
  have nd: "\<not> dashed (to_string (uint (opt_port opts)))" "\<not> dashed (to_string (uint (opt_threads opts)))"
    by (simp_all add: to_string_not_dashed)
  have port: "parse_args (a # to_string (uint (opt_port opts)) # rest) o' = parse_args rest (o'\<lparr>opt_port := opt_port opts\<rparr>)"
    if "flag [''-p'', ''--port''] a" for a rest o'
    using that ps by (simp add: parse_arg_def)
  have threads: "parse_args (a # to_string (uint (opt_threads opts)) # rest) o'
      = parse_args rest (o'\<lparr>opt_threads := opt_threads opts\<rparr>)"
    if "flag [''-t'', ''--threads''] a" "\<not> flag [''-p'', ''--port''] a" for a rest o'
    using that ps by (simp add: parse_arg_def)
  have positional: "parse_args (to_string (uint (opt_port opts)) # to_string (uint (opt_threads opts)) # rest) o'
      = parse_args rest (o'\<lparr>opt_port := opt_port opts, opt_threads := opt_threads opts\<rparr>)" for rest o'
    using positional_no_flag [OF nd(1)] nd ps by (simp add: parse_arg_def)
  have log: "parse_args [''--aof-enabled'', if on then ''true'' else ''false'', ''--aof-path'', path] o'
      = Inr (o'\<lparr>opt_aof := on, opt_path := path\<rparr>)" for on path o'
    by (simp add: parse_arg_def flag_def)
  show ?thesis
    by (cases sp)
      (simp_all add: spell_def Let_def port threads positional log flag_def default_options_def del: parse_args.simps)
qed

theorem command_line_roundtrip_witness:
  "parse_args (spell Positional \<lparr>opt_port = 7000, opt_threads = 8, opt_aof = False, opt_path = ''-p''\<rparr>) default_options
    = Inr \<lparr>opt_port = 7000, opt_threads = 8, opt_aof = False, opt_path = ''-p''\<rparr>"
  by (rule command_line_roundtrip) simp_all

text \<open>A signal that comes between the installation of the handler and the first statement of \<open>run\<close>
  is forgotten, because \<open>run\<close> sets the flag that \<open>stop\<close> has cleared.\<close>

lemma early_signal_forgotten:
  "signalHandler (Some s) = Some s' \<Longrightarrow> server_run hash rounds s' = server_run hash rounds s"
  by (auto simp: signalHandler_def server_run_def server_stop_def)

end
