(* ===== verification/Cache_CLI.thy ===== *)
theory Cache_CLI
  imports Connection
begin

text \<open>
  The interactive client, \<open>tools/cache_cli.cpp\<close> (as compiled on POSIX systems): the port argument,
  the connection and the loop over the lines of the standard input. What the user types and
  what the socket calls answer are arguments; prompts and messages are left out. The result of
  \<open>send\<close> is not looked at by the code.
\<close>

definition BUFFER_SIZE :: nat where
  "BUFFER_SIZE = 4096"

text \<open>The arguments after the program name; \<open>None\<close> where \<open>atoi\<close> is undefined.\<close>

definition cli_port :: "string list \<Rightarrow> 16 word option" where
  "cli_port argv = (case argv of [] \<Rightarrow> Some 6380 | a # _ \<Rightarrow> map_option word_of_int (atoi a))"

datatype cli_error = NoSocket | BadAddress | NoConnection

definition cli_connect :: "int \<Rightarrow> int \<Rightarrow> int \<Rightarrow> cli_error + int" where
  "cli_connect sock pton conn =
     (if sock = - 1 then Inl NoSocket
      else if pton \<le> 0 then Inl BadAddress
      else if conn < 0 then Inl NoConnection
      else Inr sock)"

definition is_eol :: "char \<Rightarrow> bool" where
  "is_eol c \<longleftrightarrow> c = newline \<or> c = carriage_return"

text \<open>The loop that removes line ends from the end of a response.\<close>

function strip_response :: "string \<Rightarrow> string" where
  "strip_response response =
     (if response \<noteq> [] \<and> is_eol (last response) then strip_response (butlast response) else response)"
  by pat_completeness auto
termination
  by (relation "measure length") auto

declare strip_response.simps [simp del]

record Session =
  sent_lines :: "string list"
  printed :: "string list"
  closed :: bool

text \<open>The loop: \<open>answers\<close> are the bytes of the successive calls of \<open>recv\<close>, empty when the connection
  has ended or failed. \<open>None\<close>: \<open>recv\<close> has not answered.\<close>

fun repl :: "string list \<Rightarrow> string list \<Rightarrow> Session \<Rightarrow> Session option" where
  "repl [] answers s = Some s"
| "repl (line # ls) answers s =
     (if line = [] then repl ls answers s
      else let s1 = s\<lparr>sent_lines := sent_lines s @ [line @ [newline]]\<rparr> in
        case answers of
          [] \<Rightarrow> None
        | bytes # rest \<Rightarrow>
            if bytes \<noteq> [] then repl ls rest (s1\<lparr>printed := printed s1 @ [strip_response bytes]\<rparr>)
            else Some (s1\<lparr>closed := True\<rparr>))"

definition cli_main :: "string list \<Rightarrow> int \<Rightarrow> int \<Rightarrow> int \<Rightarrow> string \<Rightarrow> string list \<Rightarrow> (int \<times> Session) option" where
  "cli_main argv sock pton conn input answers =
     (case cli_port argv of None \<Rightarrow> None
      | Some _ \<Rightarrow>
          (let s0 = \<lparr>sent_lines = [], printed = [], closed = False\<rparr> in
           case cli_connect sock pton conn of
             Inl _ \<Rightarrow> Some (1, s0)
           | Inr _ \<Rightarrow> map_option (\<lambda>s. (0, s)) (repl (getlines input) answers s0)))"

subsection \<open>A session\<close>

lemma strip_response_dropWhile: "strip_response s = rev (dropWhile is_eol (rev s))"
proof (induction s rule: strip_response.induct)
  case (1 s)
  show ?case
  proof (cases s rule: rev_cases)
    case (snoc t c)
    with 1 show ?thesis by (subst strip_response.simps) simp
  qed (simp add: strip_response.simps)
qed

lemma repl_session:
  assumes "length answers = length (filter (\<lambda>l. l \<noteq> []) ls)" and "[] \<notin> set answers"
  shows "repl ls answers s = Some (s\<lparr>sent_lines := sent_lines s @ map (\<lambda>l. l @ [newline]) (filter (\<lambda>l. l \<noteq> []) ls),
      printed := printed s @ map strip_response answers\<rparr>)"
  using assms
proof (induction ls arbitrary: answers s)
  case (Cons line ls)
  show ?case
  proof (cases "line = []")
    case False
    then obtain b bs where "answers = b # bs" using Cons.prems(1) by (cases answers) auto
    moreover from this Cons.prems(2) have "b \<noteq> []" by auto
    ultimately show ?thesis using Cons False by (simp add: Let_def)
  qed (use Cons in simp)
qed simp

lemma lines_from_no_newline: "newline \<notin> set acc \<Longrightarrow> l \<in> set (lines_from acc s) \<Longrightarrow> newline \<notin> set l"
  by (induction acc s rule: lines_from.induct) (auto split: if_splits)



end
