(* ===== verification/Cache_Bench.thy ===== *)
theory Cache_Bench
  imports AOF_Codec Connection "HOL-Library.Signed_Division"
begin

text \<open>
  The load generator, \<open>tools/cache_bench.cpp\<close>: its command line, the distribution of the requests
  over the threads, the requests of a thread, and the statistics at the end. The answers of
  the socket calls and the random draws are arguments. Floating-point numbers are a type
  parameter \<open>'d\<close> with a linear order; \<open>std::atof\<close> and the constant \<open>0.8\<close> come in as arguments.
  Console output and the throughput figure are left out. \<open>None\<close> stands for behaviour that C++
  leaves undefined or that ends the program, and for a socket call that has not answered.
\<close>

subsection \<open>Configuration\<close>

record 'd BenchConfig =
  host :: string
  bench_port :: "16 word"
  threads :: int
  requests :: int
  keyspace :: int
  read_ratio :: 'd
  value_size :: int

definition default_config :: "'d \<Rightarrow> 'd BenchConfig" where
  "default_config ratio = \<lparr>host = ''127.0.0.1'', bench_port = 6380, threads = 4, requests = 100000,
     keyspace = 10000, read_ratio = ratio, value_size = 64\<rparr>"

datatype bench_exit = BenchHelp | AtoiOverflow

definition set_int :: "(int \<Rightarrow> 'c \<Rightarrow> 'c) \<Rightarrow> string \<Rightarrow> 'c \<Rightarrow> bench_exit + 'c" where
  "set_int upd v config = (case atoi v of None \<Rightarrow> Inl AtoiOverflow | Some n \<Rightarrow> Inr (upd n config))"

text \<open>The branches of the loop that take a value.\<close>

definition set_option :: "(string \<Rightarrow> 'd) \<Rightarrow> string \<Rightarrow> string \<Rightarrow> 'd BenchConfig \<Rightarrow> (bench_exit + 'd BenchConfig) option" where
  "set_option atof a v config =
     (if a = ''--host'' then Some (Inr (config\<lparr>host := v\<rparr>))
      else if a = ''--port'' then Some (set_int (\<lambda>n. bench_port_update (\<lambda>_. word_of_int n)) v config)
      else if a = ''--threads'' then Some (set_int (\<lambda>n. threads_update (\<lambda>_. n)) v config)
      else if a = ''--requests'' then Some (set_int (\<lambda>n. requests_update (\<lambda>_. n)) v config)
      else if a = ''--keyspace'' then Some (set_int (\<lambda>n. keyspace_update (\<lambda>_. n)) v config)
      else if a = ''--read-ratio'' then Some (Inr (config\<lparr>read_ratio := atof v\<rparr>))
      else if a = ''--value-size'' then Some (set_int (\<lambda>n. value_size_update (\<lambda>_. n)) v config)
      else None)"

fun parseArgs :: "(string \<Rightarrow> 'd) \<Rightarrow> string list \<Rightarrow> 'd BenchConfig \<Rightarrow> bench_exit + 'd BenchConfig" where
  "parseArgs atof [] config = Inr config"
| "parseArgs atof [a] config = (if a = ''--help'' \<or> a = ''-h'' then Inl BenchHelp else Inr config)"
| "parseArgs atof (a # v # rest) config =
     (case set_option atof a v config of
        Some (Inl e) \<Rightarrow> Inl e
      | Some (Inr config') \<Rightarrow> parseArgs atof rest config'
      | None \<Rightarrow> if a = ''--help'' \<or> a = ''-h'' then Inl BenchHelp else parseArgs atof (v # rest) config)"

subsection \<open>The distribution of the requests\<close>

datatype bench_error = DivisionUndefined | LengthError

definition split_requests :: "int \<Rightarrow> int \<Rightarrow> bench_error + int list" where
  "split_requests reqs n =
     (if n = 0 \<or> reqs = - (2 ^ 31) \<and> n = - 1 then Inl DivisionUndefined
      else let base = reqs sdiv n; remainder = reqs smod n in
        if n < 0 then Inl LengthError
        else Inr (map (\<lambda>t. base + (if t < remainder then 1 else 0)) [0..n - 1]))"

subsection \<open>The requests of a thread\<close>

definition value_chars :: string where
  "value_chars = ''abcdefghijklmnopqrstuvwxyz'' @ ''ABCDEFGHIJKLMNOPQRSTUVWXYZ'' @ ''0123456789''"

text \<open>\<open>draws\<close> are the numbers from 0 to 61 that the distribution gives.\<close>

definition generateRandomValue :: "nat \<Rightarrow> (nat \<Rightarrow> nat) \<Rightarrow> string" where
  "generateRandomValue len draws = map (\<lambda>i. value_chars ! draws i) [0..<len]"

definition connectToServer :: "int \<Rightarrow> int \<Rightarrow> int \<Rightarrow> int" where
  "connectToServer sock pton conn =
     (if sock < 0 then - 1 else if pton \<le> 0 then - 1 else if conn < 0 then - 1 else sock)"

fun send_all :: "int list \<Rightarrow> string \<Rightarrow> (bool \<times> string) option" where
  "send_all answers [] = Some (True, [])"
| "send_all [] (b # bs) = None"
| "send_all (n # answers) (b # bs) =
     (if n \<le> 0 then Some (False, [])
      else map_option (\<lambda>(ok, sent). (ok, take (nat n) (b # bs) @ sent)) (send_all answers (drop (nat n) (b # bs))))"

definition sendCommand :: "int list \<Rightarrow> string \<Rightarrow> (bool \<times> string) option" where
  "sendCommand answers cmd = send_all answers (cmd @ [newline])"

text \<open>Each answer of \<open>recv\<close> is a byte, or \<open>None\<close> for an error or the end of the stream. \<open>room\<close> is
  what the condition of the loop leaves.\<close>

fun recv_line :: "nat \<Rightarrow> char option list \<Rightarrow> (bool \<times> string) option" where
  "recv_line 0 answers = Some (True, [])"
| "recv_line (Suc room) [] = None"
| "recv_line (Suc room) (None # answers) = Some (False, [])"
| "recv_line (Suc room) (Some c # answers) =
     (if c = newline then Some (True, [c])
      else map_option (\<lambda>(ok, bytes). (ok, c # bytes)) (recv_line room answers))"

definition recvResponse :: "nat \<Rightarrow> char option list \<Rightarrow> (bool \<times> string) option" where
  "recvResponse bufsize answers = recv_line (bufsize - 1) answers"

text \<open>What one round of the loop meets.\<close>

record 'd Request =
  rq_key :: int
  rq_ratio :: 'd
  rq_sends :: "int list"
  rq_recvs :: "char option list"
  rq_latency :: 'd

definition bench_command :: "('d::ord) BenchConfig \<Rightarrow> string \<Rightarrow> 'd Request \<Rightarrow> string" where
  "bench_command config val r =
     (if rq_ratio r < read_ratio config then ''GET key:'' @ to_string (rq_key r)
      else ''SET key:'' @ to_string (rq_key r) @ '' '' @ val)"

definition do_request :: "('d::ord) BenchConfig \<Rightarrow> string \<Rightarrow> 'd Request \<Rightarrow> bool option" where
  "do_request config val r =
     (case sendCommand (rq_sends r) (bench_command config val r) of
        None \<Rightarrow> None
      | Some (False, _) \<Rightarrow> Some False
      | Some (True, _) \<Rightarrow> map_option fst (recvResponse 4096 (rq_recvs r)))"

record 'd ThreadResult =
  latencies :: "'d list"
  errors :: size_t

definition record_result :: "'d \<Rightarrow> bool \<Rightarrow> 'd ThreadResult \<Rightarrow> 'd ThreadResult" where
  "record_result us ok result =
     (if ok then result\<lparr>latencies := latencies result @ [us]\<rparr> else result\<lparr>errors := errors result + 1\<rparr>)"

fun request_loop :: "('d::ord) BenchConfig \<Rightarrow> string \<Rightarrow> 'd Request list \<Rightarrow> 'd ThreadResult \<Rightarrow> 'd ThreadResult option" where
  "request_loop config val [] result = Some result"
| "request_loop config val (r # rs) result =
     (case do_request config val r of None \<Rightarrow> None
      | Some ok \<Rightarrow> request_loop config val rs (record_result (rq_latency r) ok result))"

definition workerThread ::
  "('d::ord) BenchConfig \<Rightarrow> int \<Rightarrow> (nat \<Rightarrow> nat) \<Rightarrow> int \<Rightarrow> (nat \<Rightarrow> 'd Request) \<Rightarrow> 'd ThreadResult option" where
  "workerThread config sock draws num_requests reqs =
     (if sock < 0 then Some \<lparr>latencies = [], errors = word_of_int num_requests\<rparr>
      else if num_requests < 0 \<or> keyspace config < 1 \<or> value_size config < 0 then None
      else request_loop config (generateRandomValue (nat (value_size config)) draws)
             (map reqs [0..<nat num_requests]) \<lparr>latencies = [], errors = 0\<rparr>)"

subsection \<open>The whole run\<close>

fun all_results :: "'a option list \<Rightarrow> 'a list option" where
  "all_results [] = Some []"
| "all_results (None # xs) = None"
| "all_results (Some x # xs) = map_option (\<lambda>ys. x # ys) (all_results xs)"

text \<open>Every thread writes into a result of its own and all of them are joined, so the order of their
  steps does not matter.\<close>

definition run_threads ::
  "('d::ord) BenchConfig \<Rightarrow> (nat \<Rightarrow> int) \<Rightarrow> (nat \<Rightarrow> nat \<Rightarrow> nat) \<Rightarrow> (nat \<Rightarrow> nat \<Rightarrow> 'd Request) \<Rightarrow> 'd ThreadResult list option" where
  "run_threads config socks draws reqs =
     (case split_requests (requests config) (threads config) of
        Inl _ \<Rightarrow> None
      | Inr ns \<Rightarrow> all_results (map (\<lambda>(t, n). workerThread config (socks t) (draws t) n (reqs t)) (enumerate 0 ns)))"

definition total_samples :: "'d ThreadResult list \<Rightarrow> size_t" where
  "total_samples results = fold (\<lambda>r total. total + of_nat (length (latencies r))) results 0"

definition total_errors :: "'d ThreadResult list \<Rightarrow> size_t" where
  "total_errors results = fold (\<lambda>r total. total + errors r) results 0"

definition all_latencies :: "('d::linorder) ThreadResult list \<Rightarrow> 'd list" where
  "all_latencies results = sort (fold (\<lambda>r all. all @ latencies r) results [])"

definition percentile :: "size_t \<Rightarrow> 'd list \<Rightarrow> 'd option" where
  "percentile q xs =
     (let i = unat (of_nat (length xs) * q div 100) in if i < length xs then Some (xs ! i) else None)"

definition percentiles :: "'d::zero list \<Rightarrow> ('d \<times> 'd \<times> 'd) option" where
  "percentiles xs =
     (if xs = [] then Some (0, 0, 0)
      else case (percentile 50 xs, percentile 95 xs, percentile 99 xs) of
        (Some p50, Some p95, Some p99) \<Rightarrow> Some (p50, p95, p99)
      | _ \<Rightarrow> None)"

record 'd BenchReport =
  rep_samples :: size_t
  rep_errors :: size_t
  rep_percentiles :: "'d \<times> 'd \<times> 'd"

text \<open>The figures that \<open>main\<close> prints, or the status with which \<open>parseArgs\<close> ends the program.\<close>

definition bench_main ::
  "(string \<Rightarrow> 'd) \<Rightarrow> 'd \<Rightarrow> string list \<Rightarrow> (nat \<Rightarrow> int) \<Rightarrow> (nat \<Rightarrow> nat \<Rightarrow> nat) \<Rightarrow> (nat \<Rightarrow> nat \<Rightarrow> 'd Request)
    \<Rightarrow> (int + ('d::{linorder,zero}) BenchReport) option" where
  "bench_main atof ratio argv socks draws reqs =
     (case parseArgs atof argv (default_config ratio) of
        Inl BenchHelp \<Rightarrow> Some (Inl 0)
      | Inl AtoiOverflow \<Rightarrow> None
      | Inr config \<Rightarrow> do {
          results \<leftarrow> run_threads config socks draws reqs;
          ps \<leftarrow> percentiles (all_latencies results);
          Some (Inr \<lparr>rep_samples = total_samples results, rep_errors = total_errors results, rep_percentiles = ps\<rparr>) })"

subsection \<open>Every request is accounted for\<close>

lemma sum_extra:
  "0 \<le> r \<Longrightarrow> sum_list (map (\<lambda>i. if int i < r then 1 else 0) [0..<m]) = min (int m) r"
  by (induction m) auto

lemma upto_upt: "[0..int m - 1] = map int [0..<m]"
  by (induction m) (simp_all add: upto_rec2)

lemma split_requests_fair:
  assumes "0 < n" and "0 \<le> reqs"
  shows "\<exists>ns. split_requests reqs n = Inr ns \<and> length ns = nat n \<and> sum_list ns = reqs
    \<and> (\<forall>x\<in>set ns. reqs div n \<le> x \<and> x \<le> reqs div n + 1)"
proof -
  obtain m where m: "n = int m" "0 < m" using assms(1) by (metis zero_less_imp_eq_int)
  have dm: "reqs sdiv n = reqs div n" "reqs smod n = reqs mod n"
    using assms by (simp_all add: signed_divide_int_def signed_modulo_int_def sgn_if)
  have r: "0 \<le> reqs mod n" "reqs mod n < n" using assms(1) by simp_all
  let ?f = "\<lambda>t. reqs div n + (if t < reqs mod n then 1 else 0)"
  have "sum_list (map ?f [0..n - 1]) = sum_list (map (\<lambda>i. reqs div n + (if int i < reqs mod n then 1 else 0)) [0..<m])"
    unfolding m(1) upto_upt by (simp add: comp_def)
  also have "\<dots> = int m * (reqs div n) + sum_list (map (\<lambda>i. if int i < reqs mod n then 1 else 0) [0..<m])"
    unfolding sum_list_addf by (simp add: sum_list_triv)
  also have "\<dots> = reqs" using sum_extra [OF r(1), of m] r(2) m(1) by (simp add: min_absorb2)
  finally have "sum_list (map ?f [0..n - 1]) = reqs" .
  then show ?thesis using assms by (auto simp: split_requests_def Let_def dm)
qed

lemma request_loop_counts:
  "request_loop config val rs result = Some result' \<Longrightarrow>
   of_nat (length (latencies result')) + errors result' =
     of_nat (length (latencies result)) + errors result + of_nat (length rs)"
  by (induction config val rs result rule: request_loop.induct)
    (auto simp: record_result_def algebra_simps split: option.splits if_splits)

lemma worker_counts:
  assumes "workerThread config sock draws n reqs = Some result" and "0 \<le> n"
  shows "of_nat (length (latencies result)) + errors result = word_of_int n"
  using assms request_loop_counts [of config _ "map reqs [0..<nat n]" "\<lparr>latencies = [], errors = 0\<rparr>" result]
  by (auto simp: workerThread_def split: if_splits)

lemma all_results_list: "all_results xs = Some ys \<longleftrightarrow> xs = map Some ys"
  by (induction xs arbitrary: ys rule: all_results.induct) auto

lemma fold_add: "fold (\<lambda>r total. total + f r) rs (a :: 'a :: comm_monoid_add) = a + sum_list (map f rs)"
  by (induction rs arbitrary: a) (simp_all add: add.assoc)

lemma sum_words: "sum_list (map word_of_int ns) = word_of_int (sum_list ns)"
  by (induction ns) simp_all

lemma totals:
  assumes "map (\<lambda>(t, n). workerThread config (socks t) (draws t) n (reqs t)) (enumerate 0 ns) = map Some results"
    and "\<forall>n\<in>set ns. 0 \<le> n"
  shows "total_samples results + total_errors results = word_of_int (sum_list ns)"
proof -
  have len: "length results = length ns" using arg_cong [OF assms(1), of length] by simp
  have "of_nat (length (latencies (results ! i))) + errors (results ! i) = word_of_int (ns ! i)"
    if "i < length ns" for i
  proof -
    have "workerThread config (socks i) (draws i) (ns ! i) (reqs i) = Some (results ! i)"
      using arg_cong [OF assms(1), of "\<lambda>xs. xs ! i"] that len by (simp add: nth_enumerate_eq)
    then show ?thesis using assms(2) that by (intro worker_counts) auto
  qed
  then have "map (\<lambda>r. of_nat (length (latencies r)) + errors r) results = map word_of_int ns"
    using len by (intro nth_equalityI) simp_all
  then show ?thesis
    by (simp add: total_samples_def total_errors_def fold_add sum_list_addf [symmetric] sum_words)
qed

text \<open>C28. Every request is accounted for. With at least one thread and valid parameters the requests
  are spread over the threads as evenly as possible; if every socket call answers, the run ends;
  and the latency samples and errors that it counts add up to the requested number exactly,
  failed connections included.\<close>

theorem bench_requests_accounted:
  assumes "0 < threads config" and "0 \<le> requests config" and "requests config < 2 ^ 31"
    and "0 < keyspace config" and "0 \<le> value_size config"
    and "\<And>t i. do_request config (generateRandomValue (nat (value_size config)) (draws t)) (reqs t i) \<noteq> None"
  shows "\<exists>ns results. split_requests (requests config) (threads config) = Inr ns
    \<and> (\<forall>n\<in>set ns. requests config div threads config \<le> n \<and> n \<le> requests config div threads config + 1)
    \<and> run_threads config socks draws reqs = Some results \<and> length results = nat (threads config)
    \<and> uint (total_samples results + total_errors results) = requests config"
proof -
  from split_requests_fair [OF assms(1,2)] obtain ns where
    ns: "split_requests (requests config) (threads config) = Inr ns" "length ns = nat (threads config)"
      "sum_list ns = requests config"
      "\<forall>n\<in>set ns. requests config div threads config \<le> n \<and> n \<le> requests config div threads config + 1"
    by blast
  have "0 \<le> requests config div threads config" using assms(1,2) by (simp add: pos_imp_zdiv_nonneg_iff)
  with ns(4) have nn: "\<forall>n\<in>set ns. 0 \<le> n" by auto
  have loop: "\<exists>r'. request_loop config (generateRandomValue (nat (value_size config)) (draws t)) (map (reqs t) is) r = Some r'"
    for t "is" r
  proof (induction "is" arbitrary: r)
    case (Cons i "is")
    then show ?case using assms(6) [of t i] by auto
  qed simp
  have "\<exists>r. workerThread config (socks t) (draws t) n (reqs t) = Some r" if "n \<in> set ns" for t n
    using loop nn that assms(4,5) by (auto simp: workerThread_def)
  then have "\<exists>r. (\<lambda>(t, n). workerThread config (socks t) (draws t) n (reqs t)) p = Some r"
    if "p \<in> set (enumerate 0 ns)" for p
    using that by (auto simp: in_set_enumerate_eq split: prod.splits)
  then obtain results where r: "map (\<lambda>(t, n). workerThread config (socks t) (draws t) n (reqs t)) (enumerate 0 ns)
      = map Some results"
    using ex_map_conv [of "map (\<lambda>(t, n). workerThread config (socks t) (draws t) n (reqs t)) (enumerate 0 ns)" Some]
    by (metis (no_types, lifting) imageE list.set_map)
  have len: "length results = length ns" using arg_cong [OF r, of length] by simp
  have "uint (word_of_int (requests config) :: size_t) = requests config"
    using assms(2,3) by (simp add: uint_word_of_int)
  with totals [OF r nn] ns(3) have "uint (total_samples results + total_errors results) = requests config"
    by simp
  moreover have "run_threads config socks draws reqs = Some results"
    by (simp add: run_threads_def ns(1) all_results_list r)
  ultimately show ?thesis using ns len by auto
qed

theorem bench_requests_accounted_witness:
  "\<exists>results. run_threads \<lparr>host = ''h'', bench_port = 1, threads = 2, requests = 3, keyspace = 5,
        read_ratio = 0 :: int, value_size = 1\<rparr> (\<lambda>t. if t = 0 then 3 else - 1) (\<lambda>_ _. 0)
      (\<lambda>_ _. \<lparr>rq_key = 1, rq_ratio = 1, rq_sends = [20], rq_recvs = [Some CHR ''+'', Some newline], rq_latency = 7\<rparr>)
      = Some results
    \<and> uint (total_samples results + total_errors results) = 3"
proof -
  let ?config = "\<lparr>host = ''h'', bench_port = 1, threads = 2, requests = 3, keyspace = 5,
        read_ratio = 0 :: int, value_size = 1\<rparr>"
  let ?r = "\<lparr>rq_key = 1, rq_ratio = 1, rq_sends = [20], rq_recvs = [Some CHR ''+'', Some newline], rq_latency = 7 :: int\<rparr>"
  have one: "to_string 1 = ''1''"
    by code_simp
  have "do_request ?config (generateRandomValue (nat (value_size ?config)) (\<lambda>_. 0)) ?r \<noteq> None"
    by (simp add: do_request_def sendCommand_def recvResponse_def bench_command_def generateRandomValue_def
        value_chars_def one numeral_eq_Suc)
  from bench_requests_accounted [of ?config "\<lambda>_ _. 0" "\<lambda>_ _. ?r" "\<lambda>t. if t = 0 then 3 else - 1", OF _ _ _ _ _ this]
  show ?thesis by auto
qed

subsection \<open>Percentiles\<close>

lemma sorted_rank:
  assumes "sorted xs" and "i < length xs"
  shows "length (filter (\<lambda>x. x < xs ! i) xs) \<le> i" and "i < length (filter (\<lambda>x. x \<le> xs ! i) xs)"
proof -
  have d: "\<not> x < xs ! i" if "x \<in> set (drop i xs)" for x
    using that assms by (auto simp: in_set_conv_nth not_less intro: sorted_nth_mono)
  have t: "x \<le> xs ! i" if "x \<in> set (take (Suc i) xs)" for x
    using that assms by (auto simp: in_set_conv_nth less_Suc_eq_le intro: sorted_nth_mono)
  have "filter (\<lambda>x. x < xs ! i) xs = filter (\<lambda>x. x < xs ! i) (take i xs @ drop i xs)" by simp
  also have "\<dots> = filter (\<lambda>x. x < xs ! i) (take i xs)"
    unfolding filter_append using d by (simp add: filter_empty_conv)
  finally have "length (filter (\<lambda>x. x < xs ! i) xs) \<le> length (take i xs)" by (metis length_filter_le)
  then show "length (filter (\<lambda>x. x < xs ! i) xs) \<le> i" by simp
  have "filter (\<lambda>x. x \<le> xs ! i) xs = filter (\<lambda>x. x \<le> xs ! i) (take (Suc i) xs @ drop (Suc i) xs)" by simp
  also have "\<dots> = take (Suc i) xs @ filter (\<lambda>x. x \<le> xs ! i) (drop (Suc i) xs)"
    unfolding filter_append using t by (simp add: filter_id_conv)
  finally have "length (filter (\<lambda>x. x \<le> xs ! i) xs) \<ge> length (take (Suc i) xs)" by simp
  then show "i < length (filter (\<lambda>x. x \<le> xs ! i) xs)" using assms(2) by simp
qed

lemma percentile_index:
  assumes "n < 2 ^ 57" and "q < 100"
  shows "unat ((of_nat n * of_nat q :: size_t) div 100) = n * q div 100"
proof -
  have "n * q < 2 ^ 57 * 100" using assms by (intro mult_strict_mono) simp_all
  also have "\<dots> < (2 :: nat) ^ 64" by simp
  finally have "unat (of_nat (n * q) :: size_t) = n * q" by (simp only: unat_of_nat) simp
  then show ?thesis by (simp add: unat_div_distrib)
qed

lemma percentile_sort:
  assumes "xs \<noteq> []" and "length xs < 2 ^ 57" and "q < 100"
  shows "percentile (of_nat q) (sort xs) = Some (sort xs ! (length xs * q div 100))"
    and "length xs * q div 100 < length xs"
proof -
  have "length xs * q < length xs * 100" using assms(1,3) by simp
  then show i: "length xs * q div 100 < length xs" by (simp add: less_mult_imp_div_less)
  then show "percentile (of_nat q) (sort xs) = Some (sort xs ! (length xs * q div 100))"
    using percentile_index [OF assms(2,3)] by (simp add: percentile_def Let_def)
qed

definition rank_ok :: "nat \<Rightarrow> ('d::linorder) list \<Rightarrow> 'd \<Rightarrow> bool" where
  "rank_ok q samples p \<longleftrightarrow> length (filter (\<lambda>x. x < p) samples) \<le> length samples * q div 100
     \<and> length samples * q div 100 < length (filter (\<lambda>x. x \<le> p) samples)"

lemma rank_sort:
  fixes xs :: "('d::linorder) list"
  assumes "i < length xs"
  shows "length (filter (\<lambda>x. x < sort xs ! i) xs) \<le> i \<and> i < length (filter (\<lambda>x. x \<le> sort xs ! i) xs)"
proof -
  have "length (filter P (sort xs)) = length (filter P xs)" for P
    by (simp add: filter_sort)
  with sorted_rank [OF sorted_sort, of i xs] assms show ?thesis by simp
qed

lemma all_latencies_sort: "all_latencies results = sort (concat (map latencies results))"
proof -
  have "fold (\<lambda>r all. all @ latencies r) results a = a @ concat (map latencies results)" for a
    by (induction results arbitrary: a) simp_all
  then show ?thesis by (simp add: all_latencies_def)
qed

text \<open>C29. The percentiles are percentiles. As long as the products of the code fit 64 bits, the three
  indices are in range, and \<open>p50\<close>, \<open>p95\<close> and \<open>p99\<close> are ordered and have the rank they are
  named after among all samples: at most that share of them is smaller, more than that share
  is not greater.\<close>

theorem bench_percentiles_rank:
  fixes results :: "('d::{linorder,zero}) ThreadResult list"
  assumes "samples = concat (map latencies results)" and "samples \<noteq> []" and "length samples < 2 ^ 57"
  shows "\<exists>p50 p95 p99. percentiles (all_latencies results) = Some (p50, p95, p99)
    \<and> p50 \<le> p95 \<and> p95 \<le> p99 \<and> rank_ok 50 samples p50 \<and> rank_ok 95 samples p95 \<and> rank_ok 99 samples p99"
proof -
  let ?n = "length samples" and ?s = "sort samples"
  note p = percentile_sort [OF assms(2,3)]
  have ne: "?s \<noteq> []" using assms(2) by (metis set_empty set_sort)
  have "?s ! (?n * 50 div 100) \<le> ?s ! (?n * 95 div 100)" "?s ! (?n * 95 div 100) \<le> ?s ! (?n * 99 div 100)"
    using p(2) [of 95] p(2) [of 99] by (auto intro!: sorted_nth_mono div_le_mono)
  moreover have "rank_ok q samples (?s ! (?n * q div 100))" if "q \<in> {50, 95, 99}" for q
    unfolding rank_ok_def by (rule rank_sort, rule p(2)) (use that in auto)
  from this [of 50] this [of 95] this [of 99]
  have "rank_ok 50 samples (?s ! (?n * 50 div 100))" "rank_ok 95 samples (?s ! (?n * 95 div 100))"
    "rank_ok 99 samples (?s ! (?n * 99 div 100))" by simp_all
  moreover have "percentiles ?s = Some (?s ! (?n * 50 div 100), ?s ! (?n * 95 div 100), ?s ! (?n * 99 div 100))"
    using p(1) [of 50] p(1) [of 95] p(1) [of 99] ne by (simp add: percentiles_def)
  ultimately show ?thesis unfolding all_latencies_sort assms(1) [symmetric] by blast
qed

theorem bench_percentiles_rank_witness:
  "\<exists>p50 p95 p99. percentiles (all_latencies [\<lparr>latencies = [5, 1 :: int], errors = 0\<rparr>, \<lparr>latencies = [3], errors = 1\<rparr>])
      = Some (p50, p95, p99) \<and> p50 \<le> p95 \<and> p95 \<le> p99 \<and> rank_ok 50 [5, 1, 3] p50"
  using bench_percentiles_rank [of "[5, 1, 3]" "[\<lparr>latencies = [5, 1 :: int], errors = 0\<rparr>, \<lparr>latencies = [3], errors = 1\<rparr>]"]
  by auto

subsection \<open>The server understands the requests\<close>

lemma send_all_sent: "send_all answers bs = Some (True, sent) \<Longrightarrow> sent = bs"
proof (induction answers bs arbitrary: sent rule: send_all.induct)
  case (3 n answers b bs)
  then obtain sent' where "0 < n" "send_all answers (drop (nat n) (b # bs)) = Some (True, sent')"
    "sent = take (nat n) (b # bs) @ sent'"
    by (auto split: if_splits)
  with 3(1) show ?case by (metis append_take_drop_id not_less)
qed auto

definition plain :: "string \<Rightarrow> bool" where
  "plain s \<longleftrightarrow> s \<noteq> [] \<and> (\<forall>c\<in>set s. \<not> isspace c \<and> c \<noteq> dquote)"

lemma value_chars_plain: "c \<in> set value_chars \<Longrightarrow> \<not> isspace c \<and> c \<noteq> dquote"
  by (auto simp: value_chars_def isspace_def)

lemma value_plain:
  assumes "0 < n" and "\<forall>i. draws i < 62"
  shows "plain (generateRandomValue n draws)"
proof -
  have "length value_chars = 62" by (simp add: value_chars_def)
  then have "value_chars ! draws i \<in> set value_chars" for i using assms(2) by simp
  then show ?thesis using assms(1) value_chars_plain by (auto simp: plain_def generateRandomValue_def)
qed

lemma key_plain: "plain (''key:'' @ to_string k)"
proof -
  have "c \<noteq> dquote" if "c \<in> set (to_string k)" for c
    using to_string_chars [OF that] by (auto simp: isdigit_def)
  then show ?thesis using to_string_no_space [of k] by (auto simp: plain_def isspace_def)
qed

lemma plain_chars:
  assumes "plain s"
  shows "newline \<notin> set s" "last (w @ s) \<noteq> carriage_return" "s \<noteq> []"
proof -
  show "newline \<notin> set s" using assms isspace_simps(2) unfolding plain_def by blast
  show ne: "s \<noteq> []" using assms by (simp add: plain_def)
  then have "\<not> isspace (last s)" using assms by (simp add: plain_def)
  then show "last (w @ s) \<noteq> carriage_return" using ne isspace_simps(3) by auto
qed

lemma plain_word: "plain s \<Longrightarrow> rest = [] \<or> isspace (hd rest) \<Longrightarrow> tokenize (s @ rest) = s # tokenize rest"
  by (rule tokenize_word) (auto simp: plain_def)

lemma plain_parse:
  assumes "plain k"
  shows "parseCommand (''GET '' @ k) = \<lparr>cmd_type = GET, args = [k]\<rparr>"
    and "plain x \<Longrightarrow> parseCommand (''SET '' @ k @ '' '' @ x) = \<lparr>cmd_type = SET, args = [k, x]\<rparr>"
proof -
  have last: "\<not> isspace (last s)" "s \<noteq> []" if "plain s" for s using that by (auto simp: plain_def)
  have "parseCommand (''GET'' @ CHR '' '' # k) = command_of_tokens (''GET'' # tokenize k)"
    using last [OF assms] by (intro parseCommand_line) (simp_all add: isspace_def)
  then show "parseCommand (''GET '' @ k) = \<lparr>cmd_type = GET, args = [k]\<rparr>"
    using plain_word [OF assms, of "[]"] by (simp add: command_of_tokens_def toUpper_def toupper_def)
  assume x: "plain x"
  have "parseCommand (''SET'' @ CHR '' '' # (k @ '' '' @ x)) = command_of_tokens (''SET'' # tokenize (k @ '' '' @ x))"
    using last [OF x] by (intro parseCommand_line) (simp_all add: isspace_def)
  then show "parseCommand (''SET '' @ k @ '' '' @ x) = \<lparr>cmd_type = SET, args = [k, x]\<rparr>"
    using plain_word [OF assms, of "'' '' @ x"] plain_word [OF x, of "[]"]
    by (simp add: command_of_tokens_def toUpper_def toupper_def)
qed

text \<open>C27. The requests are understood. What a successful \<open>sendCommand\<close> of the load generator puts on the
  wire is one complete line for the server's connection, and the server's parser reads it as
  the \<open>GET\<close> or the \<open>SET\<close> of the drawn key, with the generated value in one piece.\<close>

theorem bench_commands_understood:
  assumes "sendCommand answers (bench_command config (generateRandomValue n draws) r) = Some (True, sent)"
    and "0 < n" and "\<forall>i. draws i < 62"
  shows "extract_commands sent = ([bench_command config (generateRandomValue n draws) r], [])
    \<and> parseCommand (bench_command config (generateRandomValue n draws) r) =
        (if rq_ratio r < read_ratio config then \<lparr>cmd_type = GET, args = [''key:'' @ to_string (rq_key r)]\<rparr>
         else \<lparr>cmd_type = SET, args = [''key:'' @ to_string (rq_key r), generateRandomValue n draws]\<rparr>)"
proof -
  let ?k = "''key:'' @ to_string (rq_key r)" and ?x = "generateRandomValue n draws"
  let ?cmd = "bench_command config ?x r"
  have cmd: "?cmd = (if rq_ratio r < read_ratio config then ''GET '' @ ?k else ''SET '' @ ?k @ '' '' @ ?x)"
    by (simp add: bench_command_def)
  note plain = key_plain [of "rq_key r"] value_plain [OF assms(2,3)]
  have chars: "newline \<notin> set ?cmd \<and> last ?cmd \<noteq> carriage_return \<and> ?cmd \<noteq> []"
    unfolding cmd using plain_chars [OF plain(1)] plain_chars [OF plain(2)] by simp
  then have "strip_cr ?cmd = ?cmd" by (auto simp: strip_cr_def)
  then have "extract_commands (?cmd @ [newline]) = ([?cmd], [])"
    using extract_line [of ?cmd "[]"] extract_tail [of "[]"] chars by simp
  moreover have "sent = ?cmd @ [newline]" using send_all_sent assms(1) by (simp add: sendCommand_def)
  ultimately show ?thesis using plain_parse [OF plain(1)] plain(2) unfolding cmd by simp
qed

theorem bench_commands_understood_witness:
  "\<exists>sent. sendCommand [4, 20] (bench_command (default_config (1 :: int)) (generateRandomValue 2 (\<lambda>_. 27))
        \<lparr>rq_key = 1, rq_ratio = 1, rq_sends = [], rq_recvs = [], rq_latency = 0\<rparr>) = Some (True, sent)
    \<and> extract_commands sent = ([''SET key:1 BB''], [])"
proof -
  let ?r = "\<lparr>rq_key = 1, rq_ratio = 1 :: int, rq_sends = [], rq_recvs = [], rq_latency = 0\<rparr>"
  let ?cmd = "bench_command (default_config (1 :: int)) (generateRandomValue 2 (\<lambda>_. 27)) ?r"
  have cmd: "?cmd = ''SET key:1 BB''" by code_simp
  then have "\<exists>sent. sendCommand [4, 20] ?cmd = Some (True, sent)"
    by (simp add: sendCommand_def numeral_eq_Suc)
  then obtain sent where s: "sendCommand [4, 20] ?cmd = Some (True, sent)" by blast
  from bench_commands_understood [OF s] s cmd show ?thesis by auto
qed

subsection \<open>Reading the responses\<close>

lemma recv_line_complete:
  "newline \<notin> set l \<Longrightarrow> length l < room \<Longrightarrow>
   recv_line room (map Some (l @ newline # rest)) = Some (True, l @ [newline])"
proof (induction l arbitrary: room)
  case Nil
  then show ?case by (cases room) auto
next
  case (Cons c l)
  then obtain room' where "room = Suc room'" by (cases room) auto
  with Cons show ?case by auto
qed

lemma recv_line_cut:
  "newline \<notin> set l \<Longrightarrow> length l = room \<Longrightarrow> recv_line room (map Some (l @ rest)) = Some (True, l)"
  by (induction l arbitrary: room) auto

text \<open>A response line that fits the buffer is read completely and nothing of what follows it. A longer
  one is reported as read when the buffer is full; the rest of it stays in the socket and is
  taken for the response of the next request.\<close>

lemma recvResponse_line:
  "newline \<notin> set l \<Longrightarrow> length l < 4095 \<Longrightarrow>
     recvResponse 4096 (map Some (l @ newline # rest)) = Some (True, l @ [newline])"
  "newline \<notin> set l \<Longrightarrow> length l = 4095 \<Longrightarrow> recvResponse 4096 (map Some (l @ rest)) = Some (True, l)"
  using recv_line_complete [of l 4095 rest] recv_line_cut [of l 4095 rest] by (simp_all add: recvResponse_def)

end
