(* ===== verification/Spec2Isabelle.thy ===== *)
theory Spec2Isabelle
  imports Crash_Recovery Server_Delivery Server_Main Cache_CLI Cache_Bench
begin

text \<open>
  A verification of CacheForge, an in-memory key-value cache server with an append-only log, its
  interactive client and its load generator (C++20, Linux).

  \<^bold>\<open>The program.\<close> One thread runs an \<open>epoll\<close> loop: it accepts connections, reads bytes, cuts them into
  command lines and hands one command per read to a thread pool. A worker parses nothing more: it
  dispatches the command to the storage, sends the response line and clears the in-flight flag
  of the connection. The storage is split into 16 shards, each a hash map with a recency list,
  a mutex and a share of the capacity; keys may have deadlines, checked on access and swept in
  the background by another thread. Commands that change something are put into the queue of the
  log writer, whose thread appends them to a file; on start the file is replayed into the storage.

  \<^bold>\<open>Conventions.\<close> An operation returns \<open>None\<close> where C++ leaves the behaviour undefined, so a theorem
  that gives a result shows that no undefined behaviour is met; what the code throws or returns as
  an error is a value \<open>Inl\<close> of a sum. Counters of type \<open>size_t\<close> are 64-bit words; time points are
  nanoseconds with the overflow of their 64 bits written out. What comes from outside (clock
  readings, results of system calls, received bytes, random draws, \<open>std::hash\<close>, the iteration
  order of hash maps) is an argument of the definitions. Threads are event systems (theory
  \<open>Event_System\<close>): a step is what a thread does while it holds a mutex, a run is any sequence of
  steps.

  \<^bold>\<open>Theories and sources.\<close>
  \<^item> \<open>CF_Prelude\<close>: names of types, option-valued loops, generic lemmas. \<open>Cpp_Std\<close>: the parts of the C and
    C++ libraries in use (character classes, \<open>stoi\<close>, \<open>stoll\<close>, \<open>atoi\<close>, \<open>to_string\<close>, \<open>getline\<close>, clock
    arithmetic, \<open>std::list\<close> with stable iterators).
  \<^item> \<open>Command_Parser\<close>: \<open>protocol/parser\<close>. Tokenizer with quotes and escapes, command recognition. Shown:
    parsed commands have legal arguments, surrounding white space and letter case do not matter.
  \<^item> \<open>Response\<close>: \<open>protocol/response\<close>, the six reply forms; each is one line.
  \<^item> \<open>KV_Store\<close>: the contract of a store, a locale. \<open>LRU_Shard\<close> and \<open>Sharded_Storage\<close>:
    \<open>storage/sharded_storage\<close>, one shard and the whole; both interpret the contract. Shown: the
    invariant between map and recency list, refinement of an abstract recency-ordered cache, bound on
    the number of keys, exactness of the sweep, independence of shards, the meaning of deadlines.
  \<^item> \<open>AOF_Codec\<close>, \<open>AOF_Writer\<close>: \<open>storage/aof_writer\<close>, the line format (a locale for its contract) and the
    queue with its thread. Shown: a file of lines reads back as the commands, lines are written in
    order without loss, \<open>stop\<close> ends with everything written. \<open>AOF_Replay\<close>: \<open>storage/aof_replay\<close>, total
    on every file, with exact statistics.
  \<^item> \<open>Dispatcher\<close>: \<open>protocol/dispatcher\<close>. Shown: each command is answered as the relation \<open>spec_step\<close>, the
    protocol, allows; the statistics add up. \<open>Recovery\<close>: commands, log and replay together, by a
    simulation (locale \<open>log_simulation\<close>) instantiated for exact equality and for keeping every key.
    \<open>Crash_Recovery\<close>: a log file cut at any byte. Shown: it is replayed to the storage after an initial
    part of the commands, but for one torn line, and what a torn line does.
  \<^item> \<open>Connection\<close>, \<open>Event_Loop\<close>, \<open>Thread_Pool\<close>, \<open>Server\<close>: \<open>server/connection\<close>, \<open>event_loop\<close>,
    \<open>thread_pool\<close>, \<open>server\<close>. Shown: lines do not depend on how the bytes are split into reads,
    responses are sent completely and in order, tasks start in order and are all run. In \<open>Server\<close> a task
    goes through stages: its dispatch, each call of \<open>send\<close> and the clearing of the flag are steps of
    their own, between which the other threads run. \<open>Server_Inv\<close>, the invariants of the running
    server: at most one command of a connection is under way, responses reach their client unless a
    descriptor is reused.
  \<^item> \<open>Server_Runs\<close>: whole runs of the server. Shown: in every reachable state the storage invariant and the
    capacity hold and nothing undefined can happen next; the responses of a run are those of a
    sequential run of the protocol. \<open>Server_Delivery\<close>: the output of a connection. Shown: it gets its
    responses in order, in every interleaving in which no worker sends past a buffer that is not
    empty; a worker finishes every command it takes.
  \<^item> \<open>Server_Main\<close>, \<open>Cache_CLI\<close>, \<open>Cache_Bench\<close>: \<open>server/main.cpp\<close>, \<open>tools/cache_cli.cpp\<close>,
    \<open>tools/cache_bench.cpp\<close>. Shown: the command line is validated and understood in all spellings, the
    server reads the clients' bytes as the commands they meant, the load generator accounts for every
    request and its percentiles have their rank.
  \<^item> This theory: a server, its log and the server started again on that log.

  \<^bold>\<open>Flaws.\<close> Some theorems show where the code does not do what it means to: commands after the first of a
  read are dropped (\<open>handleRead_keeps_first_command\<close>), a reused descriptor sends a response to another
  client (\<open>reused_descriptor_misdelivers\<close>), direct sends overtake buffered bytes
  (\<open>sendResponse_overtakes\<close>), a response the socket does not take at once is left in the buffer
  (\<open>blocked_response_stranded\<close>), storage and log may see concurrent writes in different orders
  (\<open>concurrent_writes_diverge\<close>), keys expired by \<open>EXPIRE k 0\<close> are back after a restart
  (\<open>expire_zero_resurrected\<close>), late lines are not logged (\<open>aof_late_push_lost\<close>,
  \<open>write_after_stop_unlogged\<close>), a line torn by a crash is taken for a command and swallows the next one
  (\<open>torn_line_misread\<close>, \<open>torn_line_swallows_next\<close>), some white space breaks a logged value (\<open>aof_splits_other_spaces\<close>), a large
  TTL is answered wrongly (\<open>ttl_reply_narrowed\<close>).

  \<^bold>\<open>Bounds.\<close> No definition uses fuel: loops are structural or have a termination proof, and a loop that
  waits for the outside consumes a list of answers, \<open>None\<close> meaning that it still waits. The clock is
  assumed to be non-negative and within 64 bits (\<open>clock_ok\<close>), and \<open>EXPIRE\<close> to be given seconds whose
  deadline fits (\<open>cmd_fits\<close>); the percentile theorem assumes fewer than \<open>2 ^ 57\<close> samples.

  \<^bold>\<open>Not modelled.\<close> Console output. Memory exhaustion. The memory model below the mutexes and atomics. In
  the runs of the server the dispatch of a command is one step, although it is a storage operation and
  a log operation, each with its own mutex; the theories on the storage, the log and recovery treat
  these finer steps. The handling of one event by the \<open>epoll\<close> thread is one step as well. The order in which members are destroyed. \<open>SIGPIPE\<close>, which ends a client that writes to
  a closed connection. The floating-point throughput figure of the load generator and the Windows
  branches of the interactive client. The unit tests.
\<close>

subsection \<open>Starting, stopping and starting again\<close>

text \<open>All system calls of the constructor succeed.\<close>

definition syscalls_ok :: "Startup \<Rightarrow> bool" where
  "syscalls_ok su \<longleftrightarrow> su_opens su \<and> 0 \<le> su_epoll su \<and> 0 \<le> su_socket su \<and> 0 \<le> su_setsockopt su
     \<and> 0 \<le> su_bind su \<and> 0 \<le> su_listen su \<and> setNonBlocking (su_getfl su) (su_setfl su) \<and> 0 \<le> su_add su"

lemma new_Server_with_log:
  assumes "syscalls_ok su"
    and "replay hash (su_clock su) (su_file su) (new_ShardedStorage DEFAULT_MAX_KEYS) = Some (st, stats)"
  shows "\<exists>s w. new_Server hash su prt n True = Inr s
    \<and> ds s = \<lparr>disp = new_Dispatcher (su_now su), storage = st, aof = Some w\<rparr>
    \<and> aof_start True (case su_file su of None \<Rightarrow> [] | Some b \<Rightarrow> b)
        (new_AOFWriter (su_now su) DEFAULT_FSYNC_INTERVAL) = Inr w \<and> aof_on w"
  using assms
  by (simp add: syscalls_ok_def new_Server_def start_aof_def new_EventLoop_def addFd_def aof_start_def Let_def
      setEnabled_def new_AOFWriter_def aof_on_def)

text \<open>A writer that was started on a file with contents \<open>bytes\<close>, has the lines of \<open>rs\<close> queued and is stopped.\<close>

lemma started_writer_stops:
  assumes "aof_start True bytes (new_AOFWriter t i) = Inr w"
  shows "\<exists>ws w'. length ws \<le> 4 \<and> run aof_step (EvStop # ws @ [EvJoined]) (w\<lparr>queue := queue w @ map log_line rs\<rparr>) = Some w'
    \<and> contents (aof_file w') = bytes @ file_of log_line rs"
proof -
  let ?w = "stop_request (w\<lparr>queue := queue w @ map log_line rs\<rparr>)"
  have w: "aof_ok ?w" "aof_stop_requested ?w" "pc ?w \<noteq> Finished" "aof_total ?w = bytes @ file_of log_line rs"
    using assms by (auto simp: aof_start_def new_AOFWriter_def aof_ok_def stop_request_def aof_total_def
        pending_def file_of_def comp_def)
  from stop_drains [OF w(1-3), of 0] w(4) show ?thesis by (auto simp: aof_step_def)
qed



text \<open>C40. A crash costs the next write. Started on a file that ends in the torn line of a \<open>SET\<close>, the server
  appends to that line: the first command it acknowledges is not in the log it leaves when it is
  stopped, which is replayed as if a value ending in the word \<open>SET\<close> had been stored instead.\<close>

theorem torn_line_swallows_next:
  assumes "syscalls_ok su" and "startup_fits su"
    and "su_file su = Some (file_of log_line rs @ ''SET '' @ quoteIfNeeded k @ '' '' @ a)"
    and "\<forall>r\<in>set rs. log_valid r" and "loggable k" and "loggable a" "\<not> needs_quote a"
    and "loggable x" and "loggable y"
  shows "\<exists>s d w ws w'. new_Server hash su prt n True = Inr s
    \<and> dispatch hash now \<lparr>cmd_type = SET, args = [x, y]\<rparr> (ds s) = Some (d, okResponse) \<and> aof d = Some w
    \<and> length ws \<le> 4 \<and> run aof_step (EvStop # ws @ [EvJoined]) w = Some w'
    \<and> (\<forall>clock st. replay hash clock (Some (contents (aof_file w'))) st
        = replay hash clock (Some (file_of log_line (rs @ [LogSet k (a @ ''SET'')]))) st)"
proof -
  let ?b = "file_of log_line rs @ ''SET '' @ quoteIfNeeded k @ '' '' @ a"
  let ?t = "(''SET '' @ quoteIfNeeded k @ '' '' @ a) @ log_line (LogSet x y)"
  have "\<And>j. j < length (getlines ?b) \<Longrightarrow> line_fits (su_clock su (0 + j)) (getlines ?b ! j)"
    using assms(2,3) by (simp add: startup_fits_def)
  from replay_lines_total [OF storage_ok_new this, of hash DEFAULT_MAX_KEYS no_stats] obtain st stats where
    st: "replay hash (su_clock su) (su_file su) (new_ShardedStorage DEFAULT_MAX_KEYS) = Some (st, stats)" "storage_ok hash st"
    by (auto simp: replay_def assms(3))
  from new_Server_with_log [OF assms(1) st(1), of prt n] assms(3) obtain s w0 where
    s: "new_Server hash su prt n True = Inr s" "ds s = \<lparr>disp = new_Dispatcher (su_now su), storage = st, aof = Some w0\<rparr>"
    and w0: "aof_start True ?b (new_AOFWriter (su_now su) DEFAULT_FSYNC_INTERVAL) = Inr w0" "aof_on w0" by auto
  obtain st' where st': "storage_set hash x y st = Some st'" using storage_set_total [OF st(2)] by blast
  let ?w = "w0\<lparr>queue := queue w0 @ map log_line [LogSet x y]\<rparr>"
  obtain d where d: "dispatch hash now \<lparr>cmd_type = SET, args = [x, y]\<rparr> (ds s) = Some (d, okResponse)" "aof d = Some ?w"
    using st' by (simp add: dispatch_def Let_def s(2) with_disp_def log_if_def aof_log_on [OF w0(2)])
  from started_writer_stops [OF w0(1), of "[LogSet x y]"] obtain ws w' where
    ws: "length ws \<le> 4" "run aof_step (EvStop # ws @ [EvJoined]) ?w = Some w'"
      "contents (aof_file w') = file_of log_line rs @ ?t @ [newline]" by (auto simp: file_of_def)
  have n: "newline \<notin> set ?t"
    using quoteIfNeeded_ends(3) [OF assms(5)] quoteIfNeeded_ends(3) [OF assms(8)] quoteIfNeeded_ends(3) [OF assms(9)]
      assms(6) by (simp add: loggable_def)
  have v: "log_valid (LogSet k (a @ ''SET''))"
    using assms(5-7) by (auto simp: loggable_def needs_quote_def isspace_def)
  have "replay hash clock (Some (contents (aof_file w'))) st1
      = replay hash clock (Some (file_of log_line (rs @ [LogSet k (a @ ''SET'')]))) st1" for clock st1
    unfolding ws(3) by (rule replay_last_line [OF assms(4) _ n _ v glued_line [OF assms(5-9)]]) simp_all
  with s(1) d ws(1,2) show ?thesis by blast
qed

theorem torn_line_swallows_next_witness:
  "\<exists>s d w ws w'. new_Server (\<lambda>_. 2) (demo_startup\<lparr>su_file := Some ''SET k 12''\<rparr>) 6380 1 True = Inr s
    \<and> dispatch (\<lambda>_. 2) (5, 5) \<lparr>cmd_type = SET, args = [''a'', ''b'']\<rparr> (ds s) = Some (d, okResponse) \<and> aof d = Some w
    \<and> length ws \<le> 4 \<and> run aof_step (EvStop # ws @ [EvJoined]) w = Some w'
    \<and> (\<forall>clock st. replay (\<lambda>_. 2) clock (Some (contents (aof_file w'))) st
        = replay (\<lambda>_. 2) clock (Some (file_of log_line [LogSet ''k'' ''12SET''])) st)"
proof -
  let ?su = "demo_startup\<lparr>su_file := Some ''SET k 12''\<rparr>"
  have su: "syscalls_ok ?su" by (simp add: syscalls_ok_def demo_startup_def setNonBlocking_def)
  have "getlines ''SET k 12'' = [''SET k 12'']" "cmd_type (parseCommand ''SET k 12'') = SET" by code_simp+
  then have f: "startup_fits ?su" by (simp add: startup_fits_def line_fits_def Let_def)
  have b: "su_file ?su = Some (file_of log_line [] @ ''SET '' @ quoteIfNeeded ''k'' @ '' '' @ ''12'')"
    by (simp add: file_of_def quoteIfNeeded_def needs_quote_def)
  have v: "\<forall>r\<in>set []. log_valid r" "loggable ''k''" "loggable ''12''" "\<not> needs_quote ''12''" "loggable ''a''" "loggable ''b''"
    by (simp_all add: loggable_def needs_quote_def isspace_def)
  from torn_line_swallows_next [OF su f b v, where hash = "\<lambda>_. 2" and prt = 6380 and n = 1 and now = "(5, 5)"]
  show ?thesis by simp
qed

end
